(* ===== verification/Prelude.thy ===== *)
theory Prelude
  imports Main "HOL-Library.Word" "HOL-Library.Monad_Syntax"
begin

unbundle bit_operations_syntax

text \<open>
  Shared ground of the development: the machine integer types of the C sources, the error
  codes the kernel returns, byte memory with 64-bit little-endian accesses, and the generic
  lemmas on words and memory that the component theories use.

  Conventions.  A pointer is the \<open>64 word\<close> the C program computes with and \<open>NULL\<close>
  is \<open>0\<close>.  An \<open>int\<close> return of \<open>0\<close> or a negative error code is a value of
  \<open>errno + 'a\<close> (\<open>Inl\<close> the error).  A call that ends in \<open>kpanic\<close> or in a
  failed \<open>assert\<close> does not return: such functions have an \<open>option\<close> result and
  \<open>None\<close> is the panic.
\<close>

type_synonym u8 = "8 word"
type_synonym u16 = "16 word"
type_synonym u32 = "32 word"
type_synonym u64 = "64 word"

type_synonym memory = "u64 \<Rightarrow> u8"

datatype errno = EPERM | ENOENT | EINTR | EIO | EBADF | EAGAIN | ENOMEM | EACCES | EFAULT
  | EEXIST | EXDEV | ENODEV | ENOTDIR | EISDIR | EINVAL | ENOTTY | ENOSPC | ESPIPE | EROFS
  | EPIPE | ENAMETOOLONG | ENOSYS | ENOTEMPTY | ETIMEDOUT | ECONNRESET

text \<open>\<open>assert(c)\<close>, and \<open>if (!c) kpanic(...)\<close>: execution goes on only if the condition
  holds.\<close>

definition require :: "bool \<Rightarrow> unit option" where
  "require c = (if c then Some () else None)"

lemma require_simps [simp]:
  "require True = Some ()" "require False = None" "require c = Some u \<longleftrightarrow> c"
  by (simp_all add: require_def)

lemma bind_require [simp]: "Option.bind (require c) f = (if c then f () else None)"
  by (simp add: require_def)

section \<open>Collections of rules\<close>

named_theorems mem_simps \<open>rewrite rules for byte memory\<close>
named_theorems page_simps \<open>rewrite rules for page descriptors and their flag words\<close>

section \<open>Words\<close>

lemma unat_bound64 [simp]: "unat (x :: u64) < 18446744073709551616"
  using unsigned_less [of x, where 'a = nat] by simp

lemma unat_le64 [simp]: "unat (x :: u64) \<le> 18446744073709551616"
  by (rule less_imp_le) (rule unat_bound64)

lemma unat_Suc_pred: "(x :: u64) \<noteq> 0 \<Longrightarrow> unat x = Suc (unat (x - 1))"
  by (simp add: unat_minus_one) (metis Suc_pred unat_gt_0)

lemma unat_add1: "(x :: u64) + 1 \<noteq> 0 \<Longrightarrow> unat (x + 1) = Suc (unat x)"
  using unat_Suc_pred [of "x + 1"] by simp

lemma unat_add_le:
  assumes "unat (a :: u64) + n \<le> 2 ^ 64" and "k < n"
  shows "unat (a + of_nat k) = unat a + k"
proof -
  have "unat a + k < 2 ^ 64" using assms by simp
  moreover have "unat (of_nat k :: u64) = k"
    using assms by (simp add: unat_of_nat)
  ultimately show ?thesis
    by (simp add: unat_word_ariths)
qed

lemma unat_of_nat64 [simp]: "k < 18446744073709551616 \<Longrightarrow> unat (of_nat k :: u64) = k"
  by (simp add: unat_of_nat)

text \<open>Shifting the base of a byte offset: \<open>a\<close> lies in the \<open>n\<close> bytes after the first \<open>k\<close> from
  \<open>d\<close> iff its offset from \<open>d\<close> is between \<open>k\<close> and \<open>k + n\<close>.\<close>

lemma offset_shift:
  fixes a d :: u64
  assumes "k + n \<le> 2 ^ 64"
  shows "unat (a - (d + of_nat k)) < n \<longleftrightarrow> k \<le> unat (a - d) \<and> unat (a - d) < k + n"
proof (cases "k < 2 ^ 64")
  case False
  then have "n = 0" using assms by simp
  then show ?thesis by simp
next
  case True
  define x where "x = a - d"
  have eq: "a - (d + of_nat k) = x - of_nat k" by (simp add: x_def)
  have "unat (x - of_nat k) = (if k \<le> unat x then unat x - k else unat x + 2 ^ 64 - k)"
    using True by (simp add: unat_sub_if')
  then show ?thesis
    unfolding eq x_def [symmetric] using assms unat_bound64 [of x] by (auto split: if_splits)
qed

lemma unat_diff_eq_0 [simp]: "unat (a - d :: u64) = 0 \<longleftrightarrow> a = d"
  by (simp add: unat_eq_zero)

section \<open>Byte memory\<close>

text \<open>\<open>copied m d s n\<close> is \<open>m\<close> after \<open>n\<close> bytes at \<open>s\<close> were copied to \<open>d\<close> as one
  simultaneous move, \<open>filled m d v n\<close> after \<open>n\<close> bytes at \<open>d\<close> were set to \<open>v\<close>: the
  reference against which the loops of the C code are proved.\<close>

definition copied :: "memory \<Rightarrow> u64 \<Rightarrow> u64 \<Rightarrow> nat \<Rightarrow> memory" where
  "copied m d s n = (\<lambda>a. if unat (a - d) < n then m (s + (a - d)) else m a)"

definition filled :: "memory \<Rightarrow> u64 \<Rightarrow> u8 \<Rightarrow> nat \<Rightarrow> memory" where
  "filled m d v n = (\<lambda>a. if unat (a - d) < n then v else m a)"

definition load64 :: "memory \<Rightarrow> u64 \<Rightarrow> u64" where
  "load64 m p =
     ucast (m p) OR push_bit 8 (ucast (m (p + 1))) OR push_bit 16 (ucast (m (p + 2)))
     OR push_bit 24 (ucast (m (p + 3))) OR push_bit 32 (ucast (m (p + 4)))
     OR push_bit 40 (ucast (m (p + 5))) OR push_bit 48 (ucast (m (p + 6)))
     OR push_bit 56 (ucast (m (p + 7)))"

definition store64 :: "memory \<Rightarrow> u64 \<Rightarrow> u64 \<Rightarrow> memory" where
  "store64 m p w =
     (\<lambda>a. if unat (a - p) < 8 then ucast (drop_bit (8 * unat (a - p)) w) else m a)"

lemma copied_0 [simp]: "copied m d s 0 = m"
  by (simp add: copied_def)

lemma filled_0 [simp]: "filled m d v 0 = m"
  by (simp add: filled_def)

lemma copied_same [simp]: "copied m d d n = m"
  by (rule ext) (simp add: copied_def)

lemma copied_forward:
  fixes d s :: u64
  assumes "k + n \<le> 2 ^ 64" and "d = s \<or> k + n \<le> unat (d - s)"
  shows "copied (copied m d s k) (d + of_nat k) (s + of_nat k) n = copied m d s (k + n)"
proof
  fix a
  have src: "unat (s + (a - d) - d) \<ge> k"
    if "\<not> unat (a - d) < k" and "unat (a - d) < k + n" and "d \<noteq> s"
  proof -
    define x y where "x = a - d" and "y = d - s"
    have y: "k + n \<le> unat y" using assms that by (simp add: y_def)
    have eq: "s + (a - d) - d = x - y" by (simp add: x_def y_def)
    have "unat x < unat y" using that y by (simp add: x_def)
    then have "unat (x - y) = unat x + 18446744073709551616 - unat y"
      by (simp add: unat_sub_if')
    moreover have "k \<le> unat x" using that by (simp add: x_def)
    ultimately show ?thesis unfolding eq using unat_bound64 [of y] by linarith
  qed
  show "copied (copied m d s k) (d + of_nat k) (s + of_nat k) n a = copied m d s (k + n) a"
  proof (cases "d = s")
    case True
    then show ?thesis by simp
  next
    case False
    have "s + of_nat k + (a - (d + of_nat k)) = s + (a - d)" by simp
    then show ?thesis
      using src False offset_shift [OF assms(1), of a d]
      by (auto simp: copied_def not_less)
  qed
qed

lemma copied_backward:
  fixes d s :: u64
  assumes "n + k \<le> 2 ^ 64" and "d = s \<or> n + k \<le> unat (s - d)"
  shows "copied (copied m (d + of_nat n) (s + of_nat n) k) d s n = copied m d s (n + k)"
proof
  fix a
  have eq: "s + of_nat n + (a - (d + of_nat n)) = s + (a - d)" by simp
  have src: "\<not> unat (s + (a - d) - (d + of_nat n)) < k"
    if "unat (a - d) < n" and "d \<noteq> s"
  proof -
    define x y where "x = a - d" and "y = s - d"
    have y: "n + k \<le> unat y" using assms that by (simp add: y_def)
    have xn: "unat x < n" using that by (simp add: x_def)
    have eq: "s + (a - d) - (d + of_nat n) = (y - of_nat n) + x" by (simp add: x_def y_def)
    have "n < 18446744073709551616" using y unat_bound64 [of y] by linarith
    then have n: "unat (of_nat n :: u64) = n" by simp
    have yn: "unat (y - of_nat n) = unat y - n" using y n by (simp add: unat_sub_if')
    have "unat (y - of_nat n) + unat x < 18446744073709551616"
      using xn yn y unat_bound64 [of y] by linarith
    then have "unat ((y - of_nat n) + x) = unat y - n + unat x"
      using yn by (simp add: unat_word_ariths)
    then show ?thesis unfolding eq using y by linarith
  qed
  show "copied (copied m (d + of_nat n) (s + of_nat n) k) d s n a = copied m d s (n + k) a"
  proof (cases "d = s")
    case True
    then show ?thesis by simp
  next
    case False
    then show ?thesis
      using src offset_shift [OF assms(1), of a d] eq
      by (auto simp: copied_def)
  qed
qed

lemma filled_step:
  assumes "Suc n \<le> 2 ^ 64"
  shows "filled (m(d := v)) (d + 1) v n = filled m d v (Suc n)"
proof
  fix a
  have "Suc 0 \<le> unat (a - d) \<longleftrightarrow> a \<noteq> d" using unat_diff_eq_0 [of a d] by linarith
  then show "filled (m(d := v)) (d + 1) v n a = filled m d v (Suc n) a"
    using offset_shift [of 1 n a d] assms by (auto simp: filled_def)
qed

lemma copied_1: "copied m d s (Suc 0) = m(d := m s)"
  by (rule ext) (simp add: copied_def)

lemma less_8_cases: "unat (x :: u64) < 8 \<Longrightarrow> x = 0 \<or> x = 1 \<or> x = 2 \<or> x = 3 \<or> x = 4 \<or> x = 5 \<or> x = 6 \<or> x = 7"
  by (simp add: word_unat_eq_iff) linarith

lemma byte_of_load64:
  assumes "unat k < 8"
  shows "ucast (drop_bit (8 * unat k) (load64 m p)) = m (p + k)"
proof -
  have "bit (ucast (drop_bit (8 * unat k) (load64 m p)) :: u8) i = bit (m (p + k)) i"
    if "i < 8" for i
    using less_8_cases [OF assms] that
    by (elim disjE)
      (auto simp: load64_def bit_simps dest: bit_imp_le_length)
  then show ?thesis by (intro bit_word_eqI) simp
qed

lemma store64_load64: "store64 m d (load64 m s) = copied m d s 8"
  by (rule ext) (simp add: store64_def copied_def byte_of_load64)

lemma load64_cong: "(\<And>k. k < 8 \<Longrightarrow> m (p + of_nat k) = m' (p + of_nat k)) \<Longrightarrow> load64 m p = load64 m' p"
proof -
  assume h: "\<And>k. k < 8 \<Longrightarrow> m (p + of_nat k) = m' (p + of_nat k)"
  have "m p = m' p" "m (p + 1) = m' (p + 1)" "m (p + 2) = m' (p + 2)" "m (p + 3) = m' (p + 3)"
    "m (p + 4) = m' (p + 4)" "m (p + 5) = m' (p + 5)" "m (p + 6) = m' (p + 6)" "m (p + 7) = m' (p + 7)"
    using h [of 0] h [of 1] h [of 2] h [of 3] h [of 4] h [of 5] h [of 6] h [of 7] by simp_all
  then show ?thesis by (simp add: load64_def)
qed

lemma word_eq_bytes:
  fixes x y :: u64
  assumes "\<And>k :: u64. unat k < 8 \<Longrightarrow> (ucast (drop_bit (8 * unat k) x) :: u8) = ucast (drop_bit (8 * unat k) y)"
  shows "x = y"
proof (rule bit_word_eqI)
  fix n assume n: "n < LENGTH(64)"
  define k :: u64 where "k = of_nat (n div 8)"
  have k: "unat k = n div 8" "unat k < 8" using n by (simp_all add: k_def)
  have eq: "bit (ucast (drop_bit (8 * unat k) z) :: u8) (n mod 8) = bit z n" for z :: u64
    unfolding k(1) using n by (simp add: bit_simps)
  show "bit x n = bit y n"
    using assms [OF k(2)] eq [of x] eq [of y] by simp
qed

lemma load64_store64_same: "load64 (store64 m p w) p = w"
  by (rule word_eq_bytes) (simp add: byte_of_load64 store64_def)

lemma load64_store64_other:
  assumes "8 \<le> unat (q - p)" and "8 \<le> unat (p - q)"
  shows "load64 (store64 m p w) q = load64 m q"
proof (rule load64_cong)
  fix k :: nat assume k: "k < 8"
  have "\<not> unat (q + of_nat k - p) < 8"
  proof -
    define x where "x = q - p"
    have px: "p - q = - x" by (simp add: x_def)
    have "x \<noteq> 0" using assms by (auto simp: x_def)
    then have "unat (0 - x) = 2 ^ 64 - unat x" unfolding unat_sub_if' by (simp add: unat_eq_zero)
    then have ub: "unat x + 8 \<le> 2 ^ 64" using assms(2) px by simp
    have eq: "q + of_nat k - p = x + of_nat k" by (simp add: x_def)
    have "unat (q + of_nat k - p) = unat x + k"
      unfolding eq using k ub by (intro unat_add_le [of x 8]) simp_all
    then show ?thesis using assms(1) by (simp add: x_def)
  qed
  then show "store64 m p w (q + of_nat k) = m (q + of_nat k)" by (simp add: store64_def)
qed

lemma load64_filled_inside:
  assumes "unat (p - d) + 8 \<le> n" "n \<le> 2 ^ 64"
  shows "load64 (filled m d 0 n) p = 0"
proof -
  have "filled m d 0 n (p + of_nat k) = 0" if "k < 8" for k
  proof -
    have eq: "p + of_nat k - d = (p - d) + of_nat k" by simp
    have "unat (p + of_nat k - d) = unat (p - d) + k"
      unfolding eq using assms that by (intro unat_add_le [of _ 8]) simp_all
    then show ?thesis using assms that by (simp add: filled_def)
  qed
  then have "load64 (filled m d 0 n) p = load64 (\<lambda>_. 0) p" by (intro load64_cong) simp
  then show ?thesis by (simp add: load64_def)
qed

lemma load64_filled_outside:
  assumes "\<And>k. k < 8 \<Longrightarrow> n \<le> unat (p + of_nat k - d)"
  shows "load64 (filled m d v n) p = load64 m p"
  using assms by (intro load64_cong) (simp add: filled_def leD)

section \<open>Alignment and loops\<close>

definition ALIGN_DOWN :: "u64 \<Rightarrow> u64 \<Rightarrow> u64" where
  "ALIGN_DOWN x y = x div y * y"

definition ALIGN_UP :: "u64 \<Rightarrow> u64 \<Rightarrow> u64" where
  "ALIGN_UP x y = (x + (y - 1)) div y * y"

text \<open>A loop over a list of values whose body may panic.\<close>

primrec foldM :: "('a \<Rightarrow> 's \<Rightarrow> 's option) \<Rightarrow> 'a list \<Rightarrow> 's \<Rightarrow> 's option" where
  "foldM f [] s = Some s"
| "foldM f (x # xs) s = Option.bind (f x s) (foldM f xs)"

lemma foldM_append: "foldM f (xs @ ys) s = Option.bind (foldM f xs s) (foldM f ys)"
  by (induction xs arbitrary: s) (auto split: bind_splits)

end
