(* ===== verification/NetBase.thy ===== *)
theory NetBase
  imports Prelude
begin

unbundle bit_operations_syntax

text \<open>
  The ground of the network stack (\<open>src/net/stack.h\<close>, \<open>include/net/net.h\<close> and the helpers of
  \<open>src/net/core/netdev.c\<close>): byte order, the packed headers as byte sequences, the Internet checksum,
  the network devices and the state the protocols share.

  A buffer with its length is a byte list.  A read outside the list is an access outside the buffer
  and gives \<open>None\<close>, so that a parser that returns \<open>Some\<close> on every input stays inside its buffer.
  Packet lengths and positions are \<open>nat\<close>: they are at most \<open>65535\<close> plus a header, far below the
  range of \<open>size_t\<close>.  The \<open>int\<close> result of a handler is an \<open>errno + int\<close>, a negative code being
  \<open>Inl\<close>.
\<close>

section \<open>Byte order and packed structures\<close>

type_synonym bytes = "u8 list"
type_synonym rc = "errno + int"

definition net_bswap16 :: "u16 \<Rightarrow> u16" where
  "net_bswap16 v = push_bit 8 v OR drop_bit 8 v"

definition net_bswap32 :: "u32 \<Rightarrow> u32" where
  "net_bswap32 v = push_bit 24 (v AND 0x000000ff) OR push_bit 8 (v AND 0x0000ff00)
     OR drop_bit 8 (v AND 0x00ff0000) OR drop_bit 24 (v AND 0xff000000)"

abbreviation (input) htons :: "u16 \<Rightarrow> u16" where "htons \<equiv> net_bswap16"
abbreviation (input) ntohs :: "u16 \<Rightarrow> u16" where "ntohs \<equiv> net_bswap16"
abbreviation (input) htonl :: "u32 \<Rightarrow> u32" where "htonl \<equiv> net_bswap32"
abbreviation (input) ntohl :: "u32 \<Rightarrow> u32" where "ntohl \<equiv> net_bswap32"

text \<open>Loads from a buffer and the bytes of a stored field, in the byte order of the machine.\<close>

definition rd8 :: "bytes \<Rightarrow> nat \<Rightarrow> u8 option" where
  "rd8 b i = (if i < length b then Some (b ! i) else None)"

definition rd16 :: "bytes \<Rightarrow> nat \<Rightarrow> u16 option" where
  "rd16 b i = do { x0 \<leftarrow> rd8 b i; x1 \<leftarrow> rd8 b (i + 1); Some (ucast x0 OR push_bit 8 (ucast x1)) }"

definition rd32 :: "bytes \<Rightarrow> nat \<Rightarrow> u32 option" where
  "rd32 b i = do { x0 \<leftarrow> rd8 b i; x1 \<leftarrow> rd8 b (i + 1); x2 \<leftarrow> rd8 b (i + 2); x3 \<leftarrow> rd8 b (i + 3);
     Some (ucast x0 OR push_bit 8 (ucast x1) OR push_bit 16 (ucast x2) OR push_bit 24 (ucast x3)) }"

definition rd_block :: "bytes \<Rightarrow> nat \<Rightarrow> nat \<Rightarrow> bytes option" where
  "rd_block b i n = (if i + n \<le> length b then Some (take n (drop i b)) else None)"

definition st16 :: "u16 \<Rightarrow> bytes" where "st16 v = [ucast v, ucast (drop_bit 8 v)]"
definition st32 :: "u32 \<Rightarrow> bytes" where
  "st32 v = [ucast v, ucast (drop_bit 8 v), ucast (drop_bit 16 v), ucast (drop_bit 24 v)]"

abbreviation (input) ETH_P_IP :: u16 where "ETH_P_IP \<equiv> 0x0800"
abbreviation (input) ETH_P_ARP :: u16 where "ETH_P_ARP \<equiv> 0x0806"
abbreviation (input) IP_PROTO_ICMP :: u8 where "IP_PROTO_ICMP \<equiv> 1"
abbreviation (input) IP_PROTO_TCP :: u8 where "IP_PROTO_TCP \<equiv> 6"
abbreviation (input) IP_PROTO_UDP :: u8 where "IP_PROTO_UDP \<equiv> 17"
abbreviation (input) NET_ETH_ALEN :: nat where "NET_ETH_ALEN \<equiv> 6"
abbreviation (input) NET_ETH_FRAME_MAX :: nat where "NET_ETH_FRAME_MAX \<equiv> 1518"
abbreviation (input) NETDEV_RX_QUEUE_LEN :: nat where "NETDEV_RX_QUEUE_LEN \<equiv> 16"
abbreviation (input) sizeof_eth :: nat where "sizeof_eth \<equiv> 14"
abbreviation (input) sizeof_arp :: nat where "sizeof_arp \<equiv> 28"
abbreviation (input) sizeof_ipv4 :: nat where "sizeof_ipv4 \<equiv> 20"
abbreviation (input) sizeof_udp :: nat where "sizeof_udp \<equiv> 8"
abbreviation (input) sizeof_tcp :: nat where "sizeof_tcp \<equiv> 20"
abbreviation (input) sizeof_icmp_echo :: nat where "sizeof_icmp_echo \<equiv> 40"

text \<open>The headers the stack builds, field by field, and the bytes they occupy.\<close>

definition eth_hdr :: "bytes \<Rightarrow> bytes \<Rightarrow> u16 \<Rightarrow> bytes" where
  "eth_hdr dst src ty = dst @ src @ st16 ty"

record arp_pkt =
  htype :: u16
  ptype :: u16
  hlen :: u8
  plen :: u8
  oper :: u16
  sha :: bytes
  spa :: u32
  tha :: bytes
  tpa :: u32

definition arp_bytes :: "arp_pkt \<Rightarrow> bytes" where
  "arp_bytes a = st16 (htype a) @ st16 (ptype a) @ [hlen a, plen a] @ st16 (oper a) @ sha a @ st32 (spa a)
     @ tha a @ st32 (tpa a)"

record ipv4_hdr =
  ver_ihl :: u8
  tos :: u8
  total_len :: u16
  ip_id :: u16
  frag_off :: u16
  ip_ttl :: u8
  ip_proto :: u8
  ip_checksum :: u16
  ip_src :: u32
  ip_dst :: u32

definition ipv4_bytes :: "ipv4_hdr \<Rightarrow> bytes" where
  "ipv4_bytes h = [ver_ihl h, tos h] @ st16 (total_len h) @ st16 (ip_id h) @ st16 (frag_off h)
     @ [ip_ttl h, ip_proto h] @ st16 (ip_checksum h) @ st32 (ip_src h) @ st32 (ip_dst h)"

record udp_hdr =
  udp_src_port :: u16
  udp_dst_port :: u16
  udp_hlen :: u16
  udp_checksum :: u16

definition udp_bytes :: "udp_hdr \<Rightarrow> bytes" where
  "udp_bytes h = st16 (udp_src_port h) @ st16 (udp_dst_port h) @ st16 (udp_hlen h) @ st16 (udp_checksum h)"

record icmp_echo =
  icmp_type :: u8
  icmp_code :: u8
  icmp_checksum :: u16
  icmp_ident :: u16
  icmp_seq :: u16
  icmp_payload :: bytes

definition icmp_bytes :: "icmp_echo \<Rightarrow> bytes" where
  "icmp_bytes h = [icmp_type h, icmp_code h] @ st16 (icmp_checksum h) @ st16 (icmp_ident h) @ st16 (icmp_seq h)
     @ icmp_payload h"

record tcp_hdr =
  tcp_src_port :: u16
  tcp_dst_port :: u16
  tcp_seq :: u32
  tcp_ack :: u32
  data_off :: u8
  tcp_flags :: u8
  window :: u16
  tcp_checksum :: u16
  urgent :: u16

definition tcp_bytes :: "tcp_hdr \<Rightarrow> bytes" where
  "tcp_bytes h = st16 (tcp_src_port h) @ st16 (tcp_dst_port h) @ st32 (tcp_seq h) @ st32 (tcp_ack h)
     @ [data_off h, tcp_flags h] @ st16 (window h) @ st16 (tcp_checksum h) @ st16 (urgent h)"

definition pseudo_bytes :: "u32 \<Rightarrow> u32 \<Rightarrow> u8 \<Rightarrow> u8 \<Rightarrow> u16 \<Rightarrow> bytes" where
  "pseudo_bytes s d z p l = st32 s @ st32 d @ [z, p] @ st16 l"

section \<open>The Internet checksum\<close>

text \<open>The accumulation loop of \<open>net_checksum\<close>: 16-bit big-endian words added in 32 bits, a last odd byte
  as a high byte.\<close>

fun sum16 :: "u32 \<Rightarrow> bytes \<Rightarrow> u32" where
  "sum16 s (x # y # r) = sum16 (s + (push_bit 8 (ucast x) OR ucast y)) r"
| "sum16 s [x] = s + push_bit 8 (ucast x)"
| "sum16 s [] = s"

lemma unat_fold_step:
  fixes s :: u32
  shows "unat (drop_bit 16 s) = unat s div 65536"
    and "unat ((s AND 0xffff) + drop_bit 16 s) = unat s mod 65536 + unat s div 65536"
proof -
  show d: "unat (drop_bit 16 s) = unat s div 65536" by (simp add: drop_bit_eq_div unat_div)
  have "s AND 0xffff = take_bit 16 s" by (simp add: take_bit_eq_mask mask_eq_exp_minus_1)
  then have a: "unat (s AND 0xffff) = unat s mod 65536" by (simp add: take_bit_eq_mod unat_mod)
  have "unat s < 2 ^ 32" using unsigned_less [of s, where 'a = nat] by simp
  then have "unat s div 65536 < 65536" by (simp add: less_mult_imp_div_less)
  moreover have "unat s mod 65536 < 65536" by simp
  ultimately have "unat s mod 65536 + unat s div 65536 < 4294967296" by linarith
  then show "unat ((s AND 0xffff) + drop_bit 16 s) = unat s mod 65536 + unat s div 65536"
    unfolding unat_word_ariths(1) a d by simp
qed

text \<open>\<open>while (sum >> 16) sum = (sum & 0xffff) + (sum >> 16)\<close>.\<close>

function fold_carry :: "u32 \<Rightarrow> u32" where
  "fold_carry s = (if drop_bit 16 s = 0 then s else fold_carry ((s AND 0xffff) + drop_bit 16 s))"
  by pat_completeness auto

termination
proof (relation "measure unat")
  fix s :: u32
  assume "drop_bit 16 s \<noteq> 0"
  then have "unat s div 65536 \<noteq> 0" using unat_fold_step(1) [of s] by (metis unat_eq_zero)
  moreover have "unat s mod 65536 + 65536 * (unat s div 65536) = unat s" by simp
  ultimately have "unat s mod 65536 + unat s div 65536 < unat s" by linarith
  then show "((s AND 0xFFFF) + drop_bit 16 s, s) \<in> measure unat" unfolding in_measure unat_fold_step(2) .
qed simp

declare fold_carry.simps [simp del]

definition net_checksum :: "bytes \<Rightarrow> u16" where
  "net_checksum d = ucast (NOT (fold_carry (sum16 0 d)))"

definition net_checksum2 :: "bytes \<Rightarrow> bytes \<Rightarrow> u16" where
  "net_checksum2 a b = ucast (NOT (fold_carry (sum16 (sum16 0 a) b)))"

definition net_ipv4 :: "u8 \<Rightarrow> u8 \<Rightarrow> u8 \<Rightarrow> u8 \<Rightarrow> u32" where
  "net_ipv4 a b c d = push_bit 24 (ucast a) OR push_bit 16 (ucast b) OR push_bit 8 (ucast c) OR ucast d"

lemma rd8_simps [simp]:
  "rd8 (x # xs) 0 = Some x" "rd8 (x # xs) (Suc i) = rd8 xs i" "rd8 [] i = None"
  by (simp_all add: rd8_def)

lemma rd8_append: "rd8 (xs @ ys) i = (if i < length xs then rd8 xs i else rd8 ys (i - length xs))"
  by (auto simp: rd8_def nth_append)

lemma rd8_Some: "i < length b \<Longrightarrow> rd8 b i = Some (b ! i)"
  by (simp add: rd8_def)

lemma rd16_append: "length xs \<le> i \<Longrightarrow> rd16 (xs @ ys) i = rd16 ys (i - length xs)"
  by (simp add: rd16_def rd8_append Suc_diff_le)

lemma rd32_append: "length xs \<le> i \<Longrightarrow> rd32 (xs @ ys) i = rd32 ys (i - length xs)"
  by (simp add: rd32_def rd8_append Suc_diff_le)

lemma length_st [simp]: "length (st16 v) = 2" "length (st32 w) = 4"
  by (simp_all add: st16_def st32_def)

lemma rd16_st16 [simp]: "rd16 (st16 v @ ys) 0 = Some v"
proof -
  have "(ucast (ucast v :: u8) :: u16) OR push_bit 8 (ucast (ucast (drop_bit 8 v) :: u8)) = v"
    by (rule bit_word_eqI) (auto simp: bit_simps)
  then show ?thesis by (simp add: rd16_def st16_def)
qed

lemma rd32_st32 [simp]: "rd32 (st32 v @ ys) 0 = Some v"
proof -
  have "(ucast (ucast v :: u8) :: u32) OR push_bit 8 (ucast (ucast (drop_bit 8 v) :: u8))
     OR push_bit 16 (ucast (ucast (drop_bit 16 v) :: u8)) OR push_bit 24 (ucast (ucast (drop_bit 24 v) :: u8)) = v"
  proof (rule bit_word_eqI)
    fix n assume "n < LENGTH(32)"
    then show "bit (ucast (ucast v :: u8) OR push_bit 8 (ucast (ucast (drop_bit 8 v) :: u8))
       OR push_bit 16 (ucast (ucast (drop_bit 16 v) :: u8)) OR push_bit 24 (ucast (ucast (drop_bit 24 v) :: u8)) :: u32) n = bit v n"
      by (cases "n < 8"; cases "n < 16"; cases "n < 24") (simp_all add: bit_simps not_less less_diff_conv2)
  qed
  then show ?thesis by (simp add: rd32_def st32_def numeral_2_eq_2 numeral_3_eq_3)
qed

lemma net_bswap16_twice [simp]: "net_bswap16 (net_bswap16 v) = v"
  by (rule bit_word_eqI) (auto simp: net_bswap16_def bit_simps)

lemma bit_net_bswap32:
  "n < 32 \<Longrightarrow> bit (net_bswap32 v) n =
     (if n < 8 then bit v (n + 24) else if n < 16 then bit v (n + 8) else if n < 24 then bit v (n - 8) else bit v (n - 24))"
proof -
  assume n: "n < 32"
  have m: "(0xff :: u32) = mask 8" "(0xff00 :: u32) = push_bit 8 (mask 8)" "(0xff0000 :: u32) = push_bit 16 (mask 8)"
    "(0xff000000 :: u32) = push_bit 24 (mask 8)" by (simp_all add: mask_eq_exp_minus_1)
  show ?thesis
    unfolding net_bswap32_def m using n
    by (cases "n < 8"; cases "n < 16"; cases "n < 24") (simp_all add: bit_simps add.commute [of n] not_less less_diff_conv2)
qed

lemma net_bswap32_twice [simp]: "net_bswap32 (net_bswap32 v) = v"
proof (rule bit_word_eqI)
  fix n assume n: "n < LENGTH(32)"
  then show "bit (net_bswap32 (net_bswap32 v)) n = bit v n"
    by (cases "n < 8"; cases "n < 16"; cases "n < 24") (simp_all add: bit_net_bswap32 not_less less_diff_conv2)
qed

section \<open>The checksum as a sum\<close>

text \<open>The number a byte string stands for in the checksum: the sum of its big-endian 16-bit words.\<close>

fun words_sum :: "bytes \<Rightarrow> nat" where
  "words_sum (x # y # r) = unat x * 256 + unat y + words_sum r"
| "words_sum [x] = unat x * 256"
| "words_sum [] = 0"

lemma word16_be: "unat (push_bit 8 (ucast (x :: u8)) OR ucast (y :: u8) :: u32) = unat x * 256 + unat y"
proof -
  have "push_bit 8 (ucast x :: u32) AND ucast y = 0" by (rule bit_word_eqI) (auto simp: bit_simps dest: bit_imp_le_length)
  then have "push_bit 8 (ucast x) OR ucast y = push_bit 8 (ucast x :: u32) + ucast y" by (simp add: disjunctive_add bit_eq_iff bit_simps)
  moreover have "unat (push_bit 8 (ucast x :: u32)) = unat x * 256"
    using unsigned_less [of x, where 'a = nat] by (simp add: push_bit_eq_mult unat_word_ariths unsigned_ucast_eq take_bit_eq_mod)
  moreover have "unat x < 256" "unat y < 256" using unsigned_less [of x, where 'a = nat] unsigned_less [of y, where 'a = nat] by simp_all
  ultimately show ?thesis by (simp add: unat_word_ariths unsigned_ucast_eq take_bit_eq_mod)
qed

lemma words_sum_bound: "words_sum d \<le> length d * 32768 + 32768"
proof (induction d rule: words_sum.induct)
  case (1 x y r)
  then show ?case using unsigned_less [of x, where 'a = nat] unsigned_less [of y, where 'a = nat] by simp
next
  case (2 x)
  then show ?case using unsigned_less [of x, where 'a = nat] by simp
qed simp

lemma unat_sum16: "unat s + words_sum d < 4294967296 \<Longrightarrow> unat (sum16 s d) = unat s + words_sum d"
proof (induction s d rule: sum16.induct)
  case (1 s x y r)
  have u: "unat (s + (push_bit 8 (ucast x) OR ucast y)) = unat s + (unat x * 256 + unat y)"
    using 1(2) by (simp add: unat_word_ariths word16_be)
  show ?case using 1(1) 1(2) unfolding u by (simp add: u)
next
  case (2 s x)
  have "unat (push_bit 8 (ucast x) :: u32) = unat x * 256" using word16_be [of x 0] by simp
  then show ?case using 2 by (simp add: unat_word_ariths)
qed simp

lemma words_sum_append: "even (length a) \<Longrightarrow> words_sum (a @ b) = words_sum a + words_sum b"
  by (induction a rule: words_sum.induct) auto

text \<open>Folding the carries is reduction modulo \<open>65535\<close> to the representatives \<open>1..65535\<close>.\<close>

definition ones_sum :: "nat \<Rightarrow> nat" where
  "ones_sum s = (if s = 0 then 0 else (s - 1) mod 65535 + 1)"

lemma ones_sum_bound: "ones_sum s \<le> 65535"
  by (simp add: ones_sum_def Suc_le_eq)

lemma ones_sum_step: "65536 \<le> s \<Longrightarrow> ones_sum (s mod 65536 + s div 65536) = ones_sum s"
proof -
  assume s: "65536 \<le> s"
  define q r where "q = s div 65536" and "r = s mod 65536"
  have e: "s = 65536 * q + r" and q: "0 < q" using s by (simp_all add: q_def r_def div_greater_zero_iff)
  have "s - 1 = 65535 * q + (r + q - 1)" using e q by simp
  then have "(s - 1) mod 65535 = (r + q - 1) mod 65535" by simp
  then show ?thesis using q s by (simp add: ones_sum_def q_def [symmetric] r_def [symmetric])
qed

lemma unat_fold_carry: "unat (fold_carry s) = ones_sum (unat s)"
proof (induction s rule: fold_carry.induct)
  case (1 s)
  show ?case
  proof (cases "drop_bit 16 s = 0")
    case True
    then have "unat s div 65536 = 0" using unat_fold_step(1) [of s] by simp
    then have "unat s < 65536" by (simp add: div_eq_0_iff)
    then show ?thesis using True by (subst fold_carry.simps) (auto simp: ones_sum_def)
  next
    case False
    then have "unat s div 65536 \<noteq> 0" using unat_fold_step(1) [of s] by (metis unat_eq_zero)
    then have "65536 \<le> unat s" by (simp add: div_eq_0_iff)
    then show ?thesis using False 1 ones_sum_step [of "unat s"] by (subst fold_carry.simps) (simp add: unat_fold_step(2))
  qed
qed

lemma ucast_not: "unat s \<le> 65535 \<Longrightarrow> unat (ucast (NOT s) :: u16) = 65535 - unat (s :: u32)"
proof -
  assume s: "unat s \<le> 65535"
  have "ucast (NOT s) = (NOT (ucast s) :: u16)" by (rule bit_word_eqI) (auto simp: bit_simps)
  also have "\<dots> = - 1 - ucast s" by (simp add: not_eq_complement)
  finally have "ucast (NOT s) = (- 1 - ucast s :: u16)" .
  moreover have "unat (ucast s :: u16) = unat s" using s by (simp add: unsigned_ucast_eq take_bit_eq_mod)
  ultimately show ?thesis by (simp add: unat_sub_if' word_le_nat_alt s unsigned_minus_1_eq_mask mask_eq_exp_minus_1)
qed

lemma unat_net_checksum2:
  "words_sum a + words_sum b < 4294967296 \<Longrightarrow> unat (net_checksum2 a b) = 65535 - ones_sum (words_sum a + words_sum b)"
  by (simp add: net_checksum2_def ucast_not unat_fold_carry ones_sum_bound unat_sum16)

lemma unat_net_checksum:
  "words_sum d < 4294967296 \<Longrightarrow> unat (net_checksum d) = 65535 - ones_sum (words_sum d)"
  by (simp add: net_checksum_def ucast_not unat_fold_carry ones_sum_bound unat_sum16)

lemma words_sum_st16: "words_sum (st16 (net_bswap16 c)) = unat c"
proof -
  have lo: "unat (ucast c :: u8) = unat c mod 256" by (simp add: unsigned_ucast_eq take_bit_eq_mod)
  have hi: "unat (ucast (drop_bit 8 c) :: u8) = unat c div 256"
    using unsigned_less [of c, where 'a = nat] by (simp add: unsigned_ucast_eq take_bit_eq_mod drop_bit_eq_div unat_div less_mult_imp_div_less)
  have "ucast (net_bswap16 c) = (ucast (drop_bit 8 c) :: u8)" "ucast (drop_bit 8 (net_bswap16 c)) = (ucast c :: u8)"
    by (rule bit_word_eqI; auto simp: net_bswap16_def bit_simps)+
  then show ?thesis by (simp add: st16_def lo hi)
qed

text \<open>The checksum written over a zero field makes the checksum of the whole vanish.\<close>

lemma ones_sum_complement: "ones_sum (s + (65535 - ones_sum s)) = 65535"
proof (cases "s = 0")
  case True
  then show ?thesis by (simp add: ones_sum_def)
next
  case False
  define k where "k = (s - 1) div 65535"
  have "s - 1 = 65535 * k + (s - 1) mod 65535" by (simp add: k_def)
  then have "s + (65535 - ones_sum s) = 65535 * k + 65535"
    using False ones_sum_bound [of s] unfolding ones_sum_def by (simp split: if_splits)
  moreover have "65535 * k + 65535 - 1 = 65535 * k + 65534" by simp
  ultimately show ?thesis by (simp add: ones_sum_def)
qed

lemma checksum_field:
  assumes "even (length a)" "even (length p)" and "words_sum p + words_sum (a @ st16 0 @ b) < 4294000000"
    and c: "c = net_checksum2 p (a @ st16 0 @ b)"
  shows "net_checksum2 p (a @ st16 (net_bswap16 c) @ b) = 0"
proof -
  let ?s = "words_sum p + words_sum (a @ st16 0 @ b)"
  have s: "?s = words_sum p + words_sum a + words_sum b" using assms(1) by (simp add: words_sum_append st16_def)
  have c': "unat c = 65535 - ones_sum ?s" unfolding c by (rule unat_net_checksum2) (use assms(3) in simp)
  then have e: "words_sum p + words_sum (a @ st16 (net_bswap16 c) @ b) = ?s + (65535 - ones_sum ?s)"
    using assms(1) s by (simp add: words_sum_append words_sum_st16)
  have "unat (net_checksum2 p (a @ st16 (net_bswap16 c) @ b)) = 65535 - ones_sum (?s + (65535 - ones_sum ?s))"
    unfolding e [symmetric] by (rule unat_net_checksum2) (use e assms(3) in linarith)
  then show ?thesis unfolding ones_sum_complement by (simp add: unat_eq_zero)
qed

lemma net_checksum_2: "net_checksum d = net_checksum2 [] d"
  by (simp add: net_checksum_def net_checksum2_def)

end
