(* ===== verification/NetDev.thy ===== *)
theory NetDev
  imports NetBase
begin

unbundle bit_operations_syntax

text \<open>
  Network devices and the address resolution cache: the device structure and its receive ring
  (\<open>netdev_enqueue_rx\<close> and the ring part of \<open>netdev_chr_read\<close>), the device list and the route lookup
  of \<open>src/net/core/netdev.c\<close>, and \<open>src/net/proto/arp.c\<close>.

  The state of the stack is one record: the devices by address and the order of the device list, the
  static variables of the protocol files, the clock, and the environment.  The environment is what the
  network drivers do: \<open>wire\<close> is the list of frames handed to a driver's \<open>send\<close>, \<open>drv_status\<close> the results
  it will return, and \<open>arrivals\<close> what each future round of polling brings.  The state of TCP and of the
  socket layer is the parameter \<open>upper\<close>.
\<close>

section \<open>The state\<close>

datatype netdev_send = loopback_send_fn | driver_send_fn

record netdev =
  dev_name :: string
  mac :: bytes
  link_up :: bool
  loopback :: bool
  ipv4_addr :: u32
  ipv4_gateway :: u32
  ipv4_netmask :: u32
  dhcp_server :: u32
  dns_server :: u32
  mtu :: u16
  dhcp_configured :: bool
  dev_send_op :: netdev_send
  rx_queue :: "nat \<Rightarrow> u8"
  rx_len :: "u16 list"
  rx_head :: nat
  rx_tail :: nat
  rx_count :: nat
  rx_dropped :: u64
  tx_packets :: u64
  rx_packets :: u64

record net_ping_result =
  pr_src_ip :: u32
  pr_seq :: u16
  pr_bytes :: u16
  pr_ttl :: u8
  pr_time_ms :: u64

record arp_cache_entry =
  ent_dev :: u64
  ent_ip :: u32
  ent_mac :: bytes
  expires_tick :: u64

datatype ipv4_receive_fn = udp_ipv4_receive_fn | icmp_ipv4_receive_fn | tcp_ipv4_receive_fn
datatype udp_receive_fn = dhcp_udp_receive_fn | dns_udp_receive_fn | socket_udp_receive_fn

record net_ipv4_protocol_ops =
  ops_addr :: u64
  protocol :: u8
  ops_name :: u64
  ops_receive :: ipv4_receive_fn

record net_udp_handler_ops =
  uops_addr :: u64
  uops_name :: u64
  uops_receive :: udp_receive_fn

text \<open>One round of a polling loop: the frames the drivers deliver, by device, and the clock after it.\<close>

record poll_round =
  delivered :: "(u64 \<times> bytes) list"
  clock_after :: u64

record 'u net =
  devs :: "u64 \<Rightarrow> netdev"
  netdevs :: "u64 list"
  default_netdev :: u64
  pit_ticks :: u64
  pit_hz :: u64
  arp_cache :: "arp_cache_entry list"
  arp_mac :: bytes
  arp_dev :: u64
  arp_ip :: u32
  arp_ready :: bool
  ipv4_protocols :: "net_ipv4_protocol_ops option list"
  udp_handlers :: "net_udp_handler_ops option list"
  net_proto_ready :: bool
  ping_ready :: bool
  ping_ident :: u16
  ping_seq :: u16
  ping_src :: u32
  ping_dev :: u64
  ping_started_tick :: u64
  ping_result :: net_ping_result
  dns_query_id :: u16
  dns_query_port :: u16
  dns_result_ip :: u32
  dns_dev :: u64
  dns_ready :: bool
  dhcp_xid :: u32
  dhcp_offered_ip :: u32
  dhcp_server_ip :: u32
  dhcp_netmask :: u32
  dhcp_gateway :: u32
  dhcp_dns_server :: u32
  dhcp_seen_type :: u8
  dhcp_ready :: bool
  wire :: "(u64 \<times> bytes) list"
  drv_status :: "errno option list"
  arrivals :: "poll_round list"
  upper :: 'u

definition empty_ping_result :: net_ping_result where
  "empty_ping_result = \<lparr>pr_src_ip = 0, pr_seq = 0, pr_bytes = 0, pr_ttl = 0, pr_time_ms = 0\<rparr>"

text \<open>The static variables before \<open>net_init\<close>, with an unused device structure everywhere and the given
  state of the layers above.\<close>

definition zero_dev :: netdev where
  "zero_dev = \<lparr>dev_name = [], mac = replicate 6 0, link_up = False, loopback = False, ipv4_addr = 0,
     ipv4_gateway = 0, ipv4_netmask = 0, dhcp_server = 0, dns_server = 0, mtu = 0, dhcp_configured = False,
     dev_send_op = driver_send_fn, rx_queue = (\<lambda>_. 0), rx_len = replicate 16 0, rx_head = 0, rx_tail = 0,
     rx_count = 0, rx_dropped = 0, tx_packets = 0, rx_packets = 0\<rparr>"

definition zero_net :: "'u \<Rightarrow> 'u net" where
  "zero_net u = \<lparr>devs = (\<lambda>_. zero_dev), netdevs = [], default_netdev = 0, pit_ticks = 0, pit_hz = 1000,
     arp_cache = replicate 32 \<lparr>ent_dev = 0, ent_ip = 0, ent_mac = replicate 6 0, expires_tick = 0\<rparr>,
     arp_mac = replicate 6 0, arp_dev = 0, arp_ip = 0, arp_ready = False,
     ipv4_protocols = replicate 8 None, udp_handlers = replicate 8 None, net_proto_ready = False,
     ping_ready = False, ping_ident = 0, ping_seq = 0, ping_src = 0, ping_dev = 0, ping_started_tick = 0,
     ping_result = empty_ping_result, dns_query_id = 0, dns_query_port = 0, dns_result_ip = 0, dns_dev = 0, dns_ready = False,
     dhcp_xid = 0, dhcp_offered_ip = 0, dhcp_server_ip = 0, dhcp_netmask = 0, dhcp_gateway = 0, dhcp_dns_server = 0,
     dhcp_seen_type = 0, dhcp_ready = False, wire = [], drv_status = [], arrivals = [], upper = u\<rparr>"

definition upd_dev :: "u64 \<Rightarrow> (netdev \<Rightarrow> netdev) \<Rightarrow> 'u net \<Rightarrow> 'u net" where
  "upd_dev d f st = st\<lparr>devs := (devs st)(d := f (devs st d))\<rparr>"

section \<open>The receive ring of a device\<close>

definition write_bytes :: "nat \<Rightarrow> bytes \<Rightarrow> (nat \<Rightarrow> u8) \<Rightarrow> nat \<Rightarrow> u8" where
  "write_bytes pos xs q = (\<lambda>i. if pos \<le> i \<and> i < pos + length xs then xs ! (i - pos) else q i)"

definition ring_put :: "bytes \<Rightarrow> netdev \<Rightarrow> netdev" where
  "ring_put frame d =
     (if rx_count d = NETDEV_RX_QUEUE_LEN then d\<lparr>rx_dropped := rx_dropped d + 1\<rparr>
      else let idx = rx_tail d
        in d\<lparr>rx_queue := write_bytes (idx * NET_ETH_FRAME_MAX) frame (rx_queue d),
             rx_len := (rx_len d)[idx := of_nat (length frame)],
             rx_tail := (idx + 1) mod NETDEV_RX_QUEUE_LEN,
             rx_count := rx_count d + 1,
             rx_packets := rx_packets d + 1\<rparr>)"

definition netdev_enqueue_rx :: "u64 \<Rightarrow> bytes \<Rightarrow> 'u net \<Rightarrow> 'u net" where
  "netdev_enqueue_rx dev frame st =
     (if dev = 0 \<or> length frame = 0 \<or> NET_ETH_FRAME_MAX < length frame then st
      else upd_dev dev (ring_put frame) st)"

text \<open>The ring part of \<open>netdev_chr_read\<close>, after the device was polled: the bytes read and the device, or
  an error when the caller's buffer is too small.\<close>

definition ring_get :: "nat \<Rightarrow> netdev \<Rightarrow> errno + bytes \<times> netdev" where
  "ring_get len d =
     (if rx_count d = 0 then Inr ([], d)
      else let idx = rx_head d; frame_len = unat (rx_len d ! idx)
        in if len < frame_len then Inl EINVAL
           else Inr (map (\<lambda>i. rx_queue d (idx * NET_ETH_FRAME_MAX + i)) [0..<frame_len],
              d\<lparr>rx_len := (rx_len d)[idx := 0], rx_head := (idx + 1) mod NETDEV_RX_QUEUE_LEN,
                rx_count := rx_count d - 1\<rparr>))"

section \<open>Device list and routes\<close>

definition net_first_dev :: "'u net \<Rightarrow> u64" where
  "net_first_dev st = (case netdevs st of [] \<Rightarrow> 0 | d # _ \<Rightarrow> d)"

definition net_default_dev :: "'u net \<Rightarrow> u64" where
  "net_default_dev st = (if default_netdev st \<noteq> 0 then default_netdev st else net_first_dev st)"

lemma top_bit_shift:
  fixes m :: u32
  assumes "m AND 0x80000000 \<noteq> 0"
  shows "unat (push_bit 1 m) < unat m"
proof -
  have e: "(0x80000000 :: u32) = 2 ^ 31" by simp
  have "bit m 31" using assms unfolding e by (simp only: and_exp_eq_0_iff_not_bit) simp
  then have "bit (unat m) 31" by (simp add: bit_unsigned_iff)
  then have "odd (unat m div 2 ^ 31)" unfolding bit_iff_odd .
  then have ge: "2147483648 \<le> unat m" by (cases "unat m < 2 ^ 31") simp_all
  have lt: "unat m < 4294967296" using unsigned_less [of m, where 'a = nat] by simp
  have "(2 * unat m) mod 4294967296 = (2 * unat m - 4294967296) mod 4294967296" using ge by (intro le_mod_geq) simp
  moreover have "unat (push_bit 1 m) = (2 * unat m) mod 4294967296" by (simp add: unat_word_ariths mult.commute)
  ultimately have "unat (push_bit 1 m) \<le> 2 * unat m - 4294967296" by simp
  then show ?thesis using ge lt by linarith
qed
function netmask_prefix_len :: "u32 \<Rightarrow> nat" where
  "netmask_prefix_len m = (if m AND 0x80000000 = 0 then 0 else netmask_prefix_len (push_bit 1 m) + 1)"
  by pat_completeness auto
termination
  by (relation "measure unat") (simp, unfold in_measure, rule top_bit_shift)

declare netmask_prefix_len.simps [simp del]

fun route_from :: "'u net \<Rightarrow> u32 \<Rightarrow> u64 list \<Rightarrow> u64 \<Rightarrow> nat \<Rightarrow> u64" where
  "route_from st dst_ip [] best best_prefix = best"
| "route_from st dst_ip (d # ds) best best_prefix =
     (let dev = devs st d in
      if ipv4_addr dev = 0 \<or> ipv4_netmask dev = 0 then route_from st dst_ip ds best best_prefix
      else if dst_ip AND ipv4_netmask dev \<noteq> ipv4_addr dev AND ipv4_netmask dev then route_from st dst_ip ds best best_prefix
      else let prefix = netmask_prefix_len (ipv4_netmask dev)
        in if best = 0 \<or> best_prefix < prefix then route_from st dst_ip ds d prefix
           else route_from st dst_ip ds best best_prefix)"

text \<open>\<open>net_route\<close>: the device and the next hop (both \<open>0\<close> when there is no device).\<close>

definition net_route :: "u32 \<Rightarrow> 'u net \<Rightarrow> u64 \<times> u32" where
  "net_route dst_ip st =
     (let best = route_from st dst_ip (netdevs st) 0 0 in
      if best \<noteq> 0 then (best, dst_ip)
      else let fallback = net_default_dev st
        in if fallback \<noteq> 0
           then (fallback, if ipv4_gateway (devs st fallback) \<noteq> 0 then ipv4_gateway (devs st fallback) else dst_ip)
           else (0, 0))"

definition net_default_ipv4 :: "'u net \<Rightarrow> u32" where
  "net_default_ipv4 st = (let d = net_default_dev st in if d \<noteq> 0 then ipv4_addr (devs st d) else 0)"

definition net_default_gateway :: "'u net \<Rightarrow> u32" where
  "net_default_gateway st = (let d = net_default_dev st in if d \<noteq> 0 then ipv4_gateway (devs st d) else 0)"

definition netdev_count :: "'u net \<Rightarrow> nat" where
  "netdev_count st = length (netdevs st)"

definition net_timeout_ticks :: "u64 \<Rightarrow> 'u net \<Rightarrow> u64" where
  "net_timeout_ticks timeout_ms st =
     (let t = (timeout_ms * pit_hz st + 999) div 1000 in if t \<noteq> 0 then t else 1)"

section \<open>Sending a frame\<close>

text \<open>Sending is relative to the reception \<open>rcv\<close> that a loopback device calls back.\<close>

type_synonym 'u receiver = "u64 \<Rightarrow> bytes \<Rightarrow> 'u net \<Rightarrow> 'u net option"
type_synonym 'u result = "((errno + unit) \<times> 'u net) option"

definition loopback_send :: "'u receiver \<Rightarrow> u64 \<Rightarrow> bytes \<Rightarrow> 'u net \<Rightarrow> 'u result" where
  "loopback_send rcv dev frame st =
     (if dev = 0 \<or> length frame = 0 \<or> NET_ETH_FRAME_MAX < length frame then Some (Inl EINVAL, st)
      else map_option (Pair (Inr ())) (rcv dev frame (upd_dev dev (\<lambda>d. d\<lparr>tx_packets := tx_packets d + 1\<rparr>) st)))"

definition driver_send :: "u64 \<Rightarrow> bytes \<Rightarrow> 'u net \<Rightarrow> (errno + unit) \<times> 'u net" where
  "driver_send dev frame st =
     (let st' = st\<lparr>wire := wire st @ [(dev, frame)], drv_status := tl (drv_status st)\<rparr>
      in case drv_status st of Some e # _ \<Rightarrow> (Inl e, st') | _ \<Rightarrow> (Inr (), st'))"

definition dev_send :: "'u receiver \<Rightarrow> u64 \<Rightarrow> bytes \<Rightarrow> 'u net \<Rightarrow> 'u result" where
  "dev_send rcv dev frame st =
     (case dev_send_op (devs st dev) of
        loopback_send_fn \<Rightarrow> loopback_send rcv dev frame st
      | driver_send_fn \<Rightarrow> Some (driver_send dev frame st))"

section \<open>Address resolution\<close>

abbreviation (input) ARP_CACHE_LEN :: nat where "ARP_CACHE_LEN \<equiv> 32"
abbreviation (input) ARP_CACHE_TTL_MS :: u64 where "ARP_CACHE_TTL_MS \<equiv> 60000"

definition arp_cache_lookup :: "u64 \<Rightarrow> u32 \<Rightarrow> 'u net \<Rightarrow> bytes option" where
  "arp_cache_lookup dev ip st =
     map_option ent_mac (find (\<lambda>e. \<not> (ent_dev e \<noteq> dev \<or> ent_ip e \<noteq> ip \<or> expires_tick e \<le> pit_ticks st)) (arp_cache st))"

fun arp_victim :: "u64 \<Rightarrow> u32 \<Rightarrow> u64 \<Rightarrow> nat \<Rightarrow> arp_cache_entry list \<Rightarrow> nat" where
  "arp_victim dev ip now i [] = 0"
| "arp_victim dev ip now i (e # es) =
     (if ent_dev e = dev \<and> ent_ip e = ip then i
      else if ent_dev e = 0 \<or> expires_tick e \<le> now then i
      else arp_victim dev ip now (i + 1) es)"

definition arp_cache_store :: "u64 \<Rightarrow> u32 \<Rightarrow> bytes \<Rightarrow> 'u net \<Rightarrow> 'u net" where
  "arp_cache_store dev ip m st =
     (let now = pit_ticks st; ttl = net_timeout_ticks ARP_CACHE_TTL_MS st;
          victim = arp_victim dev ip now 0 (arp_cache st)
      in st\<lparr>arp_cache := (arp_cache st)[victim := \<lparr>ent_dev = dev, ent_ip = ip, ent_mac = m, expires_tick = now + ttl\<rparr>]\<rparr>)"

definition arp_request :: "netdev \<Rightarrow> u32 \<Rightarrow> bytes" where
  "arp_request dev target_ip =
     eth_hdr (replicate NET_ETH_ALEN 0xff) (mac dev) (htons ETH_P_ARP)
     @ arp_bytes \<lparr>htype = htons 1, ptype = htons ETH_P_IP, hlen = 6, plen = 4, oper = htons 1, sha = mac dev,
         spa = htonl (ipv4_addr dev), tha = replicate NET_ETH_ALEN 0, tpa = htonl target_ip\<rparr>"

definition send_arp_request :: "'u receiver \<Rightarrow> u64 \<Rightarrow> u32 \<Rightarrow> 'u net \<Rightarrow> 'u result" where
  "send_arp_request rcv dev target_ip st = dev_send rcv dev (arp_request (devs st dev) target_ip) st"

definition net_arp_cache_count :: "u64 \<Rightarrow> 'u net \<Rightarrow> nat" where
  "net_arp_cache_count dev st = length (filter (\<lambda>e. ent_dev e = dev \<and> pit_ticks st < expires_tick e) (arp_cache st))"

definition net_arp_receive :: "u64 \<Rightarrow> bytes \<Rightarrow> 'u net \<Rightarrow> 'u net option" where
  "net_arp_receive dev arp st = do {
     op \<leftarrow> rd16 arp 6;
     if ntohs op \<noteq> 2 then Some st
     else do {
       sp \<leftarrow> rd32 arp 14;
       sh \<leftarrow> rd_block arp 8 NET_ETH_ALEN;
       let sender_ip = ntohl sp;
       let st = arp_cache_store dev sender_ip sh st;
       if dev = arp_dev st \<and> sender_ip = arp_ip st
       then Some (st\<lparr>arp_mac := sh, arp_ready := True\<rparr>)
       else Some st } }"

section \<open>The receive ring is a bounded queue\<close>

text \<open>A bounded queue: what a put and a get do to the sequence of items.\<close>

locale bounded_fifo =
  fixes put :: "'a \<Rightarrow> 's \<Rightarrow> 's" and get :: "'s \<Rightarrow> ('a \<times> 's) option" and items :: "'s \<Rightarrow> 'a list"
    and invar :: "'s \<Rightarrow> bool" and valid :: "'a \<Rightarrow> bool" and cap :: nat
  assumes put_items: "invar s \<Longrightarrow> valid x \<Longrightarrow> items (put x s) = (if length (items s) < cap then items s @ [x] else items s)"
    and put_invar: "invar s \<Longrightarrow> valid x \<Longrightarrow> invar (put x s)"
    and get_empty: "invar s \<Longrightarrow> items s = [] \<Longrightarrow> get s = None"
    and get_items: "invar s \<Longrightarrow> items s = x # xs \<Longrightarrow> \<exists>s'. get s = Some (x, s') \<and> items s' = xs \<and> invar s'"
begin

primrec get_many :: "nat \<Rightarrow> 's \<Rightarrow> 'a list \<times> 's" where
  "get_many 0 s = ([], s)"
| "get_many (Suc n) s = (case get s of None \<Rightarrow> ([], s) | Some (x, s') \<Rightarrow> let (xs, s'') = get_many n s' in (x # xs, s''))"

lemma put_all:
  "invar s \<Longrightarrow> \<forall>x \<in> set xs. valid x \<Longrightarrow>
    invar (fold put xs s) \<and> items (fold put xs s) = items s @ take (cap - length (items s)) xs"
proof (induction xs arbitrary: s)
  case (Cons x xs)
  then have "invar (fold put xs (put x s)) \<and> items (fold put xs (put x s)) = items (put x s) @ take (cap - length (items (put x s))) xs"
    by (simp add: put_invar)
  then show ?case using Cons by (cases "length (items s) < cap") (auto simp: put_items take_Cons')
qed simp

lemma get_many_items: "invar s \<Longrightarrow> fst (get_many n s) = take n (items s) \<and> items (snd (get_many n s)) = drop n (items s) \<and> invar (snd (get_many n s))"
proof (induction n arbitrary: s)
  case (Suc n)
  show ?case
  proof (cases "items s")
    case Nil
    then show ?thesis using Suc get_empty by simp
  next
    case (Cons x xs)
    then obtain s' where s': "get s = Some (x, s')" "items s' = xs" "invar s'" using get_items Suc by blast
    then show ?thesis using Suc(1) [of s'] Cons by (simp add: split_beta)
  qed
qed simp

text \<open>Items put in a burst come out in order; what does not fit is dropped.\<close>

lemma burst:
  assumes "invar s" "items s = []" "\<forall>x \<in> set xs. valid x" "length xs \<le> n"
  shows "fst (get_many n (fold put xs s)) = take cap xs"
proof -
  have "invar (fold put xs s)" "items (fold put xs s) = take cap xs" using put_all [OF assms(1,3)] assms(2) by simp_all
  then show ?thesis using get_many_items [of "fold put xs s" n] assms(4) by (auto simp: min_def)
qed

end

definition frame_at :: "netdev \<Rightarrow> nat \<Rightarrow> bytes" where
  "frame_at d i = map (\<lambda>j. rx_queue d (i * 1518 + j)) [0..<unat (rx_len d ! i)]"

definition ring_frames :: "netdev \<Rightarrow> bytes list" where
  "ring_frames d = map (\<lambda>k. frame_at d ((rx_head d + k) mod 16)) [0..<rx_count d]"

definition ring_ok :: "netdev \<Rightarrow> bool" where
  "ring_ok d \<longleftrightarrow> length (rx_len d) = 16 \<and> rx_head d < 16 \<and> rx_count d \<le> 16 \<and> rx_tail d = (rx_head d + rx_count d) mod 16
     \<and> (\<forall>k < rx_count d. 0 < unat (rx_len d ! ((rx_head d + k) mod 16)) \<and> unat (rx_len d ! ((rx_head d + k) mod 16)) \<le> 1518)"

definition frame_ok :: "bytes \<Rightarrow> bool" where
  "frame_ok f \<longleftrightarrow> 0 < length f \<and> length f \<le> 1518"

lemma slots_differ: "k < c \<Longrightarrow> c < 16 \<Longrightarrow> (h + k) mod 16 \<noteq> (h + c) mod (16 :: nat)"
  using mod_eq_dvd_iff_nat [of "h + k" "h + c" 16] by (auto dest!: dvd_imp_le)

lemma frame_at_put:
  assumes "i \<noteq> idx" "length f \<le> 1518" "unat (rx_len d ! i) \<le> 1518"
    "rx_queue d' = write_bytes (idx * 1518) f (rx_queue d)" "rx_len d' = (rx_len d)[idx := l]"
  shows "frame_at d' i = frame_at d i"
proof -
  have "\<not> (idx * 1518 \<le> i * 1518 + j \<and> i * 1518 + j < idx * 1518 + length f)" if "j < unat (rx_len d ! i)" for j
  proof (cases "i < idx")
    case True
    then have "i + 1 \<le> idx" by simp
    then have "(i + 1) * 1518 \<le> idx * 1518" by (rule mult_le_mono1)
    then show ?thesis using that assms(3) by simp
  next
    case False
    then have "idx + 1 \<le> i" using assms(1) by simp
    then have "(idx + 1) * 1518 \<le> i * 1518" by (rule mult_le_mono1)
    then show ?thesis using assms(2) by simp
  qed
  then show ?thesis using assms(1,4,5) by (auto simp: frame_at_def write_bytes_def)
qed

lemma ring_put_ok:
  assumes ok: "ring_ok d" and f: "frame_ok f"
  shows "ring_ok (ring_put f d) \<and> ring_frames (ring_put f d) = (if length (ring_frames d) < 16 then ring_frames d @ [f] else ring_frames d)"
proof (cases "rx_count d = 16")
  case True
  then show ?thesis using ok by (auto simp: ring_put_def ring_ok_def ring_frames_def frame_at_def)
next
  case False
  let ?i = "(rx_head d + rx_count d) mod 16" and ?d = "ring_put f d"
  have c: "rx_count d < 16" "length (rx_len d) = 16" using False ok by (simp_all add: ring_ok_def)
  have d: "rx_queue ?d = write_bytes (?i * 1518) f (rx_queue d)" "rx_len ?d = (rx_len d)[?i := of_nat (length f)]"
    "rx_head ?d = rx_head d" "rx_count ?d = rx_count d + 1" "rx_tail ?d = (?i + 1) mod 16"
    using False ok by (simp_all add: ring_put_def ring_ok_def Let_def)
  have l: "unat (of_nat (length f) :: u16) = length f" using f by (simp add: frame_ok_def unat_of_nat)
  have ne: "(rx_head d + k) mod 16 \<noteq> ?i" if "k < rx_count d" for k using slots_differ [OF that c(1)] .
  have len: "rx_len ?d ! ((rx_head d + k) mod 16) = (if k = rx_count d then of_nat (length f) else rx_len d ! ((rx_head d + k) mod 16))"
    if "k < rx_count d + 1" for k using that ne [of k] c(2) by (auto simp: d(2))
  have old: "frame_at ?d ((rx_head d + k) mod 16) = frame_at d ((rx_head d + k) mod 16)" if "k < rx_count d" for k
    by (rule frame_at_put [OF ne [OF that] _ _ d(1,2)]) (use that ok f in \<open>auto simp: ring_ok_def frame_ok_def\<close>)
  have new: "frame_at ?d ?i = f"
    using c(2) l by (intro nth_equalityI) (auto simp: frame_at_def d(1,2) write_bytes_def)
  have "ring_ok ?d"
    using ok c l f len unfolding ring_ok_def d(3-5) by (auto simp: d(2) mod_simps frame_ok_def)
  moreover have "ring_frames ?d = ring_frames d @ [f]" using old new unfolding ring_frames_def d(3,4) by simp
  ultimately show ?thesis using c(1) by (simp add: ring_frames_def)
qed

lemma ring_get_ok:
  assumes ok: "ring_ok d" and fs: "ring_frames d = f # fs"
  shows "if n < length f then ring_get n d = Inl EINVAL else \<exists>d'. ring_get n d = Inr (f, d') \<and> ring_ok d' \<and> ring_frames d' = fs"
proof -
  let ?h = "rx_head d" and ?l = "unat (rx_len d ! rx_head d)"
  have c: "0 < rx_count d" using fs by (cases "rx_count d") (simp_all add: ring_frames_def)
  have hd: "[0..<rx_count d] = 0 # [1..<rx_count d]" using c by (simp add: upt_conv_Cons)
  have h: "?h mod 16 = ?h" using ok by (simp add: ring_ok_def)
  have f: "f = frame_at d ?h" and tl': "fs = map (\<lambda>k. frame_at d ((?h + k) mod 16)) [1..<rx_count d]"
    using fs h unfolding ring_frames_def hd by simp_all
  have l: "length f = ?l" by (simp add: f frame_at_def)
  show ?thesis
  proof (cases "n < ?l")
    case False
    let ?d = "d\<lparr>rx_len := (rx_len d)[?h := 0], rx_head := (?h + 1) mod 16, rx_count := rx_count d - 1\<rparr>"
    have g: "ring_get n d = Inr (f, ?d)" using False c by (simp add: ring_get_def Let_def f frame_at_def)
    have idx: "((?h + 1) mod 16 + k) mod 16 = (?h + (k + 1)) mod 16" for k by (simp add: mod_simps add.assoc add.commute)
    have ne: "(?h + (k + 1)) mod 16 \<noteq> ?h" if "k < rx_count d - 1" for k
    proof -
      have "k + 1 < 16" using that ok unfolding ring_ok_def by linarith
      then show ?thesis using slots_differ [of 0 "k + 1" ?h] h by auto
    qed
    have fr: "frame_at ?d ((?h + (k + 1)) mod 16) = frame_at d ((?h + (k + 1)) mod 16)" if "k < rx_count d - 1" for k
      using ne [OF that] by (simp add: frame_at_def)
    have rl: "(rx_len d)[?h := 0] ! ((?h + (k + 1)) mod 16) = rx_len d ! ((?h + (k + 1)) mod 16)" if "k < rx_count d - 1" for k
      using ne [OF that] by simp
    have "ring_ok ?d"
    proof -
      have "0 < unat ((rx_len d)[?h := 0] ! (((?h + 1) mod 16 + k) mod 16)) \<and> unat ((rx_len d)[?h := 0] ! (((?h + 1) mod 16 + k) mod 16)) \<le> 1518"
        if "k < rx_count d - 1" for k
      proof -
        have "k + 1 < rx_count d" using that by simp
        then show ?thesis unfolding idx rl [OF that] using ok unfolding ring_ok_def by blast
      qed
      moreover have "rx_tail d = ((?h + 1) mod 16 + (rx_count d - 1)) mod 16" using ok c unfolding idx by (simp add: ring_ok_def)
      moreover have "rx_count d - 1 \<le> 16" using ok unfolding ring_ok_def by linarith
      ultimately show ?thesis using ok by (simp add: ring_ok_def)
    qed
    moreover have "ring_frames ?d = fs"
    proof -
      have "[1..<rx_count d] = map (\<lambda>k. k + 1) [0..<rx_count d - 1]" using c map_Suc_upt [of 0 "rx_count d - 1"] by simp
      then have "fs = map (\<lambda>k. frame_at d ((?h + (k + 1)) mod 16)) [0..<rx_count d - 1]" unfolding tl' by simp
      then show ?thesis using fr idx by (simp add: ring_frames_def)
    qed
    ultimately show ?thesis using g False l by simp
  qed (use c l in \<open>simp add: ring_get_def Let_def\<close>)
qed

text \<open>Reading with a buffer that takes any frame; an empty ring gives no frame.\<close>

definition ring_read :: "netdev \<Rightarrow> (bytes \<times> netdev) option" where
  "ring_read d = (case ring_get NET_ETH_FRAME_MAX d of Inr (f, d') \<Rightarrow> if f = [] then None else Some (f, d') | Inl _ \<Rightarrow> None)"

lemma ring_frames_ok: "ring_ok d \<Longrightarrow> f \<in> set (ring_frames d) \<Longrightarrow> frame_ok f"
  by (auto simp: ring_ok_def ring_frames_def frame_ok_def frame_at_def)

lemma ring_frames_empty: "ring_frames d = [] \<longleftrightarrow> rx_count d = 0"
  by (simp add: ring_frames_def)

interpretation rx_ring: bounded_fifo ring_put ring_read ring_frames ring_ok frame_ok 16
proof unfold_locales
  fix s x
  assume "ring_ok s" "frame_ok x"
  then show "ring_frames (ring_put x s) = (if length (ring_frames s) < 16 then ring_frames s @ [x] else ring_frames s)"
    "ring_ok (ring_put x s)" using ring_put_ok by blast+
next
  fix s
  assume "ring_ok s" "ring_frames s = []"
  then show "ring_read s = None" by (simp add: ring_read_def ring_get_def ring_frames_empty)
next
  fix s x xs
  assume s: "ring_ok s" "ring_frames s = x # xs"
  then have "frame_ok x" using ring_frames_ok [of s x] by simp
  then show "\<exists>s'. ring_read s = Some (x, s') \<and> ring_frames s' = xs \<and> ring_ok s'"
    using ring_get_ok [OF s, of 1518] by (auto simp: ring_read_def frame_ok_def)
qed

text \<open>C26.  The receive ring of a device, a flat byte array with a head, a tail and a count, behaves as a queue of at most
  16 frames: a frame is appended unless the queue is full, and a read removes the oldest frame byte for byte, fails
  without effect when the buffer is too small for it, and returns nothing from an empty ring.\<close>

theorem ring_refines_queue:
  assumes "ring_ok d"
  shows "(0 < length f \<longrightarrow> length f \<le> NET_ETH_FRAME_MAX \<longrightarrow> ring_ok (ring_put f d)
      \<and> ring_frames (ring_put f d) = (if length (ring_frames d) < NETDEV_RX_QUEUE_LEN then ring_frames d @ [f] else ring_frames d))
    \<and> (case ring_frames d of
         [] \<Rightarrow> ring_get n d = Inr ([], d)
       | g # gs \<Rightarrow> if n < length g then ring_get n d = Inl EINVAL
                   else \<exists>d'. ring_get n d = Inr (g, d') \<and> ring_ok d' \<and> ring_frames d' = gs)"
  using ring_put_ok [OF assms, of f] ring_get_ok [OF assms, of _ _ n] ring_frames_empty [of d]
  by (auto simp: frame_ok_def ring_get_def split: list.split)

theorem ring_refines_queue_witness:
  "\<exists>d'. ring_get 64 (ring_put [1, 2, 3] (zero_dev\<lparr>rx_head := 15, rx_tail := 15\<rparr>)) = Inr ([1, 2, 3], d')"
proof -
  let ?d = "(zero_dev\<lparr>rx_head := 15, rx_tail := 15\<rparr>)"
  have d: "ring_ok ?d" "ring_frames ?d = []" by (simp_all add: ring_ok_def ring_frames_def zero_dev_def)
  then have "ring_ok (ring_put [1, 2, 3] ?d)" "ring_frames (ring_put [1, 2, 3] ?d) = [[1, 2, 3]]"
    using ring_refines_queue [OF d(1), of "[1, 2, 3]"] by simp_all
  then show ?thesis using ring_refines_queue [of "ring_put [1, 2, 3] ?d" "[]" 64] by auto
qed

text \<open>A burst of frames on an idle device is read back in order of arrival, the first 16 of them; reading goes on
  until the ring is empty.\<close>

theorem ring_burst_in_order:
  assumes "ring_ok d" "rx_count d = 0" "\<forall>f \<in> set fs. 0 < length f \<and> length f \<le> NET_ETH_FRAME_MAX" "length fs \<le> n"
  shows "fst (rx_ring.get_many n (fold ring_put fs d)) = take NETDEV_RX_QUEUE_LEN fs"
  by (rule rx_ring.burst) (use assms in \<open>auto simp: ring_frames_empty frame_ok_def\<close>)

theorem ring_burst_in_order_witness:
  "fst (rx_ring.get_many 3 (fold ring_put [[1], [2, 3]] (zero_dev\<lparr>rx_head := 15, rx_tail := 15\<rparr>))) = [[1], [2, 3]]"
proof -
  have "fst (rx_ring.get_many 3 (fold ring_put [[1], [2, 3]] (zero_dev\<lparr>rx_head := 15, rx_tail := 15\<rparr>))) = take 16 [[1], [2, 3]]"
    by (rule ring_burst_in_order) (simp_all add: ring_ok_def zero_dev_def)
  then show ?thesis by simp
qed

section \<open>Routes\<close>

definition on_link :: "'u net \<Rightarrow> u32 \<Rightarrow> u64 \<Rightarrow> bool" where
  "on_link st dst_ip d \<longleftrightarrow> ipv4_addr (devs st d) \<noteq> 0 \<and> ipv4_netmask (devs st d) \<noteq> 0
     \<and> dst_ip AND ipv4_netmask (devs st d) = ipv4_addr (devs st d) AND ipv4_netmask (devs st d)"

abbreviation (input) prefix_of :: "'u net \<Rightarrow> u64 \<Rightarrow> nat" where
  "prefix_of st d \<equiv> netmask_prefix_len (ipv4_netmask (devs st d))"

lemma route_from_best:
  assumes "0 \<notin> set ds" "best \<noteq> 0 \<Longrightarrow> bp = prefix_of st best"
  shows "let r = route_from st dst ds best bp in
     (r = best \<or> r \<in> set ds \<and> on_link st dst r) \<and> (\<forall>d \<in> set ds. on_link st dst d \<longrightarrow> r \<noteq> 0 \<and> prefix_of st d \<le> prefix_of st r)
     \<and> (best \<noteq> 0 \<longrightarrow> r \<noteq> 0 \<and> bp \<le> prefix_of st r)"
  using assms
proof (induction ds arbitrary: best bp)
  case (Cons d ds)
  let ?p = "prefix_of st d"
  show ?case
  proof (cases "on_link st dst d \<and> (best = 0 \<or> bp < ?p)")
    case True
    then have "route_from st dst (d # ds) best bp = route_from st dst ds d ?p" by (auto simp: on_link_def Let_def)
    then show ?thesis using Cons(1) [of d ?p] Cons(2,3) True by (auto simp: Let_def)
  next
    case False
    then have "route_from st dst (d # ds) best bp = route_from st dst ds best bp" by (auto simp: on_link_def Let_def)
    then show ?thesis using Cons(1) [of best bp] Cons(2,3) False by (auto simp: Let_def)
  qed
qed (simp add: Let_def)

text \<open>\<open>net_route\<close> picks the longest matching prefix: if some device is on the destination's network, the result is
  such a device with the longest network prefix and the next hop is the destination itself; otherwise it is the
  default device with its gateway, or no device at all.\<close>

theorem net_route_longest_prefix:
  assumes "0 \<notin> set (netdevs st)"
  shows "if \<exists>d \<in> set (netdevs st). on_link st dst_ip d
    then \<exists>d \<in> set (netdevs st). net_route dst_ip st = (d, dst_ip) \<and> on_link st dst_ip d
      \<and> (\<forall>d' \<in> set (netdevs st). on_link st dst_ip d' \<longrightarrow> prefix_of st d' \<le> prefix_of st d)
    else net_route dst_ip st = (let d = net_default_dev st; gw = ipv4_gateway (devs st d)
      in if d = 0 then (0, 0) else (d, if gw = 0 then dst_ip else gw))"
proof -
  let ?r = "route_from st dst_ip (netdevs st) 0 0"
  have r: "?r = 0 \<or> ?r \<in> set (netdevs st) \<and> on_link st dst_ip ?r"
    "\<forall>d \<in> set (netdevs st). on_link st dst_ip d \<longrightarrow> ?r \<noteq> 0 \<and> prefix_of st d \<le> prefix_of st ?r"
    using route_from_best [OF assms, of 0 0 st dst_ip] by (simp_all add: Let_def)
  show ?thesis
  proof (cases "\<exists>d \<in> set (netdevs st). on_link st dst_ip d")
    case True
    then have "?r \<noteq> 0" using r(2) by blast
    then show ?thesis using True r by (auto simp: net_route_def Let_def)
  next
    case False
    then have "?r = 0" using r(1) by blast
    then show ?thesis using False by (simp add: net_route_def Let_def)
  qed
qed

theorem net_route_longest_prefix_witness:
  "let st = (zero_net ())\<lparr>devs := (\<lambda>_. zero_dev)(1 := zero_dev\<lparr>ipv4_addr := 0x7f000001, ipv4_netmask := 0xff000000\<rparr>,
        2 := zero_dev\<lparr>ipv4_addr := 0x0a00020f, ipv4_netmask := 0xffffff00, ipv4_gateway := 0x0a000202\<rparr>),
        netdevs := [1, 2], default_netdev := 2\<rparr>
   in net_route 0x7f000005 st = (1, 0x7f000005) \<and> net_route 0x08080808 st = (2, 0x0a000202)"
proof -
  let ?st = "(zero_net ())\<lparr>devs := (\<lambda>_. zero_dev)(1 := zero_dev\<lparr>ipv4_addr := 0x7f000001, ipv4_netmask := 0xff000000\<rparr>,
        2 := zero_dev\<lparr>ipv4_addr := 0x0a00020f, ipv4_netmask := 0xffffff00, ipv4_gateway := 0x0a000202\<rparr>),
        netdevs := [1, 2], default_netdev := 2\<rparr>"
  have "net_route 0x7f000005 ?st = (1, 0x7f000005)"
    using net_route_longest_prefix [of ?st "0x7f000005"] by (simp add: on_link_def)
  moreover have "net_route 0x08080808 ?st = (2, 0x0a000202)"
    using net_route_longest_prefix [of ?st "0x08080808"] by (simp add: on_link_def net_default_dev_def)
  ultimately show ?thesis by (simp only: Let_def)
qed

section \<open>The address resolution cache\<close>

abbreviation (input) live_entry :: "u64 \<Rightarrow> u32 \<Rightarrow> u64 \<Rightarrow> arp_cache_entry \<Rightarrow> bool" where
  "live_entry dev ip now e \<equiv> \<not> (ent_dev e \<noteq> dev \<or> ent_ip e \<noteq> ip \<or> expires_tick e \<le> now)"

lemma arp_victim_shift: "arp_victim dev ip now (Suc i) es = (let v = arp_victim dev ip now i es in
    if \<exists>e \<in> set es. ent_dev e = dev \<and> ent_ip e = ip \<or> ent_dev e = 0 \<or> expires_tick e \<le> now then Suc v else 0)"
  by (induction es arbitrary: i) (auto simp: Let_def)

lemma find_at_victim:
  assumes "es \<noteq> []" "live_entry dev ip now new"
  shows "find (live_entry dev ip now) (es[arp_victim dev ip now 0 es := new]) = Some new"
proof -
  have found: "find (live_entry dev ip now) (es[arp_victim dev ip now 0 es := new]) = Some new"
    if "\<exists>e \<in> set es. ent_dev e = dev \<and> ent_ip e = ip \<or> ent_dev e = 0 \<or> expires_tick e \<le> now" for es
    using that
  proof (induction es)
    case (Cons e es)
    show ?case
    proof (cases "ent_dev e = dev \<and> ent_ip e = ip \<or> ent_dev e = 0 \<or> expires_tick e \<le> now")
      case True
      then show ?thesis using assms(2) by auto
    next
      case False
      then show ?thesis using Cons by (auto simp: arp_victim_shift Let_def)
    qed
  qed simp
  have zero: "arp_victim dev ip now 0 es = 0"
    if "\<not> (\<exists>e \<in> set es. ent_dev e = dev \<and> ent_ip e = ip \<or> ent_dev e = 0 \<or> expires_tick e \<le> now)" for es
    using that by (induction es) (auto simp: arp_victim_shift Let_def)
  show ?thesis
  proof (cases "\<exists>e \<in> set es. ent_dev e = dev \<and> ent_ip e = ip \<or> ent_dev e = 0 \<or> expires_tick e \<le> now")
    case False
    obtain e es' where es: "es = e # es'" using assms(1) by (cases es) auto
    show ?thesis unfolding zero [OF False] using assms(2) unfolding es by simp
  qed (rule found)
qed

text \<open>A stored address is the one that is found: right after \<open>arp_cache_store\<close> the lookup of the same device and
  address returns the stored hardware address, whatever the cache held, unless the expiry time wraps.\<close>

theorem arp_lookup_after_store:
  assumes "arp_cache st \<noteq> []" "pit_ticks st < pit_ticks st + net_timeout_ticks ARP_CACHE_TTL_MS st"
  shows "arp_cache_lookup dev ip (arp_cache_store dev ip m st) = Some m"
  using find_at_victim [OF assms(1), where dev = dev and ip = ip and now = "pit_ticks st" and new = "\<lparr>ent_dev = dev, ent_ip = ip, ent_mac = m,
      expires_tick = pit_ticks st + net_timeout_ticks ARP_CACHE_TTL_MS st\<rparr>"] assms(2)
  by (simp add: arp_cache_lookup_def arp_cache_store_def Let_def not_le)

theorem arp_lookup_after_store_witness:
  "arp_cache_lookup 1 0x0a000202 (arp_cache_store 1 0x0a000202 [2, 0, 0, 0, 0, 9] (zero_net ())) = Some [2, 0, 0, 0, 0, 9]"
  by (rule arp_lookup_after_store) (simp_all add: zero_net_def net_timeout_ticks_def)

text \<open>The cache does not forget the previous entry of an address.  An entry that expired in a lower slot takes the
  new address of a host while its older entry stays alive behind it; when the full cache then gives the lower slot to
  another host, the lookup returns the superseded hardware address.\<close>

theorem arp_superseded_address_returns:
  "let store = (\<lambda>(t, ip, m) st. arp_cache_store 1 ip m (st\<lparr>pit_ticks := t\<rparr>));
       fill = (0, 1, [1]) # (1, 2, [0xaa]) # map (\<lambda>i. (1, of_nat (10 + i), [0])) [0..<30];
       st = fold store (fill @ [(60000, 2, [0xbb])]) (zero_net ())
   in arp_cache_lookup 1 2 st = Some [0xbb] \<and> arp_cache_lookup 1 2 (store (60000, 3, [3]) st) = Some [0xaa]"
  by code_simp

end
