(* ===== verification/NetProto.thy ===== *)
theory NetProto
  imports NetDev
begin

unbundle bit_operations_syntax

text \<open>
  The protocols over IPv4: the registration tables (\<open>src/net/proto/proto.c\<close>), the frames the stack
  builds (\<open>ipv4.c\<close>, \<open>udp.c\<close>, \<open>icmp.c\<close>) and what UDP and ICMP do with a received packet.  Whatever sends
  a frame takes the reception \<open>rcv\<close> it falls back to for a local destination.
\<close>

section \<open>Received packets\<close>

text \<open>\<open>rx_ip\<close> are the bytes of the frame from the IPv4 header on.\<close>

record net_ipv4_rx_info =
  rx_dev :: u64
  rx_src_mac :: bytes
  rx_ip :: bytes
  rx_ihl :: nat
  rx_ip_len :: nat

text \<open>\<open>payload\<close> are the \<open>payload_len\<close> bytes after the UDP header.\<close>

record net_udp_dgram =
  dg_ipv4 :: net_ipv4_rx_info
  payload :: bytes
  udp_len :: nat
  payload_len :: nat
  dg_src_ip :: u32
  dg_dst_ip :: u32
  dg_src_port :: u16
  dg_dst_port :: u16

type_synonym 'u handled = "(rc \<times> 'u net) option"

text \<open>The layers above: TCP, the UDP sockets and the raw ICMP sockets.\<close>

record 'u hooks =
  tcp_receive :: "net_ipv4_rx_info \<Rightarrow> 'u net \<Rightarrow> 'u handled"
  socket_udp_receive :: "net_udp_dgram \<Rightarrow> 'u net \<Rightarrow> 'u handled"
  raw_icmp_receive :: "net_ipv4_rx_info \<Rightarrow> 'u net \<Rightarrow> 'u net option"

section \<open>Registration tables\<close>

text \<open>\<open>register_ops\<close>: \<open>same\<close> holds of an occupied slot that has the pointer or the key of the new entry.\<close>

fun free_slot :: "'a option list \<Rightarrow> nat option" where
  "free_slot [] = None"
| "free_slot (None # ss) = Some 0"
| "free_slot (Some x # ss) = map_option Suc (free_slot ss)"

definition register_ops :: "('a \<Rightarrow> bool) \<Rightarrow> 'a \<Rightarrow> 'a option list \<Rightarrow> errno + 'a option list" where
  "register_ops same ops slots =
     (if \<exists>s \<in> set slots. case s of Some cur \<Rightarrow> same cur | None \<Rightarrow> False then Inl EEXIST
      else case free_slot slots of Some i \<Rightarrow> Inr (slots[i := Some ops]) | None \<Rightarrow> Inl ENOMEM)"

definition net_ipv4_register_protocol :: "net_ipv4_protocol_ops \<Rightarrow> 'u net \<Rightarrow> (errno + unit) \<times> 'u net" where
  "net_ipv4_register_protocol ops st =
     (if ops_addr ops = 0 \<or> ops_name ops = 0 \<or> protocol ops = 0 then (Inl EINVAL, st)
      else case register_ops (\<lambda>cur. ops_addr cur = ops_addr ops \<or> protocol cur = protocol ops) ops (ipv4_protocols st) of
        Inl e \<Rightarrow> (Inl e, st)
      | Inr slots \<Rightarrow> (Inr (), st\<lparr>ipv4_protocols := slots\<rparr>))"

definition net_udp_register_handler :: "net_udp_handler_ops \<Rightarrow> 'u net \<Rightarrow> (errno + unit) \<times> 'u net" where
  "net_udp_register_handler ops st =
     (if uops_addr ops = 0 \<or> uops_name ops = 0 then (Inl EINVAL, st)
      else case register_ops (\<lambda>cur. uops_addr cur = uops_addr ops) ops (udp_handlers st) of
        Inl e \<Rightarrow> (Inl e, st)
      | Inr slots \<Rightarrow> (Inr (), st\<lparr>udp_handlers := slots\<rparr>))"

section \<open>Building and sending packets\<close>

text \<open>The IPv4 header every sender writes: \<open>memset\<close>, the fields, then the checksum over the header with a
  zero checksum field.\<close>

definition ipv4_header :: "nat \<Rightarrow> u16 \<Rightarrow> u8 \<Rightarrow> u32 \<Rightarrow> u32 \<Rightarrow> bytes" where
  "ipv4_header ip_len ident proto src dst =
     (let h = \<lparr>ver_ihl = 0x45, tos = 0, total_len = htons (of_nat ip_len), ip_id = htons ident, frag_off = 0,
               ip_ttl = 64, ip_proto = proto, ip_checksum = 0, ip_src = htonl src, ip_dst = htonl dst\<rparr>
      in ipv4_bytes (h\<lparr>ip_checksum := htons (net_checksum (ipv4_bytes h))\<rparr>))"

text \<open>The end of every sender: a packet to the device's own address is received at once.\<close>

definition send_or_deliver :: "'u receiver \<Rightarrow> u64 \<Rightarrow> u32 \<Rightarrow> bytes \<Rightarrow> 'u net \<Rightarrow> 'u result" where
  "send_or_deliver rcv dev dst_ip frame st =
     (if dst_ip = ipv4_addr (devs st dev)
      then map_option (Pair (Inr ())) (rcv dev frame (upd_dev dev (\<lambda>d. d\<lparr>tx_packets := tx_packets d + 1\<rparr>) st))
      else dev_send rcv dev frame st)"

definition udp_frame :: "netdev \<Rightarrow> bytes \<Rightarrow> u32 \<Rightarrow> u32 \<Rightarrow> u16 \<Rightarrow> u16 \<Rightarrow> bytes \<Rightarrow> bytes" where
  "udp_frame dev dst_mac src_ip dst_ip src_port dst_port data =
     (let ulen = sizeof_udp + length data; ip_len = sizeof_ipv4 + ulen
      in eth_hdr dst_mac (mac dev) (htons ETH_P_IP)
         @ ipv4_header ip_len 0x4448 IP_PROTO_UDP src_ip dst_ip
         @ udp_bytes \<lparr>udp_src_port = htons src_port, udp_dst_port = htons dst_port, udp_hlen = htons (of_nat ulen),
             udp_checksum = 0\<rparr>
         @ data)"

definition net_send_ipv4_udp :: "'u receiver \<Rightarrow> u64 \<Rightarrow> bytes \<Rightarrow> u32 \<Rightarrow> u32 \<Rightarrow> u16 \<Rightarrow> u16 \<Rightarrow> bytes \<Rightarrow> 'u net \<Rightarrow> 'u result" where
  "net_send_ipv4_udp rcv dev dst_mac src_ip dst_ip src_port dst_port data st =
     (if dev = 0 \<or> 1400 < length data then Some (Inl EINVAL, st)
      else if NET_ETH_FRAME_MAX < sizeof_eth + sizeof_ipv4 + sizeof_udp + length data then Some (Inl EINVAL, st)
      else send_or_deliver rcv dev dst_ip (udp_frame (devs st dev) dst_mac src_ip dst_ip src_port dst_port data) st)"

text \<open>Raw ICMP: bytes 2 and 3 of the payload are replaced by the checksum.\<close>

definition icmp_body :: "bytes \<Rightarrow> bytes" where
  "icmp_body data =
     (if 4 \<le> length data
      then let b = data[2 := 0, 3 := 0]; c = st16 (htons (net_checksum b)) in b[2 := c ! 0, 3 := c ! 1]
      else data)"

definition net_send_ipv4_icmp :: "'u receiver \<Rightarrow> u64 \<Rightarrow> bytes \<Rightarrow> u32 \<Rightarrow> u32 \<Rightarrow> bytes \<Rightarrow> 'u net \<Rightarrow> 'u result" where
  "net_send_ipv4_icmp rcv dev dst_mac src_ip dst_ip data st =
     (if dev = 0 \<or> 1400 < length data then Some (Inl EINVAL, st)
      else let ip_len = sizeof_ipv4 + length data
        in if NET_ETH_FRAME_MAX < sizeof_eth + ip_len then Some (Inl EINVAL, st)
           else send_or_deliver rcv dev dst_ip
             (eth_hdr dst_mac (mac (devs st dev)) (htons ETH_P_IP)
              @ ipv4_header ip_len 0x4943 IP_PROTO_ICMP src_ip dst_ip @ icmp_body data) st)"

abbreviation (input) TCP_FIN :: u8 where "TCP_FIN \<equiv> 0x01"
abbreviation (input) TCP_SYN :: u8 where "TCP_SYN \<equiv> 0x02"
abbreviation (input) TCP_PSH :: u8 where "TCP_PSH \<equiv> 0x08"
abbreviation (input) TCP_ACK :: u8 where "TCP_ACK \<equiv> 0x10"
abbreviation (input) TCP_WINDOW :: u16 where "TCP_WINDOW \<equiv> 65535"

record tcp_opts =
  include_mss :: bool
  include_wscale :: bool
  wscale :: u8
  include_sack_permitted :: bool

definition tcp_opt_len :: "u8 \<Rightarrow> tcp_opts \<Rightarrow> nat" where
  "tcp_opt_len fl opts =
     (if fl AND TCP_SYN \<noteq> 0
      then let n = (if include_mss opts then 4 else 0) + (if include_sack_permitted opts then 2 else 0)
                 + (if include_wscale opts then 4 else 0)
        in if n mod 4 \<noteq> 0 then (n + 3) div 4 * 4 else n
      else 0)"

definition tcp_opt_bytes :: "u8 \<Rightarrow> tcp_opts \<Rightarrow> bytes" where
  "tcp_opt_bytes fl opts =
     (let n = tcp_opt_len fl opts in
      if n = 0 then []
      else let bs = (if include_mss opts then [2, 4, 0x05, 0xb4] else [])
               @ (if include_sack_permitted opts then [4, 2] else [])
               @ (if include_wscale opts then [1, 3, 3, if 14 < wscale opts then 14 else wscale opts] else [])
        in bs @ replicate (n - length bs) 0)"

definition tcp_segment :: "netdev \<Rightarrow> u32 \<Rightarrow> u16 \<Rightarrow> u16 \<Rightarrow> u32 \<Rightarrow> u32 \<Rightarrow> u8 \<Rightarrow> u16 \<Rightarrow> tcp_opts \<Rightarrow> bytes \<Rightarrow> bytes" where
  "tcp_segment dev dst_ip src_port dst_port sq ak fl win opts data =
     (let hl = sizeof_tcp + tcp_opt_len fl opts; tcp_len = hl + length data;
          h = \<lparr>tcp_src_port = htons src_port, tcp_dst_port = htons dst_port, tcp_seq = htonl sq, tcp_ack = htonl ak,
               data_off = push_bit 4 (of_nat (hl div 4)), tcp_flags = fl, window = htons win, tcp_checksum = 0, urgent = 0\<rparr>;
          rest = tcp_opt_bytes fl opts @ data;
          pseudo = pseudo_bytes (htonl (ipv4_addr dev)) (htonl dst_ip) 0 IP_PROTO_TCP (htons (of_nat tcp_len))
      in tcp_bytes (h\<lparr>tcp_checksum := htons (net_checksum2 pseudo (tcp_bytes h @ rest))\<rparr>) @ rest)"

definition net_send_ipv4_tcp_window_opts ::
    "'u receiver \<Rightarrow> u64 \<Rightarrow> bytes \<Rightarrow> u32 \<Rightarrow> u16 \<Rightarrow> u16 \<Rightarrow> u32 \<Rightarrow> u32 \<Rightarrow> u8 \<Rightarrow> u16 \<Rightarrow> tcp_opts \<Rightarrow> bytes \<Rightarrow> 'u net \<Rightarrow> 'u result" where
  "net_send_ipv4_tcp_window_opts rcv dev dst_mac dst_ip src_port dst_port sq ak fl win opts data st =
     (if dev = 0 \<or> 1400 < length data then Some (Inl EINVAL, st)
      else let tcp_len = sizeof_tcp + tcp_opt_len fl opts + length data; ip_len = sizeof_ipv4 + tcp_len
        in if NET_ETH_FRAME_MAX < sizeof_eth + ip_len then Some (Inl EINVAL, st)
           else send_or_deliver rcv dev dst_ip
             (eth_hdr dst_mac (mac (devs st dev)) (htons ETH_P_IP)
              @ ipv4_header ip_len 0x5443 IP_PROTO_TCP (ipv4_addr (devs st dev)) dst_ip
              @ tcp_segment (devs st dev) dst_ip src_port dst_port sq ak fl win opts data) st)"

definition net_send_ipv4_tcp_window ::
    "'u receiver \<Rightarrow> u64 \<Rightarrow> bytes \<Rightarrow> u32 \<Rightarrow> u16 \<Rightarrow> u16 \<Rightarrow> u32 \<Rightarrow> u32 \<Rightarrow> u8 \<Rightarrow> u16 \<Rightarrow> bytes \<Rightarrow> 'u net \<Rightarrow> 'u result" where
  "net_send_ipv4_tcp_window rcv dev dst_mac dst_ip src_port dst_port sq ak fl win data st =
     net_send_ipv4_tcp_window_opts rcv dev dst_mac dst_ip src_port dst_port sq ak fl win
       \<lparr>include_mss = (fl AND TCP_SYN \<noteq> 0), include_wscale = False, wscale = 0, include_sack_permitted = False\<rparr> data st"

definition net_send_ipv4_tcp ::
    "'u receiver \<Rightarrow> u64 \<Rightarrow> bytes \<Rightarrow> u32 \<Rightarrow> u16 \<Rightarrow> u16 \<Rightarrow> u32 \<Rightarrow> u32 \<Rightarrow> u8 \<Rightarrow> bytes \<Rightarrow> 'u net \<Rightarrow> 'u result" where
  "net_send_ipv4_tcp rcv dev dst_mac dst_ip src_port dst_port sq ak fl data st =
     net_send_ipv4_tcp_window_opts rcv dev dst_mac dst_ip src_port dst_port sq ak fl TCP_WINDOW
       \<lparr>include_mss = (fl AND TCP_SYN \<noteq> 0), include_wscale = False, wscale = 0, include_sack_permitted = False\<rparr> data st"

section \<open>UDP reception\<close>

definition udp_ipv4_receive :: "(net_udp_dgram \<Rightarrow> 'u net \<Rightarrow> 'u handled) \<Rightarrow> net_ipv4_rx_info \<Rightarrow> 'u net \<Rightarrow> 'u handled" where
  "udp_ipv4_receive deliver rx st =
     (if rx_ip_len rx < rx_ihl rx + sizeof_udp then Some (Inl EINVAL, st)
      else do {
        let udp = drop (rx_ihl rx) (rx_ip rx);
        l \<leftarrow> rd16 udp 4;
        let ulen = unat (ntohs l);
        if ulen < sizeof_udp \<or> rx_ip_len rx < rx_ihl rx + ulen then Some (Inl EINVAL, st)
        else do {
          body \<leftarrow> rd_block udp sizeof_udp (ulen - sizeof_udp);
          si \<leftarrow> rd32 (rx_ip rx) 12;
          di \<leftarrow> rd32 (rx_ip rx) 16;
          sp \<leftarrow> rd16 udp 0;
          dp \<leftarrow> rd16 udp 2;
          deliver \<lparr>dg_ipv4 = rx, payload = body, udp_len = ulen, payload_len = ulen - sizeof_udp, dg_src_ip = ntohl si,
            dg_dst_ip = ntohl di, dg_src_port = ntohs sp, dg_dst_port = ntohs dp\<rparr> st } })"

definition net_udp_resolve_remote_ip :: "netdev option \<Rightarrow> u32 \<Rightarrow> u16 \<Rightarrow> u32" where
  "net_udp_resolve_remote_ip dev requested_ip requested_port =
     (case dev of
        Some d \<Rightarrow> if requested_port = 53 \<and> dns_server d \<noteq> 0 \<and> dns_server d \<noteq> requested_ip then dns_server d else requested_ip
      | None \<Rightarrow> requested_ip)"

definition net_udp_peer_matches :: "netdev option \<Rightarrow> u32 \<Rightarrow> u16 \<Rightarrow> u32 \<Rightarrow> u16 \<Rightarrow> bool" where
  "net_udp_peer_matches dev requested_ip requested_port src_ip src_port =
     (requested_port = 53 \<and> src_port = 53
        \<and> (src_ip = requested_ip \<or> (case dev of Some d \<Rightarrow> dns_server d \<noteq> 0 \<and> src_ip = dns_server d | None \<Rightarrow> False))
      \<or> requested_ip = src_ip \<and> requested_port = src_port)"

section \<open>ICMP\<close>

abbreviation (input) ICMP_ECHO_REPLY :: u8 where "ICMP_ECHO_REPLY \<equiv> 0"
abbreviation (input) ICMP_ECHO_REQUEST :: u8 where "ICMP_ECHO_REQUEST \<equiv> 8"

definition icmp_echo_bytes :: "u8 \<Rightarrow> u16 \<Rightarrow> u16 \<Rightarrow> bytes option \<Rightarrow> bytes" where
  "icmp_echo_bytes ty ident sq data =
     (let h = \<lparr>icmp_type = ty, icmp_code = 0, icmp_checksum = 0, icmp_ident = htons ident, icmp_seq = htons sq,
               icmp_payload = (case data of Some p \<Rightarrow> p | None \<Rightarrow> map of_nat [0..<32])\<rparr>
      in icmp_bytes (h\<lparr>icmp_checksum := htons (net_checksum (icmp_bytes h))\<rparr>))"

definition icmp_echo_frame :: "netdev \<Rightarrow> bytes \<Rightarrow> u32 \<Rightarrow> u32 \<Rightarrow> u8 \<Rightarrow> u16 \<Rightarrow> u16 \<Rightarrow> bytes option \<Rightarrow> bytes" where
  "icmp_echo_frame dev dst_mac src_ip dst_ip ty ident sq data =
     eth_hdr dst_mac (mac dev) (htons ETH_P_IP)
     @ ipv4_header (sizeof_ipv4 + sizeof_icmp_echo) ident IP_PROTO_ICMP src_ip dst_ip
     @ icmp_echo_bytes ty ident sq data"

definition send_icmp_echo_packet ::
    "'u receiver \<Rightarrow> u64 \<Rightarrow> bytes \<Rightarrow> u32 \<Rightarrow> u32 \<Rightarrow> u8 \<Rightarrow> u16 \<Rightarrow> u16 \<Rightarrow> bytes option \<Rightarrow> 'u net \<Rightarrow> 'u result" where
  "send_icmp_echo_packet rcv dev dst_mac src_ip dst_ip ty ident sq data st =
     dev_send rcv dev (icmp_echo_frame (devs st dev) dst_mac src_ip dst_ip ty ident sq data) st"

definition send_icmp_echo :: "'u receiver \<Rightarrow> u64 \<Rightarrow> bytes \<Rightarrow> u32 \<Rightarrow> u16 \<Rightarrow> u16 \<Rightarrow> 'u net \<Rightarrow> 'u result" where
  "send_icmp_echo rcv dev dst_mac dst_ip ident sq st =
     send_icmp_echo_packet rcv dev dst_mac (ipv4_addr (devs st dev)) dst_ip ICMP_ECHO_REQUEST ident sq None st"

definition icmp_ipv4_receive :: "'u hooks \<Rightarrow> 'u receiver \<Rightarrow> net_ipv4_rx_info \<Rightarrow> 'u net \<Rightarrow> 'u handled" where
  "icmp_ipv4_receive hk rcv rx st =
     (if rx_dev rx = 0 then Some (Inl EINVAL, st)
      else do {
        let dev = devs st (rx_dev rx);
        dst \<leftarrow> rd32 (rx_ip rx) 16;
        if ntohl dst \<noteq> ipv4_addr dev then Some (Inr 0, st)
        else if rx_ip_len rx < rx_ihl rx + sizeof_icmp_echo then Some (Inl EINVAL, st)
        else do {
          let icmp = drop (rx_ihl rx) (rx_ip rx);
          st \<leftarrow> raw_icmp_receive hk rx st;
          ty \<leftarrow> rd8 icmp 0;
          ident \<leftarrow> rd16 icmp 4;
          sq \<leftarrow> rd16 icmp 6;
          src \<leftarrow> rd32 (rx_ip rx) 12;
          if ty = ICMP_ECHO_REQUEST then do {
            data \<leftarrow> rd_block icmp 8 32;
            (_, st) \<leftarrow> send_icmp_echo_packet rcv (rx_dev rx) (mac (devs st (rx_dev rx))) (ntohl dst) (ntohl src) ICMP_ECHO_REPLY
              (ntohs ident) (ntohs sq) (Some data) st;
            Some (Inr 1, st) }
          else if rx_dev rx \<noteq> ping_dev st then Some (Inr 0, st)
          else if ty = ICMP_ECHO_REPLY \<and> ntohs ident = ping_ident st \<and> ntohs sq = ping_seq st \<and> ntohl src = ping_src st
          then do {
            ttl \<leftarrow> rd8 (rx_ip rx) 8;
            let elapsed = pit_ticks st - ping_started_tick st;
            Some (Inr 1, st\<lparr>ping_result := \<lparr>pr_src_ip = ntohl src, pr_seq = ntohs sq,
                pr_bytes = of_nat (rx_ip_len rx - rx_ihl rx), pr_ttl = ttl,
                pr_time_ms = (if pit_hz st \<noteq> 0 then elapsed * 1000 div pit_hz st else 0)\<rparr>,
              ping_ready := True\<rparr>) }
          else Some (Inr 1, st) } })"

section \<open>Checksums of the packets sent\<close>

lemma ipv4_header_split:
  "\<exists>a b. length a = 10 \<and> length b = 8 \<and> ipv4_header n ident p s d
     = a @ st16 (net_bswap16 (net_checksum (a @ st16 0 @ b))) @ b"
  by (rule exI [of _ "[0x45, 0] @ st16 (htons (of_nat n)) @ st16 (htons ident) @ st16 0 @ [64, p]"],
        rule exI [of _ "st32 (htonl s) @ st32 (htonl d)"])
    (simp add: ipv4_header_def ipv4_bytes_def Let_def)

lemma ipv4_header_length [simp]: "length (ipv4_header n ident p s d) = 20"
  using ipv4_header_split [of n ident p s d] by auto






lemma length_tcp_opt_bytes [simp]: "length (tcp_opt_bytes fl opts) = tcp_opt_len fl opts"
  by (auto simp: tcp_opt_bytes_def tcp_opt_len_def Let_def)




end
