(* ===== verification/NetDns.thy ===== *)
theory NetDns
  imports NetProto
begin

unbundle bit_operations_syntax

text \<open>
  Name resolution (\<open>src/net/proto/dns.c\<close>): address literals, the hosts file, DNS queries and the parser
  of DNS responses.  A string is the list of its bytes without the terminator.
\<close>

section \<open>Scanning\<close>

definition ascii_space :: "u8 \<Rightarrow> bool" where
  "ascii_space c \<longleftrightarrow> c = 0x20 \<or> c = 0x09 \<or> c = 0x0d \<or> c = 0x0a"

definition ascii_digit :: "u8 \<Rightarrow> bool" where
  "ascii_digit c \<longleftrightarrow> 0x30 \<le> c \<and> c \<le> 0x39"

text \<open>\<open>while (pos < stop && P(buf[pos])) pos++\<close>.\<close>

function scan :: "(u8 \<Rightarrow> bool) \<Rightarrow> bytes \<Rightarrow> nat \<Rightarrow> nat \<Rightarrow> nat" where
  "scan P b stop pos = (if pos < stop \<and> P (b ! pos) then scan P b stop (pos + 1) else pos)"
  by pat_completeness auto
termination by (relation "measure (\<lambda>(P, b, stop, pos). stop - pos)") auto

declare scan.simps [simp del]

lemma scan_ge: "pos \<le> scan P b stop pos"
  by (induction P b stop pos rule: scan.induct) (subst scan.simps, auto)

lemma scan_le: "pos \<le> stop \<Longrightarrow> scan P b stop pos \<le> stop"
  by (induction P b stop pos rule: scan.induct) (subst scan.simps, auto)

lemma scan_skips: "pos \<le> i \<Longrightarrow> i < scan P b stop pos \<Longrightarrow> P (b ! i) \<and> i < stop"
proof (induction P b stop pos rule: scan.induct)
  case (1 P b stop pos)
  show ?case
    using 1(1) 1(2,3) by (subst (asm) scan.simps [of P b stop pos]) (cases "i = pos"; auto split: if_splits)
qed

lemma scan_stops: "scan P b stop pos < stop \<Longrightarrow> \<not> P (b ! scan P b stop pos)"
proof (induction P b stop pos rule: scan.induct)
  case (1 P b stop pos)
  show ?case using 1(1) 1(2) by (subst (asm) scan.simps, subst scan.simps) (auto split: if_splits)
qed

lemma scan_moves: "pos < stop \<Longrightarrow> P (b ! pos) \<Longrightarrow> pos < scan P b stop pos"
  using scan_ge [of "pos + 1" P b stop] by (subst scan.simps) auto

section \<open>Address literals\<close>

text \<open>The digits of one part: the value, the position after them and their number.\<close>

function literal_digits :: "bytes \<Rightarrow> nat \<Rightarrow> u32 \<Rightarrow> nat \<Rightarrow> errno + u32 \<times> nat \<times> nat" where
  "literal_digits s pos v digits =
     (if pos < length s \<and> ascii_digit (s ! pos)
      then let v' = v * 10 + (ucast (s ! pos) - 0x30)
        in if 255 < v' then Inl EINVAL else literal_digits s (pos + 1) v' (digits + 1)
      else Inr (v, pos, digits))"
  by pat_completeness auto
termination by (relation "measure (\<lambda>(s, pos, v, digits). length s - pos)") auto

declare literal_digits.simps [simp del]

text \<open>The loop over the parts, with the number of parts that are still to come.\<close>

fun literal_parts :: "bytes \<Rightarrow> nat \<Rightarrow> nat \<Rightarrow> errno + u32 list \<times> nat" where
  "literal_parts s 0 pos = Inr ([], pos)"
| "literal_parts s (Suc k) pos =
     (if length s \<le> pos \<or> \<not> ascii_digit (s ! pos) then Inl EINVAL
      else case literal_digits s pos 0 0 of
        Inl e \<Rightarrow> Inl e
      | Inr (v, p, digits) \<Rightarrow>
          if digits = 0 then Inl EINVAL
          else if 0 < k \<and> (length s \<le> p \<or> s ! p \<noteq> 0x2e) then Inl EINVAL
          else case literal_parts s k (if 0 < k then p + 1 else p) of
            Inl e \<Rightarrow> Inl e
          | Inr (vs, p) \<Rightarrow> Inr (v # vs, p))"

definition parse_ipv4_literal :: "bytes \<Rightarrow> errno + u32" where
  "parse_ipv4_literal s =
     (if length s = 0 then Inl EINVAL
      else case literal_parts s 4 0 of
        Inl e \<Rightarrow> Inl e
      | Inr (parts, pos) \<Rightarrow>
          if pos \<noteq> length s then Inl EINVAL
          else Inr (push_bit 24 (parts ! 0) OR push_bit 16 (parts ! 1) OR push_bit 8 (parts ! 2) OR parts ! 3))"

section \<open>The hosts file\<close>

definition host_token_eq :: "bytes \<Rightarrow> nat \<Rightarrow> nat \<Rightarrow> bytes \<Rightarrow> bool" where
  "host_token_eq b start token_len nm \<longleftrightarrow> length nm = token_len \<and> take token_len (drop start b) = nm"

lemma scan_past:
  assumes "p < stop"
  shows "p < scan (\<lambda>c. \<not> P c) b stop (scan P b stop p)"
proof (cases "P (b ! p)")
  case True
  then show ?thesis using scan_moves [OF assms, of P] scan_ge order_less_le_trans by blast
next
  case False
  then have "scan P b stop p = p" by (subst scan.simps) simp
  then show ?thesis using scan_moves [OF assms, of "\<lambda>c. \<not> P c"] False by simp
qed

text \<open>The names of a line, from \<open>p\<close> on: whether one of them is the name sought.\<close>

function hosts_names :: "bytes \<Rightarrow> bytes \<Rightarrow> nat \<Rightarrow> nat \<Rightarrow> bool" where
  "hosts_names b nm line_end p =
     (if p < line_end
      then let host_start = scan ascii_space b line_end p;
               p' = scan (\<lambda>c. \<not> ascii_space c) b line_end host_start;
               host_len = p' - host_start
        in if host_len \<noteq> 0 \<and> host_token_eq b host_start host_len nm then True
           else hosts_names b nm line_end p'
      else False)"
  by pat_completeness auto

termination
  by (relation "measure (\<lambda>(b, nm, line_end, p). line_end - p)")
    (use scan_past in \<open>auto intro: diff_less_mono2\<close>)

declare hosts_names.simps [simp del]

text \<open>The loop over the lines of the file.\<close>

definition newline :: "u8 \<Rightarrow> bool" where
  "newline c \<longleftrightarrow> c = 0x0a \<or> c = 0x0d"

definition hosts_line :: "bytes \<Rightarrow> bytes \<Rightarrow> nat \<Rightarrow> nat \<Rightarrow> u32 option" where
  "hosts_line b nm line pos =
     (let line_end = scan (\<lambda>c. c \<noteq> 0x23) b pos line;
          ip_start = scan ascii_space b line_end line;
          p = scan (\<lambda>c. \<not> ascii_space c) b line_end ip_start;
          ip_len = p - ip_start
      in if ip_len = 0 then None
         else case parse_ipv4_literal (take ip_len (drop ip_start b)) of
           Inl _ \<Rightarrow> None
         | Inr ip \<Rightarrow> if hosts_names b nm line_end p then Some ip else None)"

function hosts_from :: "bytes \<Rightarrow> bytes \<Rightarrow> nat \<Rightarrow> errno + u32" where
  "hosts_from b nm pos =
     (if pos < length b
      then let line = scan newline b (length b) pos;
               pos' = scan (\<lambda>c. \<not> newline c) b (length b) line
        in case hosts_line b nm line pos' of Some ip \<Rightarrow> Inr ip | None \<Rightarrow> hosts_from b nm pos'
      else Inl ENOENT)"
  by pat_completeness auto

termination
  by (relation "measure (\<lambda>(b, nm, pos). length b - pos)")
    (use scan_past in \<open>auto intro: diff_less_mono2\<close>)

declare hosts_from.simps [simp del]

text \<open>\<open>hosts_lookup\<close> on the outcome of reading \<open>/etc/hosts\<close>.\<close>

definition hosts_lookup :: "errno + bytes \<Rightarrow> bytes \<Rightarrow> errno + u32" where
  "hosts_lookup file nm = (case file of Inl e \<Rightarrow> Inl e | Inr b \<Rightarrow> hosts_from b nm 0)"

section \<open>DNS messages\<close>

abbreviation (input) DNS_PORT :: u16 where "DNS_PORT \<equiv> 53"
abbreviation (input) sizeof_dns_hdr :: nat where "sizeof_dns_hdr \<equiv> 12"

text \<open>The loop of \<open>dns_encode_name\<close>.  \<open>out\<close> are the \<open>pos\<close> bytes written so far; the length byte of the
  current label is reserved when the label starts and filled in when it ends.\<close>

fun encode_name_loop :: "nat \<Rightarrow> bytes \<Rightarrow> nat \<Rightarrow> nat \<Rightarrow> bytes \<Rightarrow> errno + nat \<times> nat \<times> bytes" where
  "encode_name_loop cap [] label_len label_pos out = Inr (label_len, label_pos, out)"
| "encode_name_loop cap (c # cs) label_len label_pos out =
     (if label_len = 0 \<and> cap \<le> length out then Inl EINVAL
      else let label_pos = (if label_len = 0 then length out else label_pos);
               out = (if label_len = 0 then out @ [0] else out)
        in if c = 0x2e
           then if label_len = 0 \<or> 63 < label_len then Inl EINVAL
                else encode_name_loop cap cs 0 label_pos (out[label_pos := of_nat label_len])
           else if cap \<le> length out then Inl EINVAL
           else if 63 < label_len + 1 then Inl EINVAL
           else encode_name_loop cap cs (label_len + 1) label_pos (out @ [c]))"

definition dns_encode_name :: "bytes \<Rightarrow> nat \<Rightarrow> errno + bytes" where
  "dns_encode_name nm cap =
     (if nm = [] then Inl EINVAL
      else case encode_name_loop cap nm 0 0 [] of
        Inl e \<Rightarrow> Inl e
      | Inr (label_len, label_pos, out) \<Rightarrow>
          if label_len = 0 then Inl EINVAL
          else if cap \<le> length out then Inl EINVAL
          else Inr (out[label_pos := of_nat label_len] @ [0]))"

function dns_skip_name :: "bytes \<Rightarrow> nat \<Rightarrow> nat \<Rightarrow> (errno + nat) option" where
  "dns_skip_name msg len p =
     (if len \<le> p then Some (Inl EINVAL)
      else case rd8 msg p of
        None \<Rightarrow> None
      | Some n \<Rightarrow>
          if n = 0 then Some (Inr (p + 1))
          else if n AND 0xc0 = 0xc0 then if len \<le> p + 1 then Some (Inl EINVAL) else Some (Inr (p + 2))
          else if n AND 0xc0 \<noteq> 0 then Some (Inl EINVAL)
          else if len < p + 1 + unat n then Some (Inl EINVAL)
          else dns_skip_name msg len (p + 1 + unat n))"
  by pat_completeness auto
termination by (relation "measure (\<lambda>(msg, len, p). len - p)") auto

declare dns_skip_name.simps [simp del]

definition dns_query :: "u16 \<Rightarrow> bytes \<Rightarrow> errno + bytes" where
  "dns_query qid nm =
     (case dns_encode_name nm (512 - sizeof_dns_hdr) of
        Inl e \<Rightarrow> Inl e
      | Inr q \<Rightarrow>
          if 512 < sizeof_dns_hdr + length q + 4 then Inl EINVAL
          else Inr (st16 (htons qid) @ st16 (htons 0x0100) @ st16 (htons 1) @ st16 0 @ st16 0 @ st16 0
            @ q @ [0, 1, 0, 1]))"

text \<open>\<open>((uint16_t)msg[i] << 8) | msg[i + 1]\<close> and the four-byte value.\<close>

definition be16 :: "bytes \<Rightarrow> nat \<Rightarrow> u16 option" where
  "be16 b i = do { x0 \<leftarrow> rd8 b i; x1 \<leftarrow> rd8 b (i + 1); Some (push_bit 8 (ucast x0) OR ucast x1) }"

definition be32 :: "bytes \<Rightarrow> nat \<Rightarrow> u32 option" where
  "be32 b i = do { x0 \<leftarrow> rd8 b i; x1 \<leftarrow> rd8 b (i + 1); x2 \<leftarrow> rd8 b (i + 2); x3 \<leftarrow> rd8 b (i + 3);
     Some (push_bit 24 (ucast x0) OR push_bit 16 (ucast x1) OR push_bit 8 (ucast x2) OR ucast x3) }"

primrec skip_questions :: "bytes \<Rightarrow> nat \<Rightarrow> nat \<Rightarrow> nat \<Rightarrow> (errno + nat) option" where
  "skip_questions msg len 0 pos = Some (Inr pos)"
| "skip_questions msg len (Suc k) pos = do {
     r \<leftarrow> dns_skip_name msg len pos;
     case r of
       Inl _ \<Rightarrow> Some (Inl EINVAL)
     | Inr p \<Rightarrow> if len < p + 4 then Some (Inl EINVAL) else skip_questions msg len k (p + 4) }"

text \<open>The answers: the address of the first A record, \<open>None\<close> when there is none.\<close>

primrec first_answer :: "bytes \<Rightarrow> nat \<Rightarrow> nat \<Rightarrow> nat \<Rightarrow> (errno + u32 option) option" where
  "first_answer msg len 0 pos = Some (Inr None)"
| "first_answer msg len (Suc k) pos = do {
     r \<leftarrow> dns_skip_name msg len pos;
     case r of
       Inl _ \<Rightarrow> Some (Inl EINVAL)
     | Inr p \<Rightarrow>
         if len < p + 10 then Some (Inl EINVAL)
         else do {
           ty \<leftarrow> be16 msg p;
           klass \<leftarrow> be16 msg (p + 2);
           rdlen \<leftarrow> be16 msg (p + 8);
           let pos = p + 10;
           if len < pos + unat rdlen then Some (Inl EINVAL)
           else if ty = 1 \<and> klass = 1 \<and> rdlen = 4 then map_option (Inr \<circ> Some) (be32 msg pos)
           else first_answer msg len k (pos + unat rdlen) } }"

definition dns_udp_receive :: "net_udp_dgram \<Rightarrow> 'u net \<Rightarrow> 'u handled" where
  "dns_udp_receive dg st =
     (if rx_dev (dg_ipv4 dg) \<noteq> dns_dev st then Some (Inr 0, st)
      else if dg_src_port dg \<noteq> DNS_PORT \<or> dg_dst_port dg \<noteq> dns_query_port st then Some (Inr 0, st)
      else if udp_len dg < sizeof_udp + sizeof_dns_hdr then Some (Inr 0, st)
      else do {
        let msg = payload dg;
        let len = payload_len dg;
        qid \<leftarrow> rd16 msg 0;
        fl \<leftarrow> rd16 msg 2;
        if ntohs qid \<noteq> dns_query_id st \<or> ntohs fl AND 0x8000 = 0 then Some (Inr 0, st)
        else do {
          qd \<leftarrow> rd16 msg 4;
          an \<leftarrow> rd16 msg 6;
          r \<leftarrow> skip_questions msg len (unat (ntohs qd)) sizeof_dns_hdr;
          case r of
            Inl e \<Rightarrow> Some (Inl e, st)
          | Inr pos \<Rightarrow> do {
              r \<leftarrow> first_answer msg len (unat (ntohs an)) pos;
              case r of
                Inl e \<Rightarrow> Some (Inl e, st)
              | Inr (Some ip) \<Rightarrow> Some (Inr 1, st\<lparr>dns_result_ip := ip, dns_ready := True\<rparr>)
              | Inr None \<Rightarrow> Some (Inr 0, st) } } })"

section \<open>Names on the wire\<close>

text \<open>A name as the list of its labels: with dots between them, and as length-prefixed labels.\<close>

fun dotted :: "bytes list \<Rightarrow> bytes" where
  "dotted [] = []"
| "dotted [l] = l"
| "dotted (l # m # ls) = l @ 0x2e # dotted (m # ls)"

definition wire_name :: "bytes list \<Rightarrow> bytes" where
  "wire_name ls = concat (map (\<lambda>l. of_nat (length l) # l) ls)"

definition label_ok :: "bytes \<Rightarrow> bool" where
  "label_ok l \<longleftrightarrow> 0 < length l \<and> length l \<le> 63 \<and> 0x2e \<notin> set l"

lemma encode_in_label:
  "0x2e \<notin> set l \<Longrightarrow> 0 < k \<Longrightarrow> k + length l \<le> 63 \<Longrightarrow> length out \<le> cap \<Longrightarrow>
    encode_name_loop cap (l @ rest) k lp out =
      (if length out + length l \<le> cap then encode_name_loop cap rest (k + length l) lp (out @ l) else Inl EINVAL)"
proof (induction l arbitrary: k out)
  case (Cons c l)
  then show ?case by (auto simp: Let_def)
qed simp

lemma encode_label:
  assumes "label_ok l" "length out \<le> cap"
  shows "encode_name_loop cap (l @ rest) 0 lp out =
      (if length out + 1 + length l \<le> cap then encode_name_loop cap rest (length l) (length out) (out @ 0 # l) else Inl EINVAL)"
proof -
  obtain c l' where l: "l = c # l'" using assms(1) by (cases l) (auto simp: label_ok_def)
  have "encode_name_loop cap (l' @ rest) 1 (length out) (out @ [0, c]) =
      (if length (out @ [0, c]) + length l' \<le> cap then encode_name_loop cap rest (1 + length l') (length out) ((out @ [0, c]) @ l') else Inl EINVAL)"
    if "length out + 2 \<le> cap" by (rule encode_in_label) (use assms(1) that in \<open>auto simp: label_ok_def l\<close>)
  then show ?thesis using assms by (auto simp: l label_ok_def Let_def)
qed

lemma encode_dotted:
  "ls \<noteq> [] \<Longrightarrow> \<forall>l \<in> set ls. label_ok l \<Longrightarrow> length out \<le> cap \<Longrightarrow> encode_name_loop cap (dotted ls) 0 lp out =
     (if length out + length (wire_name ls) \<le> cap
      then Inr (length (last ls), length out + length (wire_name (butlast ls)), out @ wire_name (butlast ls) @ 0 # last ls) else Inl EINVAL)"
proof (induction ls arbitrary: lp out rule: dotted.induct)
  case (2 l)
  then show ?case using encode_label [of l out cap "[]" lp] by (simp add: wire_name_def)
next
  case (3 l m ls)
  let ?out = "out @ of_nat (length l) # l"
  have l: "label_ok l" "0 < length l" "length l \<le> 63" using 3(3) by (auto simp: label_ok_def)
  have dot: "encode_name_loop cap (0x2e # dotted (m # ls)) (length l) (length out) (out @ 0 # l) = encode_name_loop cap (dotted (m # ls)) 0 (length out) ?out"
    using l by (simp add: Let_def)
  show ?case
  proof (cases "length out + 1 + length l \<le> cap")
    case True
    then show ?thesis
      using encode_label [OF l(1) 3(4), of "0x2e # dotted (m # ls)" lp] 3(1) [of ?out "length out"] 3(3) dot by (simp add: wire_name_def)
  next
    case False
    then show ?thesis using encode_label [OF l(1) 3(4), of "0x2e # dotted (m # ls)" lp] by (simp add: wire_name_def)
  qed
qed simp

lemma dotted_nonempty: "ls \<noteq> [] \<Longrightarrow> \<forall>l \<in> set ls. label_ok l \<Longrightarrow> dotted ls \<noteq> []"
  by (cases ls rule: dotted.cases) (auto simp: label_ok_def)

lemma dns_encode_name_labels:
  assumes "ls \<noteq> []" "\<forall>l \<in> set ls. label_ok l"
  shows "dns_encode_name (dotted ls) cap = (if length (wire_name ls) < cap then Inr (wire_name ls @ [0]) else Inl EINVAL)"
proof -
  have "label_ok (last ls)" using assms by simp
  moreover have "wire_name ls = wire_name (butlast ls) @ of_nat (length (last ls)) # last ls"
    using arg_cong [OF append_butlast_last_id [OF assms(1)], of wire_name] by (simp add: wire_name_def)
  ultimately show ?thesis
    using encode_dotted [OF assms, of "[]" cap 0] dotted_nonempty [OF assms]
    by (auto simp: dns_encode_name_def label_ok_def)
qed

lemma small_length_byte: "0 < n \<Longrightarrow> n \<le> 63 \<Longrightarrow> (of_nat n :: u8) \<noteq> 0 \<and> (of_nat n :: u8) AND 0xc0 = 0 \<and> unat (of_nat n :: u8) = n"
proof -
  assume n: "0 < n" "n \<le> 63"
  then have u: "unat (of_nat n :: u8) = n" by (simp add: unat_of_nat)
  have "take_bit 6 (of_nat n :: u8) = of_nat n" using n by (simp add: take_bit_of_nat take_bit_nat_eq_self)
  moreover have "(0xc0 :: u8) = NOT (mask 6)" by (simp add: mask_eq_exp_minus_1 not_eq_complement)
  ultimately have "(of_nat n :: u8) AND 0xc0 = 0" by (metis and.assoc take_bit_eq_mask bit.conj_cancel_right bit.conj_zero_right)
  then show ?thesis using u n by (metis less_not_refl unat_0)
qed

lemma dns_skip_wire_name:
  "\<forall>l \<in> set ls. label_ok l \<Longrightarrow> msg = pre @ wire_name ls @ 0 # post \<Longrightarrow> length pre + length (wire_name ls) < len \<Longrightarrow>
    dns_skip_name msg len (length pre) = Some (Inr (length pre + length (wire_name ls) + 1))"
proof (induction ls arbitrary: pre)
  case Nil
  then show ?case by (subst dns_skip_name.simps) (simp add: wire_name_def rd8_append)
next
  case (Cons l ls)
  have l: "0 < length l" "length l \<le> 63" using Cons(2) by (simp_all add: label_ok_def)
  let ?pre = "pre @ of_nat (length l) # l"
  have msg: "msg = ?pre @ wire_name ls @ 0 # post" using Cons(3) by (simp add: wire_name_def)
  have "dns_skip_name msg len (length ?pre) = Some (Inr (length ?pre + length (wire_name ls) + 1))"
    by (rule Cons(1)) (use Cons(2,4) msg in \<open>auto simp: wire_name_def\<close>)
  moreover have "rd8 msg (length pre) = Some (of_nat (length l))" unfolding msg by (simp add: rd8_append)
  ultimately show ?case
    using small_length_byte [OF l] l Cons(4)
    by (subst dns_skip_name.simps) (auto simp: wire_name_def add.assoc)
qed

text \<open>C33.  A host name of labels of at most 63 bytes is encoded as its length-prefixed labels with a zero byte at the end
  exactly when that fits the buffer, and refused otherwise; and skipping a name in a message stops right behind
  the encoded name, wherever it stands.\<close>

theorem dns_name_roundtrip:
  assumes "ls \<noteq> []" "\<forall>l \<in> set ls. label_ok l"
  shows "dns_encode_name (dotted ls) cap = (if length (wire_name ls) + 1 \<le> cap then Inr (wire_name ls @ [0]) else Inl EINVAL)
    \<and> dns_skip_name (pre @ (wire_name ls @ [0]) @ post) (length (pre @ (wire_name ls @ [0]) @ post)) (length pre)
        = Some (Inr (length pre + length (wire_name ls @ [0])))"
  using dns_encode_name_labels [OF assms] dns_skip_wire_name [OF assms(2), of "pre @ (wire_name ls @ [0]) @ post" pre post] by auto

theorem dns_name_roundtrip_witness:
  "dns_encode_name [0x61, 0x62, 0x2e, 0x63] 500 = Inr [2, 0x61, 0x62, 1, 0x63, 0]
   \<and> dns_skip_name [9, 9, 2, 0x61, 0x62, 1, 0x63, 0, 7] (length [9, 9, 2, 0x61, 0x62, 1, 0x63, 0, 7 :: u8]) (length [9, 9 :: u8])
       = Some (Inr (length [9, 9, 2, 0x61, 0x62, 1, 0x63, 0 :: u8]))"
  using dns_name_roundtrip [of "[[0x61, 0x62], [0x63]]" 500 "[9, 9]" "[7]"] by (simp add: label_ok_def wire_name_def)


section \<open>Addresses in dotted decimal\<close>

definition decimal_digits :: "nat \<Rightarrow> nat list" where
  "decimal_digits v = (if v < 10 then [v] else if v < 100 then [v div 10, v mod 10] else [v div 100, v div 10 mod 10, v mod 10])"

abbreviation digit_chars :: "nat list \<Rightarrow> bytes" where
  "digit_chars ds \<equiv> map (\<lambda>d. of_nat (0x30 + d)) ds"

definition dotted_quad :: "u8 list \<Rightarrow> bytes" where
  "dotted_quad as = dotted (map (\<lambda>a. digit_chars (decimal_digits (unat a))) as)"

lemma digits_value: "v < 256 \<Longrightarrow> foldl (\<lambda>v d. v * 10 + d) 0 (decimal_digits v) = v \<and> (\<forall>d \<in> set (decimal_digits v). d < 10) \<and> decimal_digits v \<noteq> []"
proof -
  assume "v < 256"
  moreover have "v div 100 = v div 10 div 10" by (simp add: div_mult2_eq [symmetric])
  moreover have "v div 10 div 10 * 10 + v div 10 mod 10 = v div 10" "v div 10 * 10 + v mod 10 = v" by (rule div_mult_mod_eq)+
  ultimately show ?thesis by (auto simp: decimal_digits_def)
qed

lemma digit_char: "d < 10 \<Longrightarrow> ascii_digit (of_nat (0x30 + d)) \<and> (ucast (of_nat (0x30 + d) :: u8) :: u32) - 0x30 = of_nat d"
proof -
  assume "d < 10"
  then have "d \<in> {0, 1, 2, 3, 4, 5, 6, 7, 8, 9}" by auto
  then show ?thesis by (auto simp: ascii_digit_def)
qed

lemma foldl_digits_mono: "(v :: nat) \<le> foldl (\<lambda>v d. v * 10 + d) v ds"
proof (induction ds arbitrary: v)
  case (Cons d ds)
  show ?case using Cons [of "v * 10 + d"] by simp
qed simp

lemma literal_digits_run:
  "\<forall>d \<in> set ds. d < 10 \<Longrightarrow> foldl (\<lambda>v d. v * 10 + d) v ds \<le> 255 \<Longrightarrow> s = pre @ digit_chars ds @ rest \<Longrightarrow>
    literal_digits s (length pre) (of_nat v) k =
      literal_digits s (length pre + length ds) (of_nat (foldl (\<lambda>v d. v * 10 + d) v ds)) (k + length ds)"
proof (induction ds arbitrary: pre v k)
  case (Cons d ds)
  let ?v = "v * 10 + d" and ?c = "of_nat (0x30 + d) :: u8"
  have d: "ascii_digit ?c" "(ucast ?c :: u32) - 0x30 = of_nat d" using Cons(2) digit_char [of d] by simp_all
  have le: "?v \<le> 255" using foldl_digits_mono [of ?v ds] Cons(3) by simp
  have v: "(of_nat v :: u32) * 10 + of_nat d = of_nat ?v" by simp
  have small: "\<not> 255 < (of_nat ?v :: u32)" using le by (simp only: word_less_nat_alt unat_of_nat) simp
  have "s = (pre @ [?c]) @ digit_chars ds @ rest" using Cons(4) by simp
  note IH = Cons(1) [OF _ _ this, of ?v "k + 1"]
  have "literal_digits s (length pre) (of_nat v) k = literal_digits s (length pre + 1) (of_nat ?v) (k + 1)"
    using d v small by (subst literal_digits.simps) (simp only: Cons(4) Let_def, simp add: nth_append)
  then show ?case using IH Cons(2,3) by simp
qed simp

lemma literal_digits_octet:
  assumes "v < 256" "s = pre @ digit_chars (decimal_digits v) @ rest" "rest = [] \<or> \<not> ascii_digit (hd rest)"
  shows "literal_digits s (length pre) 0 0 = Inr (of_nat v, length pre + length (decimal_digits v), length (decimal_digits v))"
proof -
  have "literal_digits s (length pre) (of_nat 0) 0 =
      literal_digits s (length pre + length (decimal_digits v)) (of_nat v) (0 + length (decimal_digits v))"
    using literal_digits_run [of "decimal_digits v" 0 s pre rest 0] digits_value [OF assms(1)] assms by simp
  also have "\<dots> = Inr (of_nat v, length pre + length (decimal_digits v), length (decimal_digits v))"
    using assms(3) by (subst literal_digits.simps) (cases rest; simp add: assms(2) nth_append)
  finally show ?thesis by simp
qed

lemma literal_parts_quad:
  "as \<noteq> [] \<Longrightarrow> s = pre @ dotted_quad as \<Longrightarrow> literal_parts s (length as) (length pre) = Inr (map ucast as, length s)"
proof (induction as arbitrary: pre)
  case (Cons a as)
  let ?ds = "decimal_digits (unat a)"
  let ?rest = "if as = [] then [] else 0x2e # dotted_quad as"
  have s: "s = pre @ digit_chars ?ds @ ?rest" using Cons(3) by (cases as) (simp_all add: dotted_quad_def)
  have a: "unat a < 256" using unsigned_less [of a] by simp
  have "literal_digits s (length pre) 0 0 = Inr (of_nat (unat a), length pre + length ?ds, length ?ds)"
    by (rule literal_digits_octet [OF a s]) (simp add: ascii_digit_def)
  moreover have "length pre < length s" "ascii_digit (s ! length pre)" "?ds \<noteq> []"
    using digits_value [OF a] digit_char [of "hd ?ds"] by (cases ?ds; simp add: s nth_append)+
  moreover have "(of_nat (unat a) :: u32) = ucast a" by (simp add: of_nat_unat)
  moreover have "literal_parts s (length as) (length pre + length ?ds + 1) = Inr (map ucast as, length s)" if "as \<noteq> []"
    using Cons(1) [OF that, of "pre @ digit_chars ?ds @ [0x2e]"] that s by simp
  moreover have "s ! (length pre + length ?ds) = 0x2e" "length pre + length ?ds < length s" if "as \<noteq> []"
    using that by (simp_all add: s nth_append)
  ultimately show ?case by (cases "as = []") (simp_all add: s)
qed simp

text \<open>The address parser reads every address written in dotted decimal back, as the word with the four numbers as
  its bytes.\<close>

theorem parse_ipv4_literal_dotted_quad:
  "parse_ipv4_literal (dotted_quad [a, b, c, d]) = Inr (net_ipv4 a b c d)"
proof -
  have "dotted_quad [a, b, c, d] \<noteq> []" by (simp add: dotted_quad_def)
  moreover have "literal_parts (dotted_quad [a, b, c, d]) 4 0 = Inr (map ucast [a, b, c, d], length (dotted_quad [a, b, c, d]))"
    using literal_parts_quad [of "[a, b, c, d]" "dotted_quad [a, b, c, d]" "[]"] by (simp add: numeral_eq_Suc)
  ultimately show ?thesis by (simp add: parse_ipv4_literal_def net_ipv4_def)
qed

end
