(* ===== verification/NetDhcp.thy ===== *)
theory NetDhcp
  imports NetDns
begin

unbundle bit_operations_syntax

text \<open>
  DHCP messages (\<open>src/net/proto/dhcp.c\<close>) and the head of an HTTP response (\<open>http.c\<close>): the packet the
  client sends, the parser of the server's options, and \<open>net_http_parse\<close>.
\<close>

section \<open>DHCP\<close>

abbreviation (input) DHCP_CLIENT_PORT :: u16 where "DHCP_CLIENT_PORT \<equiv> 68"
abbreviation (input) DHCP_SERVER_PORT :: u16 where "DHCP_SERVER_PORT \<equiv> 67"
abbreviation (input) DHCP_MAGIC :: u32 where "DHCP_MAGIC \<equiv> 0x63825363"
abbreviation (input) DHCP_DISCOVER :: u8 where "DHCP_DISCOVER \<equiv> 1"
abbreviation (input) DHCP_OFFER :: u8 where "DHCP_OFFER \<equiv> 2"
abbreviation (input) DHCP_REQUEST :: u8 where "DHCP_REQUEST \<equiv> 3"
abbreviation (input) DHCP_ACK :: u8 where "DHCP_ACK \<equiv> 5"

text \<open>The fixed part of \<open>dhcp_pkt_t\<close> is 240 bytes, the options follow.\<close>

abbreviation (input) dhcp_fixed :: nat where "dhcp_fixed \<equiv> 240"

record dhcp_pkt =
  d_op :: u8
  d_htype :: u8
  d_hlen :: u8
  d_hops :: u8
  d_xid :: u32
  d_secs :: u16
  d_flags :: u16
  d_ciaddr :: u32
  d_yiaddr :: u32
  d_siaddr :: u32
  d_giaddr :: u32
  d_chaddr :: bytes
  d_sname :: bytes
  d_file :: bytes
  d_magic :: u32
  d_options :: bytes

definition dhcp_bytes :: "dhcp_pkt \<Rightarrow> bytes" where
  "dhcp_bytes p = [d_op p, d_htype p, d_hlen p, d_hops p] @ st32 (d_xid p) @ st16 (d_secs p) @ st16 (d_flags p)
     @ st32 (d_ciaddr p) @ st32 (d_yiaddr p) @ st32 (d_siaddr p) @ st32 (d_giaddr p)
     @ d_chaddr p @ d_sname p @ d_file p @ st32 (d_magic p) @ d_options p"

text \<open>The options written so far, extended by one more.\<close>

definition dhcp_add_u8 :: "bytes \<Rightarrow> u8 \<Rightarrow> u8 \<Rightarrow> bytes" where
  "dhcp_add_u8 opts code v = opts @ [code, 1, v]"

definition dhcp_add_u32 :: "bytes \<Rightarrow> u8 \<Rightarrow> u32 \<Rightarrow> bytes" where
  "dhcp_add_u32 opts code v =
     opts @ [code, 4, ucast (drop_bit 24 v), ucast (drop_bit 16 v), ucast (drop_bit 8 v), ucast v]"

definition dhcp_message :: "netdev \<Rightarrow> u32 \<Rightarrow> u8 \<Rightarrow> u32 \<Rightarrow> u32 \<Rightarrow> bytes" where
  "dhcp_message dev xid ty requested_ip server_ip =
     (let opts = dhcp_add_u8 [] 53 ty;
          opts = (if requested_ip \<noteq> 0 then dhcp_add_u32 opts 50 requested_ip else opts);
          opts = (if server_ip \<noteq> 0 then dhcp_add_u32 opts 54 server_ip else opts);
          opts = opts @ [55, 4, 1, 3, 6, 51, 255]
      in dhcp_bytes \<lparr>d_op = 1, d_htype = 1, d_hlen = 6, d_hops = 0, d_xid = htonl xid, d_secs = 0, d_flags = htons 0x8000,
           d_ciaddr = 0, d_yiaddr = 0, d_siaddr = 0, d_giaddr = 0, d_chaddr = mac dev @ replicate 10 0,
           d_sname = replicate 64 0, d_file = replicate 128 0, d_magic = htonl DHCP_MAGIC, d_options = opts\<rparr>)"

definition send_dhcp :: "'u receiver \<Rightarrow> u64 \<Rightarrow> u8 \<Rightarrow> u32 \<Rightarrow> u32 \<Rightarrow> 'u net \<Rightarrow> 'u result" where
  "send_dhcp rcv dev ty requested_ip server_ip st =
     net_send_ipv4_udp rcv dev (replicate NET_ETH_ALEN 0xff) 0 0xffffffff DHCP_CLIENT_PORT DHCP_SERVER_PORT
       (dhcp_message (devs st dev) (dhcp_xid st) ty requested_ip server_ip) st"

record dhcp_info =
  i_type :: u8
  i_server :: u32
  i_mask :: u32
  i_gateway :: u32
  i_dns :: u32

text \<open>The options loop; \<open>pos\<close> is relative to the start of the options in the message.\<close>

definition dhcp_option :: "bytes \<Rightarrow> nat \<Rightarrow> u8 \<Rightarrow> nat \<Rightarrow> dhcp_info \<Rightarrow> dhcp_info option" where
  "dhcp_option msg pos code len i =
     (if code = 53 \<and> 1 \<le> len then map_option (\<lambda>v. i\<lparr>i_type := v\<rparr>) (rd8 msg (dhcp_fixed + pos))
      else if code = 54 \<and> 4 \<le> len then map_option (\<lambda>v. i\<lparr>i_server := v\<rparr>) (be32 msg (dhcp_fixed + pos))
      else if code = 1 \<and> 4 \<le> len then map_option (\<lambda>v. i\<lparr>i_mask := v\<rparr>) (be32 msg (dhcp_fixed + pos))
      else if code = 3 \<and> 4 \<le> len then map_option (\<lambda>v. i\<lparr>i_gateway := v\<rparr>) (be32 msg (dhcp_fixed + pos))
      else if code = 6 \<and> 4 \<le> len then map_option (\<lambda>v. i\<lparr>i_dns := v\<rparr>) (be32 msg (dhcp_fixed + pos))
      else Some i)"

function dhcp_options :: "bytes \<Rightarrow> nat \<Rightarrow> nat \<Rightarrow> dhcp_info \<Rightarrow> dhcp_info option" where
  "dhcp_options msg opt_len pos i =
     (if opt_len \<le> pos then Some i
      else case rd8 msg (dhcp_fixed + pos) of
        None \<Rightarrow> None
      | Some code \<Rightarrow>
          if code = 0 then dhcp_options msg opt_len (pos + 1) i
          else if code = 255 then Some i
          else if opt_len \<le> pos + 1 then Some i
          else case rd8 msg (dhcp_fixed + pos + 1) of
            None \<Rightarrow> None
          | Some len \<Rightarrow>
              if opt_len < pos + 2 + unat len then Some i
              else case dhcp_option msg (pos + 2) code (unat len) i of
                None \<Rightarrow> None
              | Some i \<Rightarrow> dhcp_options msg opt_len (pos + 2 + unat len) i)"
  by pat_completeness auto
termination by (relation "measure (\<lambda>(msg, opt_len, pos, i). opt_len - pos)") auto

declare dhcp_options.simps [simp del]

definition dhcp_udp_receive :: "net_udp_dgram \<Rightarrow> 'u net \<Rightarrow> 'u handled" where
  "dhcp_udp_receive dg st =
     (if rx_dev (dg_ipv4 dg) = 0 then Some (Inl EINVAL, st)
      else if udp_len dg < sizeof_udp + dhcp_fixed then Some (Inr 0, st)
      else if dg_src_port dg \<noteq> DHCP_SERVER_PORT \<or> dg_dst_port dg \<noteq> DHCP_CLIENT_PORT then Some (Inr 0, st)
      else if payload_len dg < dhcp_fixed then Some (Inr 0, st)
      else do {
        let msg = payload dg;
        xid \<leftarrow> rd32 msg 4;
        magic \<leftarrow> rd32 msg 236;
        op \<leftarrow> rd8 msg 0;
        chaddr \<leftarrow> rd_block msg 28 NET_ETH_ALEN;
        if ntohl xid \<noteq> dhcp_xid st \<or> ntohl magic \<noteq> DHCP_MAGIC \<or> op \<noteq> 2 \<or> chaddr \<noteq> mac (devs st (rx_dev (dg_ipv4 dg)))
        then Some (Inr 0, st)
        else do {
          i \<leftarrow> dhcp_options msg (payload_len dg - dhcp_fixed) 0
                 \<lparr>i_type = 0, i_server = 0, i_mask = 0, i_gateway = 0, i_dns = 0\<rparr>;
          if i_type i \<noteq> DHCP_OFFER \<and> i_type i \<noteq> DHCP_ACK then Some (Inr 0, st)
          else do {
            yiaddr \<leftarrow> rd32 msg 16;
            Some (Inr 1, st\<lparr>dhcp_offered_ip := ntohl yiaddr, dhcp_server_ip := i_server i, dhcp_netmask := i_mask i,
              dhcp_gateway := i_gateway i, dhcp_dns_server := i_dns i, dhcp_seen_type := i_type i, dhcp_ready := True\<rparr>) } } })"

section \<open>HTTP response heads\<close>

record net_http_response =
  status :: u16
  header_len :: nat
  body_len :: u64

definition header_name_eq :: "bytes \<Rightarrow> nat \<Rightarrow> nat \<Rightarrow> bytes \<Rightarrow> bool" where
  "header_name_eq b start len nm \<longleftrightarrow> len = length nm \<and> take (length nm) (drop start b) = nm"

text \<open>The strings \<open>HTTP/\<close> and \<open>Content-Length\<close>.\<close>

definition http_magic :: bytes where "http_magic = [0x48, 0x54, 0x54, 0x50, 0x2f]"
definition content_length :: bytes where
  "content_length = [0x43, 0x6f, 0x6e, 0x74, 0x65, 0x6e, 0x74, 0x2d, 0x4c, 0x65, 0x6e, 0x67, 0x74, 0x68]"

text \<open>The end of the header, \<open>0\<close> when there is none: the first \<open>i\<close> with an empty line after it.\<close>

function find_header_end :: "bytes \<Rightarrow> nat \<Rightarrow> nat" where
  "find_header_end b i =
     (if i + 3 < length b
      then if b ! i = 0x0d \<and> b ! (i + 1) = 0x0a \<and> b ! (i + 2) = 0x0d \<and> b ! (i + 3) = 0x0a then i + 4
           else find_header_end b (i + 1)
      else 0)"
  by pat_completeness auto
termination by (relation "measure (\<lambda>(b, i). length b - i)") auto

declare find_header_end.simps [simp del]

function line_end_from :: "bytes \<Rightarrow> nat \<Rightarrow> nat \<Rightarrow> nat" where
  "line_end_from b header_end nx =
     (if nx + 1 < header_end \<and> \<not> (b ! nx = 0x0d \<and> b ! (nx + 1) = 0x0a) then line_end_from b header_end (nx + 1) else nx)"
  by pat_completeness auto
termination by (relation "measure (\<lambda>(b, header_end, nx). header_end - nx)") auto

declare line_end_from.simps [simp del]

lemma line_end_from_ge: "nx \<le> line_end_from b header_end nx"
  by (induction b header_end nx rule: line_end_from.induct) (subst line_end_from.simps, auto)

function decimal :: "bytes \<Rightarrow> nat \<Rightarrow> nat \<Rightarrow> u64 \<Rightarrow> u64" where
  "decimal b stop v n =
     (if v < stop \<and> ascii_digit (b ! v) then decimal b stop (v + 1) (n * 10 + (ucast (b ! v) - 0x30)) else n)"
  by pat_completeness auto
termination by (relation "measure (\<lambda>(b, stop, v, n). stop - v)") auto

declare decimal.simps [simp del]

function header_lines :: "bytes \<Rightarrow> nat \<Rightarrow> nat \<Rightarrow> u64 option" where
  "header_lines b header_end line =
     (if line < header_end
      then let nx = line_end_from b header_end line; colon = scan (\<lambda>c. c \<noteq> 0x3a) b nx line
        in if colon < nx \<and> header_name_eq b line (colon - line) content_length
           then Some (decimal b nx (scan (\<lambda>c. c = 0x20) b nx (colon + 1)) 0)
           else header_lines b header_end (nx + 2)
      else None)"
  by pat_completeness auto
termination
  by (relation "measure (\<lambda>(b, header_end, line). header_end - line)")
    (use line_end_from_ge in \<open>auto intro!: diff_less_mono2 simp: le_imp_less_Suc less_SucI\<close>)

declare header_lines.simps [simp del]

definition net_http_parse :: "bytes \<Rightarrow> errno + net_http_response" where
  "net_http_parse b =
     (if length b < 12 then Inl EINVAL
      else if take 5 b \<noteq> http_magic then Inl EINVAL
      else let pos = scan (\<lambda>c. c \<noteq> 0x20) b (length b) 0
        in if length b \<le> pos + 4 \<or> b ! pos \<noteq> 0x20 then Inl EINVAL
        else let pos = pos + 1
          in if \<not> ascii_digit (b ! pos) \<or> \<not> ascii_digit (b ! (pos + 1)) \<or> \<not> ascii_digit (b ! (pos + 2)) then Inl EINVAL
          else let code = (ucast (b ! pos) - 0x30) * 100 + (ucast (b ! (pos + 1)) - 0x30) * 10 + (ucast (b ! (pos + 2)) - 0x30);
                   header_end = find_header_end b 0
            in if header_end = 0 then Inl ENOENT
               else Inr \<lparr>status = code, header_len = header_end,
                 body_len = (case header_lines b header_end 0 of Some n \<Rightarrow> n
                             | None \<Rightarrow> of_nat (length b - header_end))\<rparr>)"

section \<open>Reading a server's reply\<close>

text \<open>The options of a reply as a list of codes with their data, and what one of them sets.\<close>

definition option_bytes :: "(u8 \<times> bytes) list \<Rightarrow> bytes" where
  "option_bytes opts = concat (map (\<lambda>(code, d). code # of_nat (length d) # d) opts)"

definition address_of :: "bytes \<Rightarrow> u32" where
  "address_of d = net_ipv4 (d ! 0) (d ! 1) (d ! 2) (d ! 3)"

definition set_option :: "u8 \<times> bytes \<Rightarrow> dhcp_info \<Rightarrow> dhcp_info" where
  "set_option o' i = (case o' of (code, d) \<Rightarrow>
     if code = 53 \<and> 1 \<le> length d then i\<lparr>i_type := d ! 0\<rparr>
     else if code = 54 \<and> 4 \<le> length d then i\<lparr>i_server := address_of d\<rparr>
     else if code = 1 \<and> 4 \<le> length d then i\<lparr>i_mask := address_of d\<rparr>
     else if code = 3 \<and> 4 \<le> length d then i\<lparr>i_gateway := address_of d\<rparr>
     else if code = 6 \<and> 4 \<le> length d then i\<lparr>i_dns := address_of d\<rparr>
     else i)"

definition option_ok :: "u8 \<times> bytes \<Rightarrow> bool" where
  "option_ok o' \<longleftrightarrow> fst o' \<noteq> 0 \<and> fst o' \<noteq> 255 \<and> length (snd o') \<le> 255"

lemma be32_address: "4 \<le> length d \<Longrightarrow> be32 (pre @ d @ rest) (length pre) = Some (address_of d)"
proof -
  assume "4 \<le> length d"
  then obtain a b c e d' where d: "d = a # b # c # e # d'" by (auto simp: numeral_eq_Suc Suc_le_length_iff)
  show ?thesis unfolding d be32_def by (simp add: rd8_append address_of_def net_ipv4_def numeral_2_eq_2 numeral_3_eq_3)
qed

lemma dhcp_option_data:
  assumes "length pre = dhcp_fixed + pos"
  shows "dhcp_option (pre @ d @ rest) pos code (length d) i = Some (set_option (code, d) i)"
proof -
  have "rd8 (pre @ d @ rest) (dhcp_fixed + pos) = Some (d ! 0)" if "1 \<le> length d"
    using that assms by (cases d) (simp_all add: rd8_append)
  then show ?thesis
    using be32_address [of d pre rest] assms by (auto simp: dhcp_option_def set_option_def)
qed

lemma dhcp_options_decode:
  "\<forall>o' \<in> set opts. option_ok o' \<Longrightarrow> msg = pre @ option_bytes opts @ 255 # rest \<Longrightarrow> length pre = dhcp_fixed + pos \<Longrightarrow>
    pos + length (option_bytes opts) < opt_len \<Longrightarrow> dhcp_options msg opt_len pos i = Some (fold set_option opts i)"
proof (induction opts arbitrary: pre pos i)
  case Nil
  then show ?case by (subst dhcp_options.simps) (simp add: option_bytes_def rd8_append)
next
  case (Cons o' opts)
  obtain code d where o': "o' = (code, d)" by (cases o')
  let ?pre = "pre @ code # of_nat (length d) # d"
  have ok: "code \<noteq> 0" "code \<noteq> 255" "unat (of_nat (length d) :: u8) = length d"
    using Cons(2) by (auto simp: o' option_ok_def unat_of_nat)
  have m: "msg = (pre @ [code, of_nat (length d)]) @ d @ option_bytes opts @ 255 # rest" using Cons(3) by (simp add: o' option_bytes_def)
  have rds: "rd8 msg (dhcp_fixed + pos) = Some code" "rd8 msg (dhcp_fixed + pos + 1) = Some (of_nat (length d))"
    using Cons(4) by (simp_all add: m rd8_append)
  have opt: "dhcp_option msg (pos + 2) code (length d) i = Some (set_option o' i)"
    unfolding m o' by (rule dhcp_option_data) (simp add: Cons(4))
  have "dhcp_options msg opt_len (pos + 2 + length d) (set_option o' i) = Some (fold set_option opts (set_option o' i))"
    by (rule Cons(1) [of ?pre]) (use Cons(2,4,5) m in \<open>simp_all add: o' option_bytes_def\<close>)
  then show ?case
    using rds opt ok Cons(5) by (subst dhcp_options.simps) (simp add: o' option_bytes_def)
qed


lemma dhcp_reply_fields:
  assumes "length (d_chaddr p) = 16" "length (d_sname p) = 64" "length (d_file p) = 128"
  shows "rd8 (dhcp_bytes p) 0 = Some (d_op p)" "rd32 (dhcp_bytes p) 4 = Some (d_xid p)" "rd32 (dhcp_bytes p) 16 = Some (d_yiaddr p)"
    "rd_block (dhcp_bytes p) 28 6 = Some (take 6 (d_chaddr p))" "rd32 (dhcp_bytes p) 236 = Some (d_magic p)"
    "\<exists>pre. dhcp_bytes p = pre @ d_options p \<and> length pre = dhcp_fixed"
proof -
  let ?h = "[d_op p, d_htype p, d_hlen p, d_hops p]"
  let ?a = "?h @ st32 (d_xid p) @ st16 (d_secs p) @ st16 (d_flags p) @ st32 (d_ciaddr p)"
  let ?b = "?a @ st32 (d_yiaddr p) @ st32 (d_siaddr p) @ st32 (d_giaddr p)"
  let ?c = "?b @ d_chaddr p @ d_sname p @ d_file p"
  show "rd8 (dhcp_bytes p) 0 = Some (d_op p)" by (simp add: dhcp_bytes_def)
  show "rd32 (dhcp_bytes p) 4 = Some (d_xid p)"
    using rd32_append [of ?h 4 "st32 (d_xid p) @ drop 8 (dhcp_bytes p)"] by (simp add: dhcp_bytes_def)
  show "rd32 (dhcp_bytes p) 16 = Some (d_yiaddr p)"
    using rd32_append [of ?a 16 "st32 (d_yiaddr p) @ drop 20 (dhcp_bytes p)"] by (simp add: dhcp_bytes_def)
  show "rd_block (dhcp_bytes p) 28 6 = Some (take 6 (d_chaddr p))"
    using assms by (simp add: dhcp_bytes_def rd_block_def)
  show "rd32 (dhcp_bytes p) 236 = Some (d_magic p)"
    using rd32_append [of ?c 236 "st32 (d_magic p) @ d_options p"] assms by (simp add: dhcp_bytes_def)
  show "\<exists>pre. dhcp_bytes p = pre @ d_options p \<and> length pre = dhcp_fixed"
    by (rule exI [of _ "?c @ st32 (d_magic p)"]) (simp add: dhcp_bytes_def assms)
qed


definition no_info :: dhcp_info where
  "no_info = \<lparr>i_type = 0, i_server = 0, i_mask = 0, i_gateway = 0, i_dns = 0\<rparr>"

text \<open>C35.  A reply that is addressed to the client (its transaction, its hardware address) is decoded: whatever well-formed
  options it carries, an offer or an acknowledgement records the offered address and the values of the options, and every
  other message type changes nothing.\<close>

theorem dhcp_reply_decoded:
  assumes "rx_dev (dg_ipv4 dg) \<noteq> 0" "dg_src_port dg = 67" "dg_dst_port dg = 68"
    and "payload dg = dhcp_bytes p" "payload_len dg = length (dhcp_bytes p)" "udp_len dg = 8 + payload_len dg"
    and "d_op p = 2" "d_xid p = htonl (dhcp_xid st)" "d_magic p = htonl 0x63825363"
    and "d_chaddr p = mac (devs st (rx_dev (dg_ipv4 dg))) @ replicate 10 0" "length (mac (devs st (rx_dev (dg_ipv4 dg)))) = 6"
    and "length (d_sname p) = 64" "length (d_file p) = 128"
    and "\<forall>o' \<in> set opts. option_ok o'" "d_options p = option_bytes opts @ 255 # rest"
  shows "dhcp_udp_receive dg st = (let i = fold set_option opts no_info in
     if i_type i = 2 \<or> i_type i = 5
     then Some (Inr 1, st\<lparr>dhcp_offered_ip := ntohl (d_yiaddr p), dhcp_server_ip := i_server i, dhcp_netmask := i_mask i,
       dhcp_gateway := i_gateway i, dhcp_dns_server := i_dns i, dhcp_seen_type := i_type i, dhcp_ready := True\<rparr>)
     else Some (Inr 0, st))"
proof -
  have ch: "length (d_chaddr p) = 16" using assms by simp
  note f = dhcp_reply_fields [OF ch assms(12,13)]
  obtain pre where pre: "dhcp_bytes p = pre @ option_bytes opts @ 255 # rest" "length pre = dhcp_fixed"
    using f(6) assms(15) by auto
  have o': "dhcp_options (dhcp_bytes p) (length (dhcp_bytes p) - dhcp_fixed) 0 no_info = Some (fold set_option opts no_info)"
    by (rule dhcp_options_decode [OF assms(14) pre(1)]) (simp_all add: pre)
  have len: "dhcp_fixed \<le> length (dhcp_bytes p)" by (simp add: pre)
  have chaddr: "take 6 (d_chaddr p) = mac (devs st (rx_dev (dg_ipv4 dg)))" using assms(10,11) by simp
  show ?thesis
    using assms(1-9) f(1-5) len chaddr o' by (simp add: dhcp_udp_receive_def no_info_def Let_def)
qed

definition sample_reply :: dhcp_pkt where
  "sample_reply = \<lparr>d_op = 2, d_htype = 1, d_hlen = 6, d_hops = 0, d_xid = htonl 7, d_secs = 0, d_flags = 0, d_ciaddr = 0,
     d_yiaddr = htonl 0x0a00020f, d_siaddr = 0, d_giaddr = 0, d_chaddr = [2, 0, 0, 0, 0, 1] @ replicate 10 0,
     d_sname = replicate 64 0, d_file = replicate 128 0, d_magic = htonl 0x63825363,
     d_options = option_bytes [(53, [5]), (54, [10, 0, 2, 2]), (1, [255, 255, 255, 0])] @ [255]\<rparr>"

definition sample_dgram :: net_udp_dgram where
  "sample_dgram = \<lparr>dg_ipv4 = \<lparr>rx_dev = 1, rx_src_mac = [], rx_ip = [], rx_ihl = 20, rx_ip_len = 0\<rparr>, payload = dhcp_bytes sample_reply,
     udp_len = 8 + length (dhcp_bytes sample_reply), payload_len = length (dhcp_bytes sample_reply),
     dg_src_ip = 0, dg_dst_ip = 0, dg_src_port = 67, dg_dst_port = 68\<rparr>"

definition sample_client :: "nat net" where
  "sample_client = (zero_net 0)\<lparr>dhcp_xid := 7, devs := (\<lambda>_. zero_dev\<lparr>mac := [2, 0, 0, 0, 0, 1]\<rparr>)\<rparr>"

theorem dhcp_reply_decoded_witness:
  "map_option (\<lambda>(r, st). (r, dhcp_offered_ip st, dhcp_server_ip st, dhcp_netmask st, dhcp_seen_type st, dhcp_ready st))
     (dhcp_udp_receive sample_dgram sample_client) = Some (Inr 1, 0x0a00020f, 0x0a000202, 0xffffff00, 5, True)"
proof -
  let ?opts = "[(53, [5]), (54, [10, 0, 2, 2]), (1, [255, 255, 255, 0])] :: (u8 \<times> bytes) list"
  have i: "fold set_option ?opts no_info = \<lparr>i_type = 5, i_server = 0x0a000202, i_mask = 0xffffff00, i_gateway = 0, i_dns = 0\<rparr>"
    by code_simp
  have "dhcp_udp_receive sample_dgram sample_client = (let i = fold set_option ?opts no_info in
     if i_type i = 2 \<or> i_type i = 5
     then Some (Inr 1, sample_client\<lparr>dhcp_offered_ip := ntohl (d_yiaddr sample_reply), dhcp_server_ip := i_server i, dhcp_netmask := i_mask i,
       dhcp_gateway := i_gateway i, dhcp_dns_server := i_dns i, dhcp_seen_type := i_type i, dhcp_ready := True\<rparr>)
     else Some (Inr 0, sample_client))"
    by (rule dhcp_reply_decoded [where rest = "[]"])
      (simp_all add: sample_dgram_def sample_reply_def sample_client_def option_ok_def)
  then show ?thesis unfolding i by (simp add: sample_reply_def)
qed

end
