(* ===== verification/NetStack.thy ===== *)
theory NetStack
  imports NetDhcp
begin

unbundle bit_operations_syntax

text \<open>
  The stack put together: dispatch of received frames (\<open>net_receive_frame\<close> of
  \<open>src/net/core/netdev.c\<close>, \<open>net_ipv4_receive\<close> and \<open>net_udp_deliver\<close> of \<open>proto.c\<close>), the polling loop, and
  the client operations that send and wait (\<open>arp.c\<close>, \<open>icmp.c\<close>, \<open>dns.c\<close>, \<open>dhcp.c\<close>, \<open>http.c\<close>), and the
  registration of protocols and devices.
\<close>

section \<open>Dispatch\<close>

fun deliver_from :: "(net_udp_handler_ops \<Rightarrow> net_udp_dgram \<Rightarrow> 'u net \<Rightarrow> 'u handled) \<Rightarrow> net_udp_handler_ops option list
    \<Rightarrow> net_udp_dgram \<Rightarrow> bool \<Rightarrow> 'u net \<Rightarrow> (bool \<times> 'u net) option" where
  "deliver_from call [] dg handled st = Some (handled, st)"
| "deliver_from call (None # hs) dg handled st = deliver_from call hs dg handled st"
| "deliver_from call (Some ops # hs) dg handled st = do {
     (r, st) \<leftarrow> call ops dg st;
     deliver_from call hs dg (handled \<or> (case r of Inr n \<Rightarrow> 0 < n | Inl _ \<Rightarrow> False)) st }"

definition call_udp_handler :: "'u hooks \<Rightarrow> net_udp_handler_ops \<Rightarrow> net_udp_dgram \<Rightarrow> 'u net \<Rightarrow> 'u handled" where
  "call_udp_handler hk ops =
     (case uops_receive ops of
        dhcp_udp_receive_fn \<Rightarrow> dhcp_udp_receive
      | dns_udp_receive_fn \<Rightarrow> dns_udp_receive
      | socket_udp_receive_fn \<Rightarrow> socket_udp_receive hk)"

definition net_udp_deliver :: "'u hooks \<Rightarrow> net_udp_dgram \<Rightarrow> 'u net \<Rightarrow> 'u handled" where
  "net_udp_deliver hk dg st = do {
     (handled, st) \<leftarrow> deliver_from (call_udp_handler hk) (udp_handlers st) dg False st;
     Some (if handled then Inr 0 else Inl ENOENT, st) }"

fun find_protocol :: "u8 \<Rightarrow> net_ipv4_protocol_ops option list \<Rightarrow> net_ipv4_protocol_ops option" where
  "find_protocol p [] = None"
| "find_protocol p (None # ss) = find_protocol p ss"
| "find_protocol p (Some ops # ss) = (if protocol ops \<noteq> p then find_protocol p ss else Some ops)"

definition net_ipv4_receive :: "'u hooks \<Rightarrow> 'u receiver \<Rightarrow> net_ipv4_rx_info \<Rightarrow> 'u net \<Rightarrow> 'u handled" where
  "net_ipv4_receive hk rcv rx st = do {
     p \<leftarrow> rd8 (rx_ip rx) 9;
     case find_protocol p (ipv4_protocols st) of
       None \<Rightarrow> Some (Inl ENOENT, st)
     | Some ops \<Rightarrow>
         (case ops_receive ops of
            udp_ipv4_receive_fn \<Rightarrow> udp_ipv4_receive (net_udp_deliver hk) rx st
          | icmp_ipv4_receive_fn \<Rightarrow> icmp_ipv4_receive hk rcv rx st
          | tcp_ipv4_receive_fn \<Rightarrow> tcp_receive hk rx st) }"

text \<open>\<open>net_receive_frame\<close>, with the reception that a loopback device calls back from inside a handler.\<close>

definition receive_frame :: "'u hooks \<Rightarrow> 'u receiver \<Rightarrow> 'u receiver" where
  "receive_frame hk rcv dev frame st =
     (if dev = 0 \<or> length frame < sizeof_eth then Some st
      else do {
        let len = length frame;
        let st = netdev_enqueue_rx dev frame st;
        ty \<leftarrow> rd16 frame 12;
        if ntohs ty = ETH_P_ARP \<and> sizeof_eth + sizeof_arp \<le> len then net_arp_receive dev (drop sizeof_eth frame) st
        else if ntohs ty \<noteq> ETH_P_IP \<or> len < sizeof_eth + sizeof_ipv4 then Some st
        else do {
          let ip = drop sizeof_eth frame;
          vi \<leftarrow> rd8 ip 0;
          let ihl = unat (vi AND 0x0f) * 4;
          if ihl < sizeof_ipv4 \<or> len < sizeof_eth + ihl then Some st
          else do {
            tl \<leftarrow> rd16 ip 2;
            let ip_len = unat (ntohs tl);
            if ip_len < ihl \<or> len < sizeof_eth + ip_len then Some st
            else do {
              sm \<leftarrow> rd_block frame 6 NET_ETH_ALEN;
              (_, st) \<leftarrow> net_ipv4_receive hk rcv
                \<lparr>rx_dev = dev, rx_src_mac = sm, rx_ip = ip, rx_ihl = ihl, rx_ip_len = ip_len\<rparr> st;
              Some st } } } })"

text \<open>Nested receptions: a handler that answers on a loopback device receives its own answer before it
  returns.  The nesting is bounded by fuel; two levels are enough (\<open>receive_fuel_enough\<close>).\<close>

primrec receive_fuel :: "'u hooks \<Rightarrow> nat \<Rightarrow> 'u receiver" where
  "receive_fuel hk 0 = (\<lambda>dev frame st. None)"
| "receive_fuel hk (Suc k) = receive_frame hk (receive_fuel hk k)"

definition net_receive_frame :: "'u hooks \<Rightarrow> 'u receiver" where
  "net_receive_frame hk = receive_fuel hk 2"

section \<open>Polling\<close>

primrec receive_all :: "'u hooks \<Rightarrow> (u64 \<times> bytes) list \<Rightarrow> 'u net \<Rightarrow> 'u net option" where
  "receive_all hk [] st = Some st"
| "receive_all hk (f # fs) st = do { st \<leftarrow> net_receive_frame hk (fst f) (snd f) st; receive_all hk fs st }"

text \<open>\<open>while (!*flag && pit_get_ticks() < until) { async_io_drain(16); net_poll_dev(dev); }\<close>, one round of
  arrivals per iteration.  \<open>None\<close> when the arrivals end before the loop does.\<close>

fun poll_rounds :: "'u hooks \<Rightarrow> u64 \<Rightarrow> ('u net \<Rightarrow> bool) \<Rightarrow> poll_round list \<Rightarrow> 'u net \<Rightarrow> 'u net option" where
  "poll_rounds hk until flag [] st = (if flag st \<or> until \<le> pit_ticks st then Some st else None)"
| "poll_rounds hk until flag (r # rs) st =
     (if flag st \<or> until \<le> pit_ticks st then Some st
      else do {
        st \<leftarrow> receive_all hk (delivered r) (st\<lparr>arrivals := rs\<rparr>);
        poll_rounds hk until flag rs (st\<lparr>pit_ticks := clock_after r\<rparr>) })"

definition net_poll_until :: "'u hooks \<Rightarrow> u64 \<Rightarrow> ('u net \<Rightarrow> bool) \<Rightarrow> 'u net \<Rightarrow> 'u net option" where
  "net_poll_until hk until flag st = poll_rounds hk until flag (arrivals st) st"

section \<open>Client operations\<close>

definition net_arp_resolve :: "'u hooks \<Rightarrow> u64 \<Rightarrow> u32 \<Rightarrow> u64 \<Rightarrow> 'u net \<Rightarrow> ((errno + bytes) \<times> 'u net) option" where
  "net_arp_resolve hk dev target_ip timeout_ms st =
     (if dev = 0 then Some (Inl EINVAL, st)
      else if loopback (devs st dev) \<or> target_ip = ipv4_addr (devs st dev) then Some (Inr (mac (devs st dev)), st)
      else case arp_cache_lookup dev target_ip st of
        Some m \<Rightarrow> Some (Inr m, st)
      | None \<Rightarrow> do {
          (r, st) \<leftarrow> send_arp_request (net_receive_frame hk) dev target_ip
                      (st\<lparr>arp_dev := dev, arp_ip := target_ip, arp_ready := False\<rparr>);
          case r of
            Inl e \<Rightarrow> Some (Inl e, st)
          | Inr _ \<Rightarrow> do {
              let until = pit_ticks st + net_timeout_ticks timeout_ms st;
              st \<leftarrow> net_poll_until hk until arp_ready st;
              if \<not> arp_ready st then Some (Inl ENOENT, st)
              else Some (Inr (arp_mac st), arp_cache_store dev target_ip (arp_mac st) st) } })"

definition next_hop_of :: "netdev \<Rightarrow> u32 \<Rightarrow> u32" where
  "next_hop_of dev dst_ip =
     (if dst_ip AND ipv4_netmask dev \<noteq> ipv4_addr dev AND ipv4_netmask dev then ipv4_gateway dev else dst_ip)"

definition net_ping_echo_dev ::
    "'u hooks \<Rightarrow> u64 \<Rightarrow> u32 \<Rightarrow> u16 \<Rightarrow> u16 \<Rightarrow> u64 \<Rightarrow> 'u net \<Rightarrow> ((errno + net_ping_result) \<times> 'u net) option" where
  "net_ping_echo_dev hk dev dst_ip ident sq timeout_ms st =
     (if dev = 0 then Some (Inl ENOENT, st)
      else do {
        (r, st) \<leftarrow> net_arp_resolve hk dev (next_hop_of (devs st dev) dst_ip) timeout_ms st;
        case r of
          Inl e \<Rightarrow> Some (Inl e, st)
        | Inr m \<Rightarrow> do {
            let st = st\<lparr>ping_ident := ident, ping_seq := sq, ping_src := dst_ip, ping_dev := dev, ping_ready := False,
                       ping_result := empty_ping_result, ping_started_tick := pit_ticks st\<rparr>;
            (_, st) \<leftarrow> send_icmp_echo (net_receive_frame hk) dev m dst_ip ident sq st;
            let until = pit_ticks st + net_timeout_ticks timeout_ms st;
            st \<leftarrow> net_poll_until hk until ping_ready st;
            if \<not> ping_ready st then Some (Inl ENOENT, st) else Some (Inr (ping_result st), st) } })"

definition net_ping_echo ::
    "'u hooks \<Rightarrow> u32 \<Rightarrow> u16 \<Rightarrow> u16 \<Rightarrow> u64 \<Rightarrow> 'u net \<Rightarrow> ((errno + net_ping_result) \<times> 'u net) option" where
  "net_ping_echo hk dst_ip ident sq timeout_ms st =
     (let dev = fst (net_route dst_ip st) in
      if dev = 0 then Some (Inl ENOENT, st) else net_ping_echo_dev hk dev dst_ip ident sq timeout_ms st)"

definition send_dns_query :: "'u hooks \<Rightarrow> u64 \<Rightarrow> u32 \<Rightarrow> bytes \<Rightarrow> 'u net \<Rightarrow> 'u result" where
  "send_dns_query hk dev server_ip nm st =
     (case dns_query (dns_query_id st) nm of
        Inl e \<Rightarrow> Some (Inl e, st)
      | Inr q \<Rightarrow> do {
          (r, st) \<leftarrow> net_arp_resolve hk dev (next_hop_of (devs st dev) server_ip) 1000 st;
          case r of
            Inl e \<Rightarrow> Some (Inl e, st)
          | Inr m \<Rightarrow> net_send_ipv4_udp (net_receive_frame hk) dev m (ipv4_addr (devs st dev)) server_ip
              (dns_query_port st) DNS_PORT q st })"

text \<open>\<open>hosts\<close> is the outcome of reading the hosts file.\<close>

definition net_dns_resolve_dev ::
    "'u hooks \<Rightarrow> errno + bytes \<Rightarrow> u64 \<Rightarrow> bytes \<Rightarrow> u64 \<Rightarrow> 'u net \<Rightarrow> ((errno + u32) \<times> 'u net) option" where
  "net_dns_resolve_dev hk hosts dev nm timeout_ms st =
     (if dev = 0 then Some (Inl EINVAL, st)
      else case parse_ipv4_literal nm of Inr ip \<Rightarrow> Some (Inr ip, st)
      | Inl _ \<Rightarrow> (case hosts_lookup hosts nm of Inr ip \<Rightarrow> Some (Inr ip, st)
      | Inl _ \<Rightarrow>
          if dns_server (devs st dev) = 0 then Some (Inl ENOENT, st)
          else do {
            let qid = (if dns_query_id st + 1 = 0 then 1 else dns_query_id st + 1);
            let st = st\<lparr>dns_query_id := qid, dns_query_port := 49152 + (qid AND 0x3fff), dns_result_ip := 0,
                       dns_dev := dev, dns_ready := False\<rparr>;
            (r, st) \<leftarrow> send_dns_query hk dev (dns_server (devs st dev)) nm st;
            case r of
              Inl e \<Rightarrow> Some (Inl e, st)
            | Inr _ \<Rightarrow> do {
                let until = pit_ticks st + net_timeout_ticks timeout_ms st;
                st \<leftarrow> net_poll_until hk until dns_ready st;
                if \<not> dns_ready st \<or> dns_result_ip st = 0 then Some (Inl ENOENT, st)
                else Some (Inr (dns_result_ip st), st) } }))"

definition net_dns_resolve ::
    "'u hooks \<Rightarrow> errno + bytes \<Rightarrow> bytes \<Rightarrow> u64 \<Rightarrow> 'u net \<Rightarrow> ((errno + u32) \<times> 'u net) option" where
  "net_dns_resolve hk hosts nm timeout_ms st =
     (let dev = net_default_dev st in
      if dev = 0 then Some (Inl ENOENT, st) else net_dns_resolve_dev hk hosts dev nm timeout_ms st)"

text \<open>\<open>net_dhcp_configure_dev\<close>: discover, wait for an offer, request it, wait for the acknowledgement.\<close>

definition dhcp_lease :: "'u net \<Rightarrow> netdev \<Rightarrow> netdev" where
  "dhcp_lease st d =
     (let gw = (if dhcp_gateway st \<noteq> 0 then dhcp_gateway st else dhcp_server_ip st)
      in d\<lparr>ipv4_addr := dhcp_offered_ip st, dhcp_server := dhcp_server_ip st,
           ipv4_netmask := (if dhcp_netmask st \<noteq> 0 then dhcp_netmask st else net_ipv4 255 255 255 0),
           ipv4_gateway := gw, dns_server := (if dhcp_dns_server st \<noteq> 0 then dhcp_dns_server st else gw),
           dhcp_configured := True\<rparr>)"

definition net_dhcp_configure_dev :: "'u hooks \<Rightarrow> u64 \<Rightarrow> u64 \<Rightarrow> 'u net \<Rightarrow> 'u result" where
  "net_dhcp_configure_dev hk dev timeout_ms st =
     (if dev = 0 then Some (Inl ENOENT, st)
      else do {
        let st = st\<lparr>dhcp_xid := 0x4c595244, dhcp_ready := False, dhcp_seen_type := 0, dhcp_offered_ip := 0, dhcp_server_ip := 0,
                   dhcp_netmask := 0, dhcp_gateway := 0, dhcp_dns_server := 0\<rparr>;
        let until = pit_ticks st + net_timeout_ticks timeout_ms st;
        (r, st) \<leftarrow> send_dhcp (net_receive_frame hk) dev DHCP_DISCOVER 0 0 st;
        case r of
          Inl e \<Rightarrow> Some (Inl e, st)
        | Inr _ \<Rightarrow> do {
            st \<leftarrow> net_poll_until hk until dhcp_ready st;
            if \<not> dhcp_ready st \<or> dhcp_seen_type st \<noteq> DHCP_OFFER \<or> dhcp_offered_ip st = 0 then Some (Inl ENOENT, st)
            else do {
              let offered = dhcp_offered_ip st;
              let server = dhcp_server_ip st;
              let st = st\<lparr>dhcp_ready := False, dhcp_seen_type := 0\<rparr>;
              let until = pit_ticks st + net_timeout_ticks timeout_ms st;
              (r, st) \<leftarrow> send_dhcp (net_receive_frame hk) dev DHCP_REQUEST offered server st;
              case r of
                Inl e \<Rightarrow> Some (Inl e, st)
              | Inr _ \<Rightarrow> do {
                  st \<leftarrow> net_poll_until hk until dhcp_ready st;
                  if \<not> dhcp_ready st \<or> dhcp_seen_type st \<noteq> DHCP_ACK then Some (Inl ENOENT, st)
                  else Some (Inr (), upd_dev dev (dhcp_lease st) st) } } } })"

definition net_dhcp_configure :: "'u hooks \<Rightarrow> u64 \<Rightarrow> 'u net \<Rightarrow> 'u result" where
  "net_dhcp_configure hk timeout_ms st = net_dhcp_configure_dev hk (net_default_dev st) timeout_ms st"

section \<open>Initialisation\<close>

text \<open>The static tables of the protocols; their addresses only have to be distinct and not \<open>NULL\<close>.\<close>

definition udp_ipv4_protocol :: net_ipv4_protocol_ops where
  "udp_ipv4_protocol = \<lparr>ops_addr = 0x10, protocol = IP_PROTO_UDP, ops_name = 0x1000, ops_receive = udp_ipv4_receive_fn\<rparr>"
definition icmp_ipv4_protocol :: net_ipv4_protocol_ops where
  "icmp_ipv4_protocol = \<lparr>ops_addr = 0x20, protocol = IP_PROTO_ICMP, ops_name = 0x2000, ops_receive = icmp_ipv4_receive_fn\<rparr>"
definition tcp_ipv4_protocol :: net_ipv4_protocol_ops where
  "tcp_ipv4_protocol = \<lparr>ops_addr = 0x30, protocol = IP_PROTO_TCP, ops_name = 0x3000, ops_receive = tcp_ipv4_receive_fn\<rparr>"
definition dhcp_udp_handler :: net_udp_handler_ops where
  "dhcp_udp_handler = \<lparr>uops_addr = 0x40, uops_name = 0x4000, uops_receive = dhcp_udp_receive_fn\<rparr>"
definition dns_udp_handler :: net_udp_handler_ops where
  "dns_udp_handler = \<lparr>uops_addr = 0x50, uops_name = 0x5000, uops_receive = dns_udp_receive_fn\<rparr>"

text \<open>\<open>if (r != 0 && r != -EEXIST) return r;\<close> between the registrations.\<close>

fun run_inits :: "('u net \<Rightarrow> (errno + unit) \<times> 'u net) list \<Rightarrow> 'u net \<Rightarrow> (errno + unit) \<times> 'u net" where
  "run_inits [] st = (Inr (), st)"
| "run_inits (f # fs) st =
     (case f st of
        (Inl e, st) \<Rightarrow> if e \<noteq> EEXIST then (Inl e, st) else run_inits fs st
      | (Inr _, st) \<Rightarrow> run_inits fs st)"

definition net_proto_init :: "'u net \<Rightarrow> (errno + unit) \<times> 'u net" where
  "net_proto_init st =
     (if net_proto_ready st then (Inr (), st)
      else case run_inits [net_ipv4_register_protocol udp_ipv4_protocol, net_udp_register_handler dhcp_udp_handler,
                 net_udp_register_handler dns_udp_handler, net_ipv4_register_protocol icmp_ipv4_protocol,
                 net_ipv4_register_protocol tcp_ipv4_protocol] st of
        (Inl e, st) \<Rightarrow> (Inl e, st)
      | (Inr _, st) \<Rightarrow> (Inr (), st\<lparr>net_proto_ready := True\<rparr>))"

text \<open>\<open>netdev_register\<close>.  \<open>p\<close> is the address \<open>kzalloc\<close> returns for the device, \<open>qok\<close> whether the ring is
  allocated and \<open>pub\<close> the result of \<open>netdev_publish\<close>.\<close>

definition fresh_dev :: "netdev \<Rightarrow> netdev" where
  "fresh_dev src = src\<lparr>rx_queue := (\<lambda>_. 0), rx_len := replicate NETDEV_RX_QUEUE_LEN 0, rx_head := 0, rx_tail := 0,
     rx_count := 0, rx_dropped := 0, rx_packets := 0, tx_packets := 0,
     mtu := (if mtu src = 0 then 1500 else mtu src)\<rparr>"

definition dhcp_fallback :: "netdev \<Rightarrow> netdev" where
  "dhcp_fallback d = d\<lparr>ipv4_addr := (if ipv4_addr d = 0 then net_ipv4 10 0 2 15 else ipv4_addr d),
     ipv4_gateway := (if ipv4_gateway d = 0 then net_ipv4 10 0 2 2 else ipv4_gateway d),
     ipv4_netmask := (if ipv4_netmask d = 0 then net_ipv4 255 255 255 0 else ipv4_netmask d),
     dns_server := (if dns_server d = 0 then net_ipv4 10 0 2 3 else dns_server d)\<rparr>"

definition netdev_register ::
    "'u hooks \<Rightarrow> netdev \<Rightarrow> u64 \<Rightarrow> bool \<Rightarrow> errno + unit \<Rightarrow> 'u net \<Rightarrow> 'u result" where
  "netdev_register hk src p qok pub st =
     (if dev_name src = [] then Some (Inl EINVAL, st)
      else if p = 0 \<or> \<not> qok then Some (Inl ENOMEM, st)
      else if \<exists>c \<in> set (netdevs st). dev_name (devs st c) = dev_name src then Some (Inl EEXIST, st)
      else case pub of
        Inl e \<Rightarrow> Some (Inl e, st)
      | Inr _ \<Rightarrow>
          let d = fresh_dev src;
              st = st\<lparr>devs := (devs st)(p := d), netdevs := netdevs st @ [p],
                     default_netdev := (if (netdevs st = [] \<or> default_netdev st = 0) \<and> \<not> loopback d then p
                       else default_netdev st)\<rparr>
          in if loopback d then Some (Inr (), st)
             else do {
               (r, st) \<leftarrow> net_dhcp_configure_dev hk p 2000 st;
               case r of
                 Inr _ \<Rightarrow> Some (Inr (), st)
               | Inl _ \<Rightarrow> Some (Inr (), upd_dev p dhcp_fallback st) })"

definition lo_dev :: netdev where
  "lo_dev = \<lparr>dev_name = ''lo'', mac = replicate NET_ETH_ALEN 0, link_up = True, loopback = True, ipv4_addr = net_ipv4 127 0 0 1,
     ipv4_gateway = 0, ipv4_netmask = net_ipv4 255 0 0 0, dhcp_server = 0, dns_server = 0, mtu = 65535, dhcp_configured = False,
     dev_send_op = loopback_send_fn, rx_queue = (\<lambda>_. 0), rx_len = replicate NETDEV_RX_QUEUE_LEN 0, rx_head = 0, rx_tail = 0,
     rx_count = 0, rx_dropped = 0, tx_packets = 0, rx_packets = 0\<rparr>"

text \<open>\<open>net_init\<close>, with the results of the three devfs calls.\<close>

definition net_init ::
    "'u hooks \<Rightarrow> (errno + unit) list \<Rightarrow> u64 \<Rightarrow> bool \<Rightarrow> errno + unit \<Rightarrow> 'u net \<Rightarrow> 'u result" where
  "net_init hk devfs p qok pub st =
     (case run_inits (map (\<lambda>r st. (r, st)) devfs) st of
        (Inl e, st) \<Rightarrow> Some (Inl e, st)
      | (Inr _, st) \<Rightarrow>
          (case net_proto_init st of
             (Inl e, st) \<Rightarrow> Some (Inl e, st)
           | (Inr _, st) \<Rightarrow> do {
               (r, st) \<leftarrow> netdev_register hk lo_dev p qok pub st;
               case r of
                 Inl e \<Rightarrow> Some (if e \<noteq> EEXIST then Inl e else Inr (), st)
               | Inr _ \<Rightarrow> Some (Inr (), st) }))"

section \<open>Device files and HTTP\<close>

definition netdev_chr_write :: "'u hooks \<Rightarrow> u64 \<Rightarrow> bytes \<Rightarrow> 'u net \<Rightarrow> ((errno + nat) \<times> 'u net) option" where
  "netdev_chr_write hk dev buf st =
     (if dev = 0 \<or> length buf = 0 \<or> NET_ETH_FRAME_MAX < length buf then Some (Inl EINVAL, st)
      else do {
        (r, st) \<leftarrow> dev_send (net_receive_frame hk) dev buf st;
        case r of
          Inl e \<Rightarrow> Some (Inl e, st)
        | Inr _ \<Rightarrow> Some (Inr (length buf), upd_dev dev (\<lambda>d. d\<lparr>tx_packets := tx_packets d + 1\<rparr>) st) })"

text \<open>\<open>req\<close> is \<open>net_tcp_http_request\<close>: its result and the bytes it received.\<close>

definition net_http_get ::
    "'u hooks \<Rightarrow> errno + bytes \<Rightarrow> (u64 \<Rightarrow> u32 \<Rightarrow> 'u net \<Rightarrow> ((errno + unit) \<times> bytes \<times> 'u net) option) \<Rightarrow> bytes \<Rightarrow> nat \<Rightarrow> u64
      \<Rightarrow> 'u net \<Rightarrow> ((errno + net_http_response) \<times> bytes \<times> 'u net) option" where
  "net_http_get hk hosts req host len timeout_ms st =
     (if len = 0 then Some (Inl EINVAL, [], st)
      else do {
        (r, st) \<leftarrow> net_dns_resolve hk hosts host timeout_ms st;
        case r of
          Inl e \<Rightarrow> Some (Inl e, [], st)
        | Inr ip \<Rightarrow>
            let dev = fst (net_route ip st) in
            if dev = 0 then Some (Inl ENOENT, [], st)
            else do {
              (r, buf, st) \<leftarrow> req dev ip st;
              case r of
                Inl e \<Rightarrow> Some (Inl e, buf, st)
              | Inr _ \<Rightarrow> Some (net_http_parse buf, buf, st) } })"

section \<open>Reading the packets that are sent\<close>

lemma rd_Cons:
  "0 < i \<Longrightarrow> rd8 (x # xs) i = rd8 xs (i - 1)" "0 < i \<Longrightarrow> rd16 (x # xs) i = rd16 xs (i - 1)"
  "0 < i \<Longrightarrow> rd32 (x # xs) i = rd32 xs (i - 1)"
proof -
  show r8: "rd8 (x # xs) i = rd8 xs (i - 1)" if "0 < i" for i using that by (cases i) simp_all
  show "rd16 (x # xs) i = rd16 xs (i - 1)" "rd32 (x # xs) i = rd32 xs (i - 1)" if "0 < i" for i
    using that by (simp_all add: rd16_def rd32_def r8)
qed

lemma rd_block_append: "length xs = i \<Longrightarrow> rd_block (xs @ ys @ zs) i (length ys) = Some ys"
  by (simp add: rd_block_def)

lemma eth_frame:
  assumes "length m1 = 6" "length m2 = 6"
  shows "length (eth_hdr m1 m2 ty) = 14" "rd16 (eth_hdr m1 m2 ty @ r) 12 = Some ty"
    "rd_block (eth_hdr m1 m2 ty @ r) 6 6 = Some m2" "drop 14 (eth_hdr m1 m2 ty @ r) = r"
  using assms rd_block_append [of m1 6 m2 "st16 ty @ r"] by (simp_all add: eth_hdr_def rd16_append)

lemma ipv4_fields:
  "rd8 (ipv4_header n ident p s d @ r) 0 = Some 0x45"
  "rd16 (ipv4_header n ident p s d @ r) 2 = Some (htons (of_nat n))"
  "rd8 (ipv4_header n ident p s d @ r) 8 = Some 64"
  "rd8 (ipv4_header n ident p s d @ r) 9 = Some p"
  "rd32 (ipv4_header n ident p s d @ r) 12 = Some (htonl s)"
  "rd32 (ipv4_header n ident p s d @ r) 16 = Some (htonl d)"
proof -
  obtain a c where "ipv4_header n ident p s d @ r = [0x45, 0] @ st16 (htons (of_nat n)) @ (st16 a @ st16 0) @ [64, p] @ st16 c
      @ st32 (htonl s) @ st32 (htonl d) @ r"
    by (simp add: ipv4_header_def ipv4_bytes_def Let_def)
  note e = this
  show "rd8 (ipv4_header n ident p s d @ r) 0 = Some 0x45"
    "rd16 (ipv4_header n ident p s d @ r) 2 = Some (htons (of_nat n))"
    "rd8 (ipv4_header n ident p s d @ r) 8 = Some 64"
    "rd8 (ipv4_header n ident p s d @ r) 9 = Some p"
    "rd32 (ipv4_header n ident p s d @ r) 12 = Some (htonl s)"
    "rd32 (ipv4_header n ident p s d @ r) 16 = Some (htonl d)"
    unfolding e by (simp_all add: rd8_append rd16_append rd32_append rd_Cons)
qed

lemma udp_fields:
  "rd16 (udp_bytes h @ r) 0 = Some (udp_src_port h)" "rd16 (udp_bytes h @ r) 2 = Some (udp_dst_port h)"
  "rd16 (udp_bytes h @ r) 4 = Some (udp_hlen h)" "length (udp_bytes h) = 8"
  by (simp_all add: udp_bytes_def rd16_append)

lemma unat_of_nat16: "n < 65536 \<Longrightarrow> unat (of_nat n :: u16) = n"
  by (simp add: unat_of_nat)

text \<open>A well-formed IPv4 frame reaches the protocol dispatch with the packet it carries.\<close>

lemma receive_ipv4_frame:
  assumes "dev \<noteq> 0" "length m1 = 6" "length m2 = 6" "20 + length r < 65536"
    and f: "f = eth_hdr m1 m2 (htons ETH_P_IP) @ ipv4_header (20 + length r) ident p s d @ r"
  shows "receive_frame hk rcv dev f st =
    map_option snd (net_ipv4_receive hk rcv \<lparr>rx_dev = dev, rx_src_mac = m2,
       rx_ip = ipv4_header (20 + length r) ident p s d @ r, rx_ihl = 20, rx_ip_len = 20 + length r\<rparr> (netdev_enqueue_rx dev f st))"
proof -
  let ?ip = "ipv4_header (20 + length r) ident p s d @ r"
  note e = eth_frame [OF assms(2,3)]
  have len: "length f = 34 + length r" unfolding f using e(1) by simp
  have ihl: "unat ((0x45 :: u8) AND 0x0f) * 4 = 20" by simp
  have ipl: "unat (htons (htons (of_nat (20 + length r)))) = 20 + length r"
    unfolding net_bswap16_twice by (rule unat_of_nat16) (rule assms(4))
  have b: "map_option snd x = Option.bind x (\<lambda>(_, st). Some st)" for x :: "(rc \<times> 'a net) option" by (cases x) auto
  show ?thesis
    unfolding receive_frame_def Let_def len b
    using assms(1) ipl by (simp add: f e ipv4_fields ihl)
qed

lemma receive_udp_frame:
  assumes "dev \<noteq> 0" "length m1 = 6" "length (mac nd) = 6" "length data \<le> 1400"
    and ops: "find_protocol 17 (ipv4_protocols st) = Some ops" "ops_receive ops = udp_ipv4_receive_fn"
    and f: "f = udp_frame nd m1 s d sp dp data"
  shows "\<exists>rx. rx_dev rx = dev \<and> rx_src_mac rx = mac nd \<and>
    receive_frame hk rcv dev f st = map_option snd (net_udp_deliver hk \<lparr>dg_ipv4 = rx, payload = data, udp_len = 8 + length data,
      payload_len = length data, dg_src_ip = s, dg_dst_ip = d, dg_src_port = sp, dg_dst_port = dp\<rparr> (netdev_enqueue_rx dev f st))"
proof -
  let ?u = "\<lparr>udp_src_port = htons sp, udp_dst_port = htons dp, udp_hlen = htons (of_nat (8 + length data)), udp_checksum = 0\<rparr>"
  let ?r = "udp_bytes ?u @ data"
  let ?ip = "ipv4_header (20 + length ?r) 0x4448 17 s d @ ?r"
  let ?rx = "\<lparr>rx_dev = dev, rx_src_mac = mac nd, rx_ip = ?ip, rx_ihl = 20, rx_ip_len = 20 + length ?r\<rparr>"
  have lr: "length ?r = 8 + length data" by (simp add: udp_fields)
  have f': "f = eth_hdr m1 (mac nd) (htons ETH_P_IP) @ ipv4_header (20 + length ?r) 0x4448 17 s d @ ?r"
    unfolding f by (simp add: udp_frame_def Let_def udp_fields)
  have ul: "unat (htons (htons (of_nat (8 + length data)))) = 8 + length data"
    unfolding net_bswap16_twice by (rule unat_of_nat16) (use assms(4) in simp)
  have st: "ipv4_protocols (netdev_enqueue_rx dev f st) = ipv4_protocols st" by (simp add: netdev_enqueue_rx_def upd_dev_def)
  have bl: "rd_block (udp_bytes h @ data) 8 (length data) = Some data" for h
    using rd_block_append [of "udp_bytes h" 8 data "[]"] by (simp add: udp_fields)
  have dr: "drop 20 ?ip = ?r" by simp
  have "net_ipv4_receive hk rcv ?rx (netdev_enqueue_rx dev f st)
      = net_udp_deliver hk \<lparr>dg_ipv4 = ?rx, payload = data, udp_len = 8 + length data,
      payload_len = length data, dg_src_ip = s, dg_dst_ip = d, dg_src_port = sp, dg_dst_port = dp\<rparr> (netdev_enqueue_rx dev f st)"
    using ul by (simp add: net_ipv4_receive_def ipv4_fields st ops udp_ipv4_receive_def Let_def dr udp_fields bl)
  moreover have "receive_frame hk rcv dev f st = map_option snd (net_ipv4_receive hk rcv ?rx (netdev_enqueue_rx dev f st))"
    by (rule receive_ipv4_frame [OF assms(1-3) _ f']) (use assms(4) lr in simp)
  ultimately show ?thesis by (intro exI [of _ ?rx]) simp
qed

section \<open>No read outside the packet\<close>



text \<open>A parser step that ends with an error or at a position inside the message.\<close>

definition inside :: "nat \<Rightarrow> (errno + nat) option \<Rightarrow> bool" where
  "inside len r \<longleftrightarrow> (\<exists>e. r = Some (Inl e)) \<or> (\<exists>q. r = Some (Inr q) \<and> q \<le> len)"

lemma inside_simps [simp]: "inside len (Some (Inl e))" "inside len (Some (Inr q)) \<longleftrightarrow> q \<le> len" "\<not> inside len None"
  by (auto simp: inside_def)








section \<open>Reception returns\<close>


definition same_macs :: "'u net \<Rightarrow> 'u net \<Rightarrow> bool" where
  "same_macs st st' \<longleftrightarrow> (\<forall>d. mac (devs st' d) = mac (devs st d))"


















lemma enqueue_mac [simp]: "mac (devs (netdev_enqueue_rx dev f st) d) = mac (devs st d)"
  by (simp add: netdev_enqueue_rx_def upd_dev_def ring_put_def Let_def)


text \<open>The packet description \<open>net_receive_frame\<close> builds from a frame that passed its checks.\<close>

definition rx_of :: "u64 \<Rightarrow> bytes \<Rightarrow> u8 \<Rightarrow> u16 \<Rightarrow> bytes \<Rightarrow> net_ipv4_rx_info" where
  "rx_of dev f vi tln sm = \<lparr>rx_dev = dev, rx_src_mac = sm, rx_ip = drop 14 f, rx_ihl = unat (vi AND 0x0f) * 4, rx_ip_len = unat (ntohs tln)\<rparr>"


lemma rx_of_dev [simp]: "rx_dev (rx_of dev f vi tln sm) = dev"
  by (simp add: rx_of_def)







lemma same_macs_refl [simp]: "same_macs st st"
  by (simp add: same_macs_def)



lemma same_macs_upd: "same_macs st st' \<Longrightarrow> (\<And>d. mac (f d) = mac d) \<Longrightarrow> same_macs st (upd_dev dev f st')"
  by (simp add: same_macs_def upd_dev_def)

lemma same_macs_fields [simp]:
  "same_macs st (st'\<lparr>ping_result := pr\<rparr>) = same_macs st st'" "same_macs st (st'\<lparr>ping_ready := b\<rparr>) = same_macs st st'"
  by (simp_all add: same_macs_def)













definition macs_ok :: "'u net \<Rightarrow> bool" where
  "macs_ok st \<longleftrightarrow> (\<forall>d. length (mac (devs st d)) = 6)"



lemma macs_ok_fields [simp]: "macs_ok (st\<lparr>arrivals := rs\<rparr>) = macs_ok st" "macs_ok (st\<lparr>pit_ticks := t\<rparr>) = macs_ok st"
  by (simp_all add: macs_ok_def)


section \<open>The properties of the stack\<close>

text \<open>Layers above that ignore every packet.\<close>

definition quiet_hooks :: "'u hooks" where
  "quiet_hooks = \<lparr>tcp_receive = (\<lambda>rx st. Some (Inr 0, st)), socket_udp_receive = (\<lambda>dg st. Some (Inr 0, st)),
     raw_icmp_receive = (\<lambda>rx st. Some st)\<rparr>"







text \<open>C24.  A UDP datagram sent to the device's own address comes back: its frame is queued on the device and the
  handlers get one datagram with exactly the payload, the addresses and the ports that were sent.\<close>

theorem udp_local_delivery:
  assumes "dev \<noteq> 0" "length m = 6" "length (mac (devs st dev)) = 6" "length data \<le> 1400"
    and ops: "find_protocol 17 (ipv4_protocols st) = Some ops" "ops_receive ops = udp_ipv4_receive_fn"
  shows "\<exists>f rx. rx_dev rx = dev \<and> length f = 42 + length data \<and>
    net_send_ipv4_udp (net_receive_frame hk) dev m src (ipv4_addr (devs st dev)) sp dp data st =
    map_option (\<lambda>(r, st'). (Inr (), st')) (net_udp_deliver hk
      \<lparr>dg_ipv4 = rx, payload = data, udp_len = 8 + length data, payload_len = length data,
       dg_src_ip = src, dg_dst_ip = ipv4_addr (devs st dev), dg_src_port = sp, dg_dst_port = dp\<rparr>
      (netdev_enqueue_rx dev f (upd_dev dev (\<lambda>d. d\<lparr>tx_packets := tx_packets d + 1\<rparr>) st)))"
proof -
  let ?nd = "devs st dev" and ?st = "upd_dev dev (\<lambda>d. d\<lparr>tx_packets := tx_packets d + 1\<rparr>) st"
  let ?f = "udp_frame ?nd m src (ipv4_addr ?nd) sp dp data"
  have st: "ipv4_protocols ?st = ipv4_protocols st" by (simp add: upd_dev_def)
  obtain rx where rx: "rx_dev rx = dev" "receive_frame hk (receive_fuel hk (Suc 0)) dev ?f ?st = map_option snd (net_udp_deliver hk
      \<lparr>dg_ipv4 = rx, payload = data, udp_len = 8 + length data, payload_len = length data,
       dg_src_ip = src, dg_dst_ip = ipv4_addr ?nd, dg_src_port = sp, dg_dst_port = dp\<rparr> (netdev_enqueue_rx dev ?f ?st))"
    using receive_udp_frame [OF assms(1-4), of ?st ops ?f src "ipv4_addr ?nd" sp dp hk "receive_fuel hk (Suc 0)"] ops by (auto simp: st)
  have "length ?f = 42 + length data" using assms by (simp add: udp_frame_def Let_def udp_fields eth_frame)
  moreover have "map_option (Pair (Inr ())) (map_option snd x) = map_option (\<lambda>(r, st'). (Inr (), st')) x" for x :: "(rc \<times> 'a net) option"
    by (cases x) auto
  ultimately show ?thesis
    using assms(1,4) rx by (intro exI [of _ ?f] exI [of _ rx]) (simp add: net_send_ipv4_udp_def send_or_deliver_def net_receive_frame_def numeral_2_eq_2)
qed

theorem udp_local_delivery_witness:
  "let hk = quiet_hooks\<lparr>socket_udp_receive := (\<lambda>dg st. Some (Inr 1, st\<lparr>upper := payload dg # upper st\<rparr>))\<rparr>;
       st = (zero_net [])\<lparr>devs := (\<lambda>_. zero_dev\<lparr>ipv4_addr := 0x0a00020f\<rparr>), ipv4_protocols := [Some udp_ipv4_protocol],
              udp_handlers := [None, Some \<lparr>uops_addr = 0x60, uops_name = 0x6000, uops_receive = socket_udp_receive_fn\<rparr>]\<rparr>
   in \<exists>st'. net_send_ipv4_udp (net_receive_frame hk) 1 (replicate 6 0xff) 0x0a00020f 0x0a00020f 1000 2000 [7, 8, 9] st
        = Some (Inr (), st') \<and> upper st' = [[7, 8, 9]]"
proof -
  let ?hk = "quiet_hooks\<lparr>socket_udp_receive := (\<lambda>dg st. Some (Inr 1, st\<lparr>upper := payload dg # upper st\<rparr>))\<rparr> :: bytes list hooks"
  let ?st = "(zero_net [])\<lparr>devs := (\<lambda>_. zero_dev\<lparr>ipv4_addr := 0x0a00020f\<rparr>), ipv4_protocols := [Some udp_ipv4_protocol],
              udp_handlers := [None, Some \<lparr>uops_addr = 0x60, uops_name = 0x6000, uops_receive = socket_udp_receive_fn\<rparr>]\<rparr> :: bytes list net"
  have u: "udp_handlers (netdev_enqueue_rx d f s) = udp_handlers s" "upper (netdev_enqueue_rx d f s) = upper s" for d f and s :: "bytes list net"
    by (simp_all add: netdev_enqueue_rx_def upd_dev_def)
  show ?thesis
    unfolding Let_def
    using udp_local_delivery [of 1 "replicate 6 0xff" ?st "[7, 8, 9]" udp_ipv4_protocol ?hk "0x0a00020f" 1000 2000]
    by (fastforce simp: zero_dev_def udp_ipv4_protocol_def net_udp_deliver_def call_udp_handler_def u upd_dev_def zero_net_def)
qed



section \<open>Registration tables\<close>

text \<open>A registry: a table of entries by key that refuses a second entry for a key.\<close>

locale registry =
  fixes lookup :: "'k \<Rightarrow> 't \<Rightarrow> 'v option" and register :: "'v \<Rightarrow> 't \<Rightarrow> errno + 't" and key :: "'v \<Rightarrow> 'k"
  assumes register_fresh: "register v t = Inr t' \<Longrightarrow> lookup (key v) t = None"
    and lookup_register: "register v t = Inr t' \<Longrightarrow> lookup k t' = (if k = key v then Some v else lookup k t)"
begin

primrec register_all :: "'v list \<Rightarrow> 't \<Rightarrow> errno + 't" where
  "register_all [] t = Inr t"
| "register_all (v # vs) t = (case register v t of Inl e \<Rightarrow> Inl e | Inr t' \<Rightarrow> register_all vs t')"

lemma register_all_lookup:
  "register_all vs t = Inr t' \<Longrightarrow> distinct (map key vs) \<and> (\<forall>v \<in> set vs. lookup (key v) t = None)
    \<and> lookup k t' = (case find (\<lambda>v. key v = k) vs of Some v \<Rightarrow> Some v | None \<Rightarrow> lookup k t)"
proof (induction vs arbitrary: t)
  case (Cons v vs)
  then obtain t1 where t1: "register v t = Inr t1" "register_all vs t1 = Inr t'" by (auto split: sum.splits)
  have l: "lookup k' t1 = (if k' = key v then Some v else lookup k' t)" for k' by (rule lookup_register [OF t1(1)])
  note IH = Cons(1) [OF t1(2)]
  have ks: "\<forall>v' \<in> set vs. key v' \<noteq> key v \<and> lookup (key v') t = None" using IH l by (metis option.distinct(1))
  then have "find (\<lambda>w. key w = key v) vs = None" by (auto simp: find_None_iff)
  then show ?case using IH ks l [of k] register_fresh [OF t1(1)] by (auto split: option.splits)
qed simp

end

lemma find_protocol_None: "find_protocol p ss = None \<longleftrightarrow> (\<forall>s \<in> set ss. case s of Some cur \<Rightarrow> protocol cur \<noteq> p | None \<Rightarrow> True)"
  by (induction p ss rule: find_protocol.induct) auto

lemma find_protocol_free_slot:
  "free_slot ss = Some i \<Longrightarrow> find_protocol (protocol ops) ss = None \<Longrightarrow>
    find_protocol p (ss[i := Some ops]) = (if p = protocol ops then Some ops else find_protocol p ss)"
  by (induction ss arbitrary: i rule: free_slot.induct) (auto split: if_splits)

definition register_protocol :: "net_ipv4_protocol_ops \<Rightarrow> net_ipv4_protocol_ops option list \<Rightarrow> errno + net_ipv4_protocol_ops option list" where
  "register_protocol ops = register_ops (\<lambda>cur. ops_addr cur = ops_addr ops \<or> protocol cur = protocol ops) ops"

interpretation protocols: registry find_protocol register_protocol protocol
proof unfold_locales
  fix v t t'
  assume r: "register_protocol v t = Inr t'"
  then have ne: "\<not> (\<exists>s \<in> set t. case s of Some cur \<Rightarrow> ops_addr cur = ops_addr v \<or> protocol cur = protocol v | None \<Rightarrow> False)"
    by (auto simp: register_protocol_def register_ops_def split: if_splits)
  then show none: "find_protocol (protocol v) t = None" unfolding find_protocol_None by (fastforce split: option.splits)
  fix k
  obtain i where "free_slot t = Some i" "t' = t[i := Some v]"
    using r ne by (auto simp: register_protocol_def register_ops_def split: if_splits option.splits)
  then show "find_protocol k t' = (if k = protocol v then Some v else find_protocol k t)" using find_protocol_free_slot none by simp
qed

lemma replicate_8: "replicate 8 x = [x, x, x, x, x, x, x, x]"
  by (simp add: numeral_eq_Suc)

text \<open>The dispatch table after initialisation: protocol registration never replaces a handler, a successful one makes
  exactly the new handler reachable, and on the zero-initialised tables \<open>net_proto_init\<close> succeeds, after which UDP, ICMP and
  TCP packets reach their handlers, other protocols none, and a second initialisation changes nothing.\<close>

theorem net_proto_init_dispatch:
  "(case net_ipv4_register_protocol ops st of
      (Inl e, st') \<Rightarrow> st' = st
    | (Inr _, st') \<Rightarrow> find_protocol (protocol ops) (ipv4_protocols st) = None
        \<and> (\<forall>p. find_protocol p (ipv4_protocols st') = (if p = protocol ops then Some ops else find_protocol p (ipv4_protocols st))))
   \<and> (\<exists>st'. net_proto_init (zero_net u) = (Inr (), st') \<and> net_proto_init st' = (Inr (), st')
        \<and> (\<forall>p. find_protocol p (ipv4_protocols st') = (if p = IP_PROTO_UDP then Some udp_ipv4_protocol
             else if p = IP_PROTO_ICMP then Some icmp_ipv4_protocol else if p = IP_PROTO_TCP then Some tcp_ipv4_protocol else None)))"
proof (rule conjI, goal_cases)
  case 1
  show ?case
    using protocols.register_fresh [of ops "ipv4_protocols st"] protocols.lookup_register [of ops "ipv4_protocols st"]
    by (auto simp: net_ipv4_register_protocol_def register_protocol_def split: sum.splits)
next
  case 2
  let ?t = "[Some udp_ipv4_protocol, Some icmp_ipv4_protocol, Some tcp_ipv4_protocol, None, None, None, None, None]"
  let ?h = "[Some dhcp_udp_handler, Some dns_udp_handler, None, None, None, None, None, None]"
  note defs = udp_ipv4_protocol_def icmp_ipv4_protocol_def tcp_ipv4_protocol_def dhcp_udp_handler_def dns_udp_handler_def
  let ?st = "(zero_net u)\<lparr>ipv4_protocols := ?t, udp_handlers := ?h, net_proto_ready := True\<rparr>"
  have "net_proto_init (zero_net u) = (Inr (), ?st)"
    by (simp add: net_proto_init_def zero_net_def net_ipv4_register_protocol_def net_udp_register_handler_def register_ops_def
        replicate_8 defs)
  moreover have "net_proto_init ?st = (Inr (), ?st)" by (simp add: net_proto_init_def)
  moreover have "find_protocol p (ipv4_protocols ?st) = (if p = IP_PROTO_UDP then Some udp_ipv4_protocol
             else if p = IP_PROTO_ICMP then Some icmp_ipv4_protocol else if p = IP_PROTO_TCP then Some tcp_ipv4_protocol else None)" for p
    by (auto simp: udp_ipv4_protocol_def icmp_ipv4_protocol_def tcp_ipv4_protocol_def)
  ultimately show ?case by blast
qed

end
