(* ===== verification/Tcp.thy ===== *)
theory Tcp
  imports NetStack
begin

unbundle bit_operations_syntax

text \<open>
  TCP, \<open>kernel/src/net/proto/tcp.c\<close>: connections and listeners, the receive buffer, reception of segments,
  and the calls that connect, send, receive and close.

  The state is the layer \<open>upper\<close> of the network state: connection structures by address with the order of the list
  \<open>tcp_conns\<close>, the listeners, the outcomes of the allocations to come, and the state of the socket layer above.
  Handlers of listeners are functions of the environment, called by their address.  Sizes of buffers are natural
  numbers.  Reading outside a packet, writing outside a buffer and freeing memory that is not of the heap are
  \<open>None\<close>.  Waking sleeping threads and the log are left out.
\<close>

section \<open>State\<close>

abbreviation (input) TCP_RST :: u8 where "TCP_RST \<equiv> 0x04"
abbreviation (input) TCP_PASSIVE_RESPONSE_CAP :: nat where "TCP_PASSIVE_RESPONSE_CAP \<equiv> 32768"
abbreviation (input) TCP_ACTIVE_RX_CAP :: nat where "TCP_ACTIVE_RX_CAP \<equiv> 4194304"
abbreviation (input) TCP_RCVBUF_MIN :: nat where "TCP_RCVBUF_MIN \<equiv> 65536"
abbreviation (input) TCP_RCVBUF_MAX :: nat where "TCP_RCVBUF_MAX \<equiv> 4194304"
abbreviation (input) TCP_DELAYED_ACK_SEGMENTS :: u32 where "TCP_DELAYED_ACK_SEGMENTS \<equiv> 2"
abbreviation (input) TCP_SEGMENT_DATA_MAX :: nat where "TCP_SEGMENT_DATA_MAX \<equiv> 1460"

text \<open>\<open>rx_buf\<close>: no buffer, one of the heap, or the memory the caller of \<open>net_tcp_http_request\<close> passed in.\<close>

datatype rx_mem = NoBuf | HeapBuf bytes | CallerBuf bytes

fun mem_bytes :: "rx_mem \<Rightarrow> bytes" where
  "mem_bytes NoBuf = []"
| "mem_bytes (HeapBuf b) = b"
| "mem_bytes (CallerBuf b) = b"

fun set_mem_bytes :: "bytes \<Rightarrow> rx_mem \<Rightarrow> rx_mem" where
  "set_mem_bytes b NoBuf = NoBuf"
| "set_mem_bytes b (HeapBuf _) = HeapBuf b"
| "set_mem_bytes b (CallerBuf _) = CallerBuf b"

record tcp_conn =
  c_dev :: u64
  c_remote_ip :: u32
  c_remote_port :: u16
  c_local_port :: u16
  c_seq :: u32
  c_ack :: u32
  c_peer_mac :: bytes
  c_rx_buf :: rx_mem
  c_rx_cap :: nat
  c_rx_len :: nat
  c_rx_head :: nat
  c_rcv_wscale :: u8
  c_snd_wscale :: u8
  c_peer_wscale_seen :: bool
  c_sack_permitted :: bool
  c_rx_since_ack :: u32
  c_rx_full_events :: u32
  c_handler :: u64
  c_accept_handler :: u64
  c_handler_ctx :: u64
  c_passive :: bool
  c_connected :: bool
  c_closed :: bool
  c_error :: bool
  c_error_reported :: bool
  c_read_shutdown :: bool
  c_write_shutdown :: bool
  c_heap_allocated :: bool

record tcp_listener =
  l_local_ip :: u32
  l_port :: u16
  l_handler :: u64
  l_accept_handler :: u64
  l_ctx :: u64

record 'v tcp =
  conn_at :: "u64 \<Rightarrow> tcp_conn"
  tcp_conns :: "u64 list"
  tcp_listeners :: "tcp_listener list"
  fresh_conn :: u64
  allocs :: "bool list"
  sockets :: 'v

type_synonym 'v tnet = "'v tcp net"

text \<open>What the handlers do: the handler of a listener is given the payload and returns its result, the response buffer and
  the response length; an accept handler returns its result.  \<open>interrupted\<close>: a signal is pending.\<close>

record 'v tcp_env =
  run_handler :: "u64 \<Rightarrow> u64 \<Rightarrow> u32 \<Rightarrow> u16 \<Rightarrow> bytes \<Rightarrow> u64 \<Rightarrow> 'v tnet \<Rightarrow> int \<times> bytes \<times> nat \<times> 'v tnet"
  run_accept :: "u64 \<Rightarrow> u64 \<Rightarrow> u32 \<Rightarrow> u16 \<Rightarrow> u64 \<Rightarrow> u64 \<Rightarrow> 'v tnet \<Rightarrow> int \<times> 'v tnet"
  interrupted :: "'v tnet \<Rightarrow> bool"

definition zero_conn :: tcp_conn where
  "zero_conn = \<lparr>c_dev = 0, c_remote_ip = 0, c_remote_port = 0, c_local_port = 0, c_seq = 0, c_ack = 0,
     c_peer_mac = replicate 6 0, c_rx_buf = NoBuf, c_rx_cap = 0, c_rx_len = 0, c_rx_head = 0, c_rcv_wscale = 0,
     c_snd_wscale = 0, c_peer_wscale_seen = False, c_sack_permitted = False, c_rx_since_ack = 0, c_rx_full_events = 0,
     c_handler = 0, c_accept_handler = 0, c_handler_ctx = 0, c_passive = False, c_connected = False, c_closed = False,
     c_error = False, c_error_reported = False, c_read_shutdown = False, c_write_shutdown = False,
     c_heap_allocated = False\<rparr>"

definition conn :: "u64 \<Rightarrow> 'v tnet \<Rightarrow> tcp_conn" where
  "conn c st = conn_at (upper st) c"

definition upd_tcp :: "('v tcp \<Rightarrow> 'v tcp) \<Rightarrow> 'v tnet \<Rightarrow> 'v tnet" where
  "upd_tcp f st = st\<lparr>upper := f (upper st)\<rparr>"

definition upd_conn :: "u64 \<Rightarrow> (tcp_conn \<Rightarrow> tcp_conn) \<Rightarrow> 'v tnet \<Rightarrow> 'v tnet" where
  "upd_conn c f st = upd_tcp (\<lambda>t. t\<lparr>conn_at := (conn_at t)(c := f (conn_at t c))\<rparr>) st"

text \<open>\<open>kzalloc\<close>: whether it succeeds, and the address of a new connection structure.\<close>

definition alloc :: "'v tnet \<Rightarrow> bool \<times> 'v tnet" where
  "alloc st = (case allocs (upper st) of [] \<Rightarrow> (True, st) | a # as \<Rightarrow> (a, upd_tcp (\<lambda>t. t\<lparr>allocs := as\<rparr>) st))"

definition alloc_conn :: "'v tnet \<Rightarrow> u64 option \<times> 'v tnet" where
  "alloc_conn st =
     (let (ok, st) = alloc st; c = fresh_conn (upper st) in
      if ok then (Some c, upd_tcp (\<lambda>t. t\<lparr>fresh_conn := c + 1, conn_at := (conn_at t)(c := zero_conn)\<rparr>) st) else (None, st))"

text \<open>\<open>kfree(conn->rx_buf)\<close>.\<close>

definition free_buf :: "rx_mem \<Rightarrow> unit option" where
  "free_buf m = (case m of CallerBuf _ \<Rightarrow> None | _ \<Rightarrow> Some ())"

section \<open>The receive buffer\<close>

definition tcp_recv_window_full :: "tcp_conn \<Rightarrow> nat" where
  "tcp_recv_window_full cn = (if c_rx_buf cn = NoBuf \<or> c_rx_cap cn \<le> c_rx_len cn then 0 else c_rx_cap cn - c_rx_len cn)"

definition tcp_recv_window :: "tcp_conn \<Rightarrow> u16" where
  "tcp_recv_window cn =
     (let free = tcp_recv_window_full cn;
          free = (if c_peer_wscale_seen cn \<and> c_rcv_wscale cn \<noteq> 0 then drop_bit (unat (c_rcv_wscale cn)) free else free)
      in of_nat (if 65535 < free then 65535 else free))"

definition tcp_rx_tail :: "tcp_conn \<Rightarrow> nat" where
  "tcp_rx_tail cn = (c_rx_head cn + c_rx_len cn) mod c_rx_cap cn"

definition put_block :: "bytes \<Rightarrow> nat \<Rightarrow> bytes \<Rightarrow> bytes option" where
  "put_block b i xs = (if i + length xs \<le> length b then Some (take i b @ xs @ drop (i + length xs) b) else None)"

definition tcp_rx_push :: "bytes \<Rightarrow> tcp_conn \<Rightarrow> tcp_conn option" where
  "tcp_rx_push data cn = do {
     let tail = tcp_rx_tail cn;
     let first = (if length data < c_rx_cap cn - tail then length data else c_rx_cap cn - tail);
     b \<leftarrow> put_block (mem_bytes (c_rx_buf cn)) tail (take first data);
     b \<leftarrow> (if first < length data then put_block b 0 (drop first data) else Some b);
     Some (cn\<lparr>c_rx_buf := set_mem_bytes b (c_rx_buf cn), c_rx_len := c_rx_len cn + length data\<rparr>) }"

definition tcp_rx_pop :: "nat \<Rightarrow> tcp_conn \<Rightarrow> (bytes \<times> tcp_conn) option" where
  "tcp_rx_pop len cn = do {
     let first = (if len < c_rx_cap cn - c_rx_head cn then len else c_rx_cap cn - c_rx_head cn);
     x \<leftarrow> rd_block (mem_bytes (c_rx_buf cn)) (c_rx_head cn) first;
     y \<leftarrow> (if first < len then rd_block (mem_bytes (c_rx_buf cn)) 0 (len - first) else Some []);
     Some (x @ y, cn\<lparr>c_rx_head := (c_rx_head cn + len) mod c_rx_cap cn, c_rx_len := c_rx_len cn - len\<rparr>) }"

function wscale_from :: "nat \<Rightarrow> nat \<Rightarrow> nat" where
  "wscale_from cap shift = (if shift < 14 \<and> 65535 < drop_bit shift cap then wscale_from cap (shift + 1) else shift)"
  by pat_completeness auto
termination by (relation "measure (\<lambda>(cap, shift). 14 - shift)") auto

declare wscale_from.simps [simp del]

definition tcp_wscale_for_cap :: "nat \<Rightarrow> u8" where
  "tcp_wscale_for_cap cap = of_nat (wscale_from cap 0)"

text \<open>The options from \<open>pos\<close> on, \<open>left\<close> bytes of them; \<open>seg\<close> is the packet from the TCP header on.\<close>

function syn_options :: "bytes \<Rightarrow> nat \<Rightarrow> nat \<Rightarrow> tcp_conn \<Rightarrow> tcp_conn option" where
  "syn_options seg pos left cn =
     (if left = 0 then Some cn
      else do {
        kind \<leftarrow> rd8 seg pos;
        if kind = 0 then Some cn
        else if kind = 1 then syn_options seg (pos + 1) (left - 1) cn
        else if left < 2 then Some cn
        else do {
          n \<leftarrow> rd8 seg (pos + 1);
          if n < 2 \<or> left < unat n then Some cn
          else do {
            cn \<leftarrow> (if kind = 3 \<and> n = 3
                   then map_option (\<lambda>w. cn\<lparr>c_snd_wscale := (if 14 < w then 14 else w), c_peer_wscale_seen := True\<rparr>) (rd8 seg (pos + 2))
                   else if kind = 4 \<and> n = 2 then Some (cn\<lparr>c_sack_permitted := True\<rparr>) else Some cn);
            syn_options seg (pos + unat n) (left - unat n) cn } } })"
  by pat_completeness auto
termination by (relation "measure (\<lambda>(seg, pos, left, cn). left)") (auto simp: word_less_nat_alt)

declare syn_options.simps [simp del]

definition tcp_parse_syn_options :: "bytes \<Rightarrow> nat \<Rightarrow> tcp_conn \<Rightarrow> tcp_conn option" where
  "tcp_parse_syn_options seg hl cn = (if hl \<le> sizeof_tcp then Some cn else syn_options seg sizeof_tcp (hl - sizeof_tcp) cn)"

text \<open>The loop of \<open>tcp_rx_autotune\<close>; its start value is never \<open>0\<close>.\<close>

function grow_cap :: "nat \<Rightarrow> nat \<Rightarrow> nat \<Rightarrow> nat" where
  "grow_cap incoming rxlen cap =
     (if 0 < cap \<and> cap < TCP_RCVBUF_MAX \<and> cap - rxlen < incoming
      then grow_cap incoming rxlen (if TCP_RCVBUF_MAX < cap * 2 then TCP_RCVBUF_MAX else cap * 2) else cap)"
  by pat_completeness auto
termination by (relation "measure (\<lambda>(incoming, rxlen, cap). TCP_RCVBUF_MAX - cap)") auto

declare grow_cap.simps [simp del]

definition tcp_rx_autotune :: "u64 \<Rightarrow> nat \<Rightarrow> 'v tnet \<Rightarrow> 'v tcp result" where
  "tcp_rx_autotune c incoming st =
     (let cn = conn c st in
      if c_rx_buf cn = NoBuf then Some (Inl EINVAL, st)
      else if incoming \<le> tcp_recv_window_full cn then Some (Inr (), st)
      else if TCP_RCVBUF_MAX \<le> c_rx_cap cn then Some (Inr (), st)
      else let new_cap = grow_cap incoming (c_rx_len cn) (if c_rx_cap cn \<noteq> 0 then c_rx_cap cn else TCP_RCVBUF_MIN) in
        if new_cap \<le> c_rx_cap cn then Some (Inr (), st)
        else let (ok, st) = alloc st in
          if \<not> ok then Some (Inl ENOMEM, st)
          else do {
            (old, cn') \<leftarrow> (if c_rx_len cn \<noteq> 0 then tcp_rx_pop (c_rx_len cn) cn else Some ([], cn));
            free_buf (c_rx_buf cn');
            Some (Inr (), upd_conn c (\<lambda>_. cn'\<lparr>c_rx_buf := HeapBuf (old @ replicate (new_cap - length old) 0), c_rx_cap := new_cap,
              c_rx_head := 0, c_rx_len := c_rx_len cn, c_rcv_wscale := tcp_wscale_for_cap new_cap\<rparr>) st) })"

section \<open>Sending\<close>

definition tcp_send_seq :: "'v tcp receiver \<Rightarrow> u64 \<Rightarrow> u32 \<Rightarrow> u8 \<Rightarrow> bytes \<Rightarrow> 'v tnet \<Rightarrow> 'v tcp result" where
  "tcp_send_seq rcv c sq fl data st =
     (let cn = conn c st in
      net_send_ipv4_tcp_window rcv (c_dev cn) (c_peer_mac cn) (c_remote_ip cn) (c_local_port cn) (c_remote_port cn)
        sq (c_ack cn) fl (tcp_recv_window cn) data st)"

definition tcp_send_conn_packet :: "'v tcp receiver \<Rightarrow> u64 \<Rightarrow> u8 \<Rightarrow> bytes \<Rightarrow> 'v tnet \<Rightarrow> 'v tcp result" where
  "tcp_send_conn_packet rcv c fl data st = tcp_send_seq rcv c (c_seq (conn c st)) fl data st"

definition tcp_send_ack :: "'v tcp receiver \<Rightarrow> u64 \<Rightarrow> 'v tnet \<Rightarrow> 'v tcp result" where
  "tcp_send_ack rcv c st = tcp_send_conn_packet rcv c TCP_ACK [] st"

text \<open>The FIN three functions send: the sequence number is advanced first and put back when sending fails.\<close>

definition tcp_send_fin :: "'v tcp receiver \<Rightarrow> u64 \<Rightarrow> 'v tnet \<Rightarrow> 'v tcp result" where
  "tcp_send_fin rcv c st = do {
     let fin_seq = c_seq (conn c st);
     let st = upd_conn c (\<lambda>cn. cn\<lparr>c_seq := c_seq cn + 1\<rparr>) st;
     tcp_send_seq rcv c fin_seq (TCP_FIN OR TCP_ACK) [] st }"

definition net_tcp_conn_is_read_shutdown :: "u64 \<Rightarrow> 'v tnet \<Rightarrow> bool" where
  "net_tcp_conn_is_read_shutdown c st \<longleftrightarrow> c \<noteq> 0 \<and> c_read_shutdown (conn c st)"

definition net_tcp_conn_is_write_shutdown :: "u64 \<Rightarrow> 'v tnet \<Rightarrow> bool" where
  "net_tcp_conn_is_write_shutdown c st \<longleftrightarrow> c \<noteq> 0 \<and> c_write_shutdown (conn c st)"

definition net_tcp_conn_shutdown_read :: "u64 \<Rightarrow> 'v tnet \<Rightarrow> 'v tcp result" where
  "net_tcp_conn_shutdown_read c st =
     (if c = 0 then Some (Inl EINVAL, st) else Some (Inr (), upd_conn c (\<lambda>cn. cn\<lparr>c_read_shutdown := True\<rparr>) st))"

definition net_tcp_conn_shutdown_write :: "'v tcp receiver \<Rightarrow> u64 \<Rightarrow> 'v tnet \<Rightarrow> 'v tcp result" where
  "net_tcp_conn_shutdown_write rcv c st =
     (if c = 0 then Some (Inl EINVAL, st)
      else if c_write_shutdown (conn c st) then Some (Inr (), st)
      else if c_connected (conn c st) \<and> \<not> c_closed (conn c st) \<and> \<not> c_error (conn c st)
      then do {
        let fin_seq = c_seq (conn c st);
        (r, st) \<leftarrow> tcp_send_fin rcv c st;
        case r of
          Inl _ \<Rightarrow> Some (Inl EIO, upd_conn c (\<lambda>cn. cn\<lparr>c_seq := fin_seq\<rparr>) st)
        | Inr _ \<Rightarrow> Some (Inr (), upd_conn c (\<lambda>cn. cn\<lparr>c_write_shutdown := True\<rparr>) st) }
      else Some (Inr (), upd_conn c (\<lambda>cn. cn\<lparr>c_write_shutdown := True\<rparr>) st))"

text \<open>The pending error is reported once.\<close>

definition net_tcp_conn_error_code :: "u64 \<Rightarrow> 'v tnet \<Rightarrow> errno option \<times> 'v tnet" where
  "net_tcp_conn_error_code c st =
     (if c = 0 \<or> \<not> c_error (conn c st) then (None, st)
      else if c_error_reported (conn c st) then (None, st)
      else (Some ECONNRESET, upd_conn c (\<lambda>cn. cn\<lparr>c_error_reported := True\<rparr>) st))"

definition net_tcp_conn_local_port :: "u64 \<Rightarrow> 'v tnet \<Rightarrow> u16" where
  "net_tcp_conn_local_port c st = (if c \<noteq> 0 then c_local_port (conn c st) else 0)"

definition net_tcp_conn_has_pending_rx :: "u64 \<Rightarrow> 'v tnet \<Rightarrow> bool" where
  "net_tcp_conn_has_pending_rx c st \<longleftrightarrow> c \<noteq> 0 \<and> 0 < c_rx_len (conn c st)"

definition net_tcp_conn_is_closed :: "u64 \<Rightarrow> 'v tnet \<Rightarrow> bool" where
  "net_tcp_conn_is_closed c st \<longleftrightarrow> c \<noteq> 0 \<and> c_closed (conn c st)"

definition net_tcp_conn_has_error :: "u64 \<Rightarrow> 'v tnet \<Rightarrow> bool" where
  "net_tcp_conn_has_error c st \<longleftrightarrow> c \<noteq> 0 \<and> c_error (conn c st)"

section \<open>Connections and listeners\<close>

definition tcp_conn_add :: "u64 \<Rightarrow> 'v tnet \<Rightarrow> 'v tnet" where
  "tcp_conn_add c st = upd_tcp (\<lambda>t. t\<lparr>tcp_conns := c # tcp_conns t\<rparr>) st"

definition tcp_conn_remove :: "u64 \<Rightarrow> 'v tnet \<Rightarrow> 'v tnet" where
  "tcp_conn_remove c st = upd_tcp (\<lambda>t. t\<lparr>tcp_conns := remove1 c (tcp_conns t)\<rparr>) st"

text \<open>The fields of a received segment; \<open>seg\<close> are the bytes from the TCP header on.\<close>

record tcp_in =
  t_src_port :: u16
  t_dst_port :: u16
  t_seq :: u32
  t_ack :: u32
  t_data_off :: u8
  t_flags :: u8
  t_src_ip :: u32
  t_dst_ip :: u32

definition read_tcp :: "bytes \<Rightarrow> bytes \<Rightarrow> tcp_in option" where
  "read_tcp ip seg = do {
     sp \<leftarrow> rd16 seg 0; dp \<leftarrow> rd16 seg 2; sq \<leftarrow> rd32 seg 4; ak \<leftarrow> rd32 seg 8; off \<leftarrow> rd8 seg 12; fl \<leftarrow> rd8 seg 13;
     si \<leftarrow> rd32 ip 12; di \<leftarrow> rd32 ip 16;
     Some \<lparr>t_src_port = ntohs sp, t_dst_port = ntohs dp, t_seq = ntohl sq, t_ack = ntohl ak, t_data_off = off, t_flags = fl,
       t_src_ip = ntohl si, t_dst_ip = ntohl di\<rparr> }"

definition tcp_hlen :: "tcp_in \<Rightarrow> nat" where
  "tcp_hlen t = unat (drop_bit 4 (t_data_off t)) * 4"

definition tcp_conn_find :: "u64 \<Rightarrow> tcp_in \<Rightarrow> 'v tnet \<Rightarrow> u64 option" where
  "tcp_conn_find dev t st =
     find (\<lambda>c. c_dev (conn c st) = dev \<and> c_remote_ip (conn c st) = t_src_ip t \<and> c_remote_port (conn c st) = t_src_port t
       \<and> c_local_port (conn c st) = t_dst_port t) (tcp_conns (upper st))"

fun listener_from :: "u32 \<Rightarrow> u16 \<Rightarrow> tcp_listener list \<Rightarrow> tcp_listener option \<Rightarrow> tcp_listener option" where
  "listener_from ip port [] wildcard = wildcard"
| "listener_from ip port (l # ls) wildcard =
     (if l_port l \<noteq> port then listener_from ip port ls wildcard
      else if l_local_ip l = ip then Some l
      else if l_local_ip l = 0 then listener_from ip port ls (Some l)
      else listener_from ip port ls wildcard)"

definition tcp_listener_find :: "u32 \<Rightarrow> u16 \<Rightarrow> 'v tnet \<Rightarrow> tcp_listener option" where
  "tcp_listener_find ip port st = listener_from ip port (tcp_listeners (upper st)) None"

definition tcp_send_reset :: "'v tcp receiver \<Rightarrow> u64 \<Rightarrow> bytes \<Rightarrow> tcp_in \<Rightarrow> 'v tnet \<Rightarrow> 'v tnet option" where
  "tcp_send_reset rcv dev src_mac t st =
     (let (sq, ak, fl) = (if t_flags t AND TCP_ACK \<noteq> 0 then (t_ack t, 0, TCP_RST) else (0, t_seq t + 1, TCP_RST OR TCP_ACK))
      in map_option snd (net_send_ipv4_tcp rcv dev src_mac (t_src_ip t) (t_dst_port t) (t_src_port t) sq ak fl [] st))"

definition syn_opts :: "u8 \<Rightarrow> tcp_opts" where
  "syn_opts ws = \<lparr>include_mss = True, include_wscale = True, wscale = ws, include_sack_permitted = True\<rparr>"

definition tcp_handle_listen_syn ::
    "'v tcp receiver \<Rightarrow> u64 \<Rightarrow> bytes \<Rightarrow> bytes \<Rightarrow> tcp_in \<Rightarrow> tcp_listener \<Rightarrow> 'v tnet \<Rightarrow> 'v tnet option" where
  "tcp_handle_listen_syn rcv dev src_mac seg t l st =
     (case alloc_conn st of
        (None, st) \<Rightarrow> tcp_send_reset rcv dev src_mac t st
      | (Some c, st) \<Rightarrow> do {
          let cn = zero_conn\<lparr>c_dev := dev, c_remote_ip := t_src_ip t, c_remote_port := t_src_port t, c_local_port := t_dst_port t,
            c_seq := 0x4c595300 + (ucast (pit_ticks st AND 0xffff)), c_ack := t_seq t + 1, c_peer_mac := src_mac\<rparr>;
          cn \<leftarrow> tcp_parse_syn_options seg (tcp_hlen t) cn;
          let cn = cn\<lparr>c_handler := l_handler l, c_accept_handler := l_accept_handler l, c_handler_ctx := l_ctx l, c_passive := True\<rparr>;
          let (ok, cn, st) =
            (if c_accept_handler cn \<noteq> 0
             then let (ok, st) = alloc st
               in (ok, cn\<lparr>c_rx_cap := TCP_ACTIVE_RX_CAP, c_rcv_wscale := tcp_wscale_for_cap TCP_ACTIVE_RX_CAP,
                    c_rx_buf := HeapBuf (replicate TCP_ACTIVE_RX_CAP 0)\<rparr>, st)
             else (True, cn, st));
          if \<not> ok then tcp_send_reset rcv dev src_mac t st
          else do {
            let cn = cn\<lparr>c_rcv_wscale := tcp_wscale_for_cap (c_rx_cap cn), c_heap_allocated := True\<rparr>;
            let st = tcp_conn_add c (upd_conn c (\<lambda>_. cn) st);
            map_option snd (net_send_ipv4_tcp_window_opts rcv dev (c_peer_mac cn) (c_remote_ip cn) (c_local_port cn)
              (c_remote_port cn) (c_seq cn) (c_ack cn) (TCP_SYN OR TCP_ACK) (tcp_recv_window cn) (syn_opts (c_rcv_wscale cn)) [] st) } })"

text \<open>Removing and freeing a connection and its buffer.\<close>

definition tcp_close_passive :: "u64 \<Rightarrow> 'v tnet \<Rightarrow> 'v tnet option" where
  "tcp_close_passive c st = do {
     let st = tcp_conn_remove c st;
     free_buf (c_rx_buf (conn c st));
     Some st }"

function tcp_send_payload :: "'v tcp receiver \<Rightarrow> u64 \<Rightarrow> bytes \<Rightarrow> 'v tnet \<Rightarrow> 'v tcp result" where
  "tcp_send_payload rcv c data st =
     (if data = [] then Some (Inr (), st)
      else do {
        let chunk = take 1400 data;
        let sq = c_seq (conn c st);
        let st = upd_conn c (\<lambda>cn. cn\<lparr>c_seq := c_seq cn + of_nat (length chunk)\<rparr>) st;
        (r, st) \<leftarrow> tcp_send_seq rcv c sq (TCP_PSH OR TCP_ACK) chunk st;
        case r of
          Inl e \<Rightarrow> Some (Inl e, upd_conn c (\<lambda>cn. cn\<lparr>c_seq := sq\<rparr>) st)
        | Inr _ \<Rightarrow> tcp_send_payload rcv c (drop 1400 data) st })"
  by pat_completeness auto
termination by (relation "measure (\<lambda>(rcv, c, data, st). length data)") auto

declare tcp_send_payload.simps [simp del]

definition tcp_handle_passive_payload :: "'v tcp_env \<Rightarrow> 'v tcp receiver \<Rightarrow> u64 \<Rightarrow> bytes \<Rightarrow> 'v tnet \<Rightarrow> 'v tnet option" where
  "tcp_handle_passive_payload env rcv c data st =
     (let cn = conn c st in
      if c_handler cn = 0 then Some st
      else let (ok, st) = alloc st in
        if \<not> ok then Some st
        else do {
          let (r, response, response_len, st) =
            run_handler env (c_handler cn) (c_dev cn) (c_remote_ip cn) (c_remote_port cn) data (c_handler_ctx cn) st;
          let response_len = (if r \<noteq> 0 then 0 else if TCP_PASSIVE_RESPONSE_CAP < response_len then TCP_PASSIVE_RESPONSE_CAP else response_len);
          st \<leftarrow> (if response_len \<noteq> 0 then map_option snd (tcp_send_payload rcv c (take response_len response) st) else Some st);
          let fin_seq = c_seq (conn c st);
          (r, st) \<leftarrow> tcp_send_fin rcv c st;
          case r of
            Inl _ \<Rightarrow> Some (upd_conn c (\<lambda>cn. cn\<lparr>c_seq := fin_seq\<rparr>) st)
          | Inr _ \<Rightarrow> Some (upd_conn c (\<lambda>cn. cn\<lparr>c_closed := True\<rparr>) st) })"

section \<open>Reception\<close>

text \<open>A connection that came in through a listener and was not handed to a socket.\<close>

definition passive_receive :: "'v tcp_env \<Rightarrow> 'v tcp receiver \<Rightarrow> u64 \<Rightarrow> tcp_in \<Rightarrow> bytes \<Rightarrow> 'v tnet \<Rightarrow> 'v tnet option" where
  "passive_receive env rcv c t data st =
     (if \<not> c_connected (conn c st) \<or> t_seq t \<noteq> c_ack (conn c st) then Some st
      else if data \<noteq> []
      then tcp_handle_passive_payload env rcv c data (upd_conn c (\<lambda>cn. cn\<lparr>c_ack := c_ack cn + of_nat (length data)\<rparr>) st)
      else if t_flags t AND TCP_FIN \<noteq> 0
      then do {
        (_, st) \<leftarrow> tcp_send_ack rcv c (upd_conn c (\<lambda>cn. cn\<lparr>c_ack := c_ack cn + 1\<rparr>) st);
        tcp_close_passive c st }
      else if c_closed (conn c st) \<and> t_flags t AND TCP_ACK \<noteq> 0 then tcp_close_passive c st
      else Some st)"

text \<open>Payload for a connected socket.\<close>

definition queue_payload :: "'v tcp receiver \<Rightarrow> u64 \<Rightarrow> bytes \<Rightarrow> 'v tnet \<Rightarrow> 'v tnet option" where
  "queue_payload rcv c data st = do {
     (_, st) \<leftarrow> tcp_rx_autotune c (length data) st;
     if length data \<le> tcp_recv_window_full (conn c st)
     then do {
       cn \<leftarrow> tcp_rx_push data (conn c st);
       let cn = cn\<lparr>c_ack := c_ack cn + of_nat (length data), c_rx_since_ack := c_rx_since_ack cn + 1, c_rx_full_events := 0\<rparr>;
       if TCP_DELAYED_ACK_SEGMENTS \<le> c_rx_since_ack cn \<or> length data < TCP_SEGMENT_DATA_MAX \<or> c_rx_cap cn \<le> c_rx_len cn
       then map_option snd (tcp_send_ack rcv c (upd_conn c (\<lambda>_. cn\<lparr>c_rx_since_ack := 0\<rparr>) st))
       else Some (upd_conn c (\<lambda>_. cn) st) }
     else map_option snd (tcp_send_ack rcv c (upd_conn c (\<lambda>cn. cn\<lparr>c_rx_full_events := c_rx_full_events cn + 1\<rparr>) st)) }"

text \<open>A segment for an active connection, or for one that a socket has accepted.\<close>

definition active_receive :: "'v tcp receiver \<Rightarrow> u64 \<Rightarrow> bytes \<Rightarrow> tcp_in \<Rightarrow> bytes \<Rightarrow> 'v tnet \<Rightarrow> 'v tnet option" where
  "active_receive rcv c seg t data st =
     (if t_flags t AND (TCP_SYN OR TCP_ACK) = TCP_SYN OR TCP_ACK \<and> t_ack t = c_seq (conn c st) + 1
      then do {
        cn \<leftarrow> tcp_parse_syn_options seg (tcp_hlen t) (conn c st);
        let st = upd_conn c (\<lambda>_. cn\<lparr>c_ack := t_seq t + 1, c_seq := c_seq cn + 1, c_connected := True\<rparr>) st;
        map_option snd (tcp_send_ack rcv c st) }
      else if \<not> c_connected (conn c st) \<or> t_seq t \<noteq> c_ack (conn c st) then Some st
      else do {
        st \<leftarrow> (if data \<noteq> [] then queue_payload rcv c data st else Some st);
        if t_flags t AND TCP_FIN \<noteq> 0
        then do {
          (_, st) \<leftarrow> tcp_send_ack rcv c (upd_conn c (\<lambda>cn. cn\<lparr>c_ack := c_ack cn + 1\<rparr>) st);
          Some (upd_conn c (\<lambda>cn. cn\<lparr>c_closed := True\<rparr>) st) }
        else Some st })"

text \<open>\<open>net_tcp_receive\<close> once the connection is found.\<close>

definition tcp_conn_receive ::
    "'v tcp_env \<Rightarrow> 'v tcp receiver \<Rightarrow> u64 \<Rightarrow> bytes \<Rightarrow> tcp_in \<Rightarrow> bytes \<Rightarrow> 'v tnet \<Rightarrow> 'v tnet option" where
  "tcp_conn_receive env rcv c seg t data st =
     (if t_flags t AND 0x04 \<noteq> 0
      then let st = upd_conn c (\<lambda>cn. cn\<lparr>c_error := True, c_closed := True\<rparr>) st
        in if c_passive (conn c st) then tcp_close_passive c st else Some st
      else if c_passive (conn c st)
      then let (r, st) =
          (if \<not> c_connected (conn c st) \<and> t_flags t AND TCP_ACK \<noteq> 0 \<and> t_ack t = c_seq (conn c st) + 1
           then let st = upd_conn c (\<lambda>cn. cn\<lparr>c_seq := c_seq cn + 1, c_connected := True\<rparr>) st; cn = conn c st
             in if c_accept_handler cn \<noteq> 0
                then let (r, st) = run_accept env (c_accept_handler cn) (c_dev cn) (c_remote_ip cn) (c_remote_port cn) c (c_handler_ctx cn) st
                  in if r \<noteq> 0 then (r, st) else (0, upd_conn c (\<lambda>cn. cn\<lparr>c_passive := False\<rparr>) st)
                else (0, st)
           else (0, st))
        in if r \<noteq> 0 then tcp_close_passive c st
           else if c_passive (conn c st) then passive_receive env rcv c t data st
           else active_receive rcv c seg t data st
      else active_receive rcv c seg t data st)"

definition net_tcp_receive ::
    "'v tcp_env \<Rightarrow> 'v tcp receiver \<Rightarrow> u64 \<Rightarrow> bytes \<Rightarrow> bytes \<Rightarrow> nat \<Rightarrow> nat \<Rightarrow> 'v tnet \<Rightarrow> 'v tnet option" where
  "net_tcp_receive env rcv dev src_mac ip ihl ip_len st =
     (if ip_len < ihl + sizeof_tcp then Some st
      else do {
        let seg = drop ihl ip;
        t \<leftarrow> read_tcp ip seg;
        case tcp_conn_find dev t st of
          None \<Rightarrow>
            (case tcp_listener_find (t_dst_ip t) (t_dst_port t) st of
               Some l \<Rightarrow> if t_flags t AND TCP_SYN \<noteq> 0 then tcp_handle_listen_syn rcv dev src_mac seg t l st else Some st
             | None \<Rightarrow> tcp_send_reset rcv dev src_mac t st)
        | Some c \<Rightarrow>
            if tcp_hlen t < sizeof_tcp \<or> ip_len < ihl + tcp_hlen t then Some st
            else do {
              data \<leftarrow> rd_block seg (tcp_hlen t) (ip_len - ihl - tcp_hlen t);
              tcp_conn_receive env rcv c seg t data st } })"

definition tcp_ipv4_receive :: "'v tcp_env \<Rightarrow> 'v tcp receiver \<Rightarrow> net_ipv4_rx_info \<Rightarrow> 'v tnet \<Rightarrow> 'v tcp handled" where
  "tcp_ipv4_receive env rcv rx st =
     (if rx_dev rx = 0 then Some (Inl EINVAL, st)
      else map_option (Pair (Inr 1)) (net_tcp_receive env rcv (rx_dev rx) (rx_src_mac rx) (rx_ip rx) (rx_ihl rx) (rx_ip_len rx) st))"

text \<open>The stack with this TCP layer: a segment to an address of this machine is received while it is being sent, so the
  nesting is bounded by fuel.\<close>

primrec tcp_stack :: "'v tcp hooks \<Rightarrow> 'v tcp_env \<Rightarrow> nat \<Rightarrow> 'v tcp receiver" where
  "tcp_stack hk env 0 = (\<lambda>dev frame st. None)"
| "tcp_stack hk env (Suc k) =
     receive_frame (hk\<lparr>tcp_receive := tcp_ipv4_receive env (tcp_stack hk env k)\<rparr>) (tcp_stack hk env k)"

section \<open>Calls\<close>

text \<open>A loop that polls: it ends when \<open>stop\<close> holds or a signal is pending (result \<open>True\<close>), one round of arrivals per
  iteration; \<open>None\<close> when the arrivals end before.\<close>

fun poll_wait :: "'v tcp hooks \<Rightarrow> 'v tcp_env \<Rightarrow> ('v tnet \<Rightarrow> bool) \<Rightarrow> poll_round list \<Rightarrow> 'v tnet \<Rightarrow> (bool \<times> 'v tnet) option" where
  "poll_wait hk env stop rs st =
     (if stop st then Some (False, st)
      else if interrupted env st then Some (True, st)
      else case rs of
        [] \<Rightarrow> None
      | r # rs \<Rightarrow> do {
          st \<leftarrow> receive_all hk (delivered r) (st\<lparr>arrivals := rs\<rparr>);
          poll_wait hk env stop rs (st\<lparr>pit_ticks := clock_after r\<rparr>) })"

declare poll_wait.simps [simp del]

definition net_tcp_connect_ip ::
    "'v tcp hooks \<Rightarrow> 'v tcp_env \<Rightarrow> u64 \<Rightarrow> u32 \<Rightarrow> u16 \<Rightarrow> u64 \<Rightarrow> 'v tnet \<Rightarrow> ((errno + u64) \<times> 'v tnet) option" where
  "net_tcp_connect_ip hk env dev dst_ip port timeout_ms st =
     (if dev = 0 \<or> dst_ip = 0 \<or> port = 0 then Some (Inl EINVAL, st)
      else let d = devs st dev; offlink = (dst_ip AND ipv4_netmask d \<noteq> ipv4_addr d AND ipv4_netmask d) in
        if offlink \<and> ipv4_gateway d = 0 then Some (Inl ENOENT, st)
        else case alloc_conn st of
          (None, st) \<Rightarrow> Some (Inl ENOMEM, st)
        | (Some c, st) \<Rightarrow>
            let cn = zero_conn\<lparr>c_dev := dev, c_remote_ip := dst_ip, c_remote_port := port,
                  c_local_port := 40000 + ucast (pit_ticks st AND 0x3fff), c_seq := 0x4c595200 + ucast (pit_ticks st AND 0xffff),
                  c_heap_allocated := True, c_rx_cap := TCP_ACTIVE_RX_CAP, c_rcv_wscale := tcp_wscale_for_cap TCP_ACTIVE_RX_CAP\<rparr>;
                (ok, st) = alloc st
            in if \<not> ok then Some (Inl ENOMEM, st)
            else do {
              let st = upd_conn c (\<lambda>_. cn\<lparr>c_rx_buf := HeapBuf (replicate TCP_ACTIVE_RX_CAP 0)\<rparr>) st;
              (r, st) \<leftarrow> net_arp_resolve hk dev (if offlink then ipv4_gateway d else dst_ip) timeout_ms st;
              case r of
                Inl e \<Rightarrow> Some (Inl e, st)
              | Inr m \<Rightarrow> do {
                  let st = tcp_conn_add c (upd_conn c (\<lambda>cn. cn\<lparr>c_peer_mac := m\<rparr>) st);
                  let cn = conn c st;
                  (r, st) \<leftarrow> net_send_ipv4_tcp_window_opts (net_receive_frame hk) dev (c_peer_mac cn) dst_ip (c_local_port cn) port
                    (c_seq cn) 0 TCP_SYN (tcp_recv_window cn) (syn_opts (c_rcv_wscale cn)) [] st;
                  case r of
                    Inl e \<Rightarrow> Some (Inl e, tcp_conn_remove c st)
                  | Inr _ \<Rightarrow> do {
                      let until = pit_ticks st + net_timeout_ticks timeout_ms st;
                      (sig, st) \<leftarrow> poll_wait hk env (\<lambda>st. c_connected (conn c st) \<or> c_error (conn c st) \<or> until \<le> pit_ticks st) (arrivals st) st;
                      if sig then Some (Inl EINTR, tcp_conn_remove c st)
                      else if c_error (conn c st) then Some (Inl ENOENT, tcp_conn_remove c st)
                      else if \<not> c_connected (conn c st) then Some (Inl ETIMEDOUT, tcp_conn_remove c st)
                      else Some (Inr c, st) } } })"

definition net_tcp_connect ::
    "'v tcp hooks \<Rightarrow> 'v tcp_env \<Rightarrow> errno + bytes \<Rightarrow> bytes \<Rightarrow> u16 \<Rightarrow> u64 \<Rightarrow> 'v tnet \<Rightarrow> ((errno + u64) \<times> 'v tnet) option" where
  "net_tcp_connect hk env hosts host port timeout_ms st =
     (if port = 0 then Some (Inl EINVAL, st)
      else let dev = net_default_dev st in
        if dev = 0 then Some (Inl ENOENT, st)
        else do {
          (r, st) \<leftarrow> net_dns_resolve_dev hk hosts dev host timeout_ms st;
          case r of Inl e \<Rightarrow> Some (Inl e, st) | Inr ip \<Rightarrow> net_tcp_connect_ip hk env dev ip port timeout_ms st })"

definition net_tcp_send :: "'v tcp receiver \<Rightarrow> u64 \<Rightarrow> bytes \<Rightarrow> 'v tnet \<Rightarrow> ((errno + nat) \<times> 'v tnet) option" where
  "net_tcp_send rcv c data st =
     (if c = 0 then Some (Inl EINVAL, st)
      else if \<not> c_connected (conn c st) \<or> c_closed (conn c st) \<or> c_error (conn c st) then Some (Inl ENOENT, st)
      else if c_write_shutdown (conn c st) then Some (Inl EPIPE, st)
      else do {
        (r, st) \<leftarrow> tcp_send_payload rcv c data st;
        case r of Inl e \<Rightarrow> Some (Inl e, st) | Inr _ \<Rightarrow> Some (Inr (length data), st) })"

text \<open>The part of \<open>net_tcp_recv\<close> after the waiting loop.\<close>

definition recv_take :: "'v tcp receiver \<Rightarrow> u64 \<Rightarrow> nat \<Rightarrow> 'v tnet \<Rightarrow> ((errno + bytes) \<times> 'v tnet) option" where
  "recv_take rcv c cap st =
     (if c_rx_len (conn c st) \<noteq> 0
      then do {
        (data, cn) \<leftarrow> tcp_rx_pop (if cap < c_rx_len (conn c st) then cap else c_rx_len (conn c st)) (conn c st);
        let st = upd_conn c (\<lambda>_. cn) st;
        if \<not> c_closed cn \<and> \<not> c_error cn
        then map_option (\<lambda>(_, st). (Inr data, st)) (tcp_send_ack rcv c (upd_conn c (\<lambda>cn. cn\<lparr>c_rx_since_ack := 0\<rparr>) st))
        else Some (Inr data, st) }
      else if c_error (conn c st) then Some (Inl ENOENT, st)
      else if c_closed (conn c st) then Some (Inr [], st)
      else Some (Inl ETIMEDOUT, st))"

definition net_tcp_recv ::
    "'v tcp hooks \<Rightarrow> 'v tcp_env \<Rightarrow> u64 \<Rightarrow> nat \<Rightarrow> u64 \<Rightarrow> 'v tnet \<Rightarrow> ((errno + bytes) \<times> 'v tnet) option" where
  "net_tcp_recv hk env c cap timeout_ms st =
     (let infinite = (timeout_ms = - 1); immediate = (timeout_ms = 0) in
      if c = 0 \<or> cap = 0 then Some (Inl EINVAL, st)
      else if \<not> c_connected (conn c st) then Some (Inl ENOENT, st)
      else if c_read_shutdown (conn c st) then Some (Inr [], st)
      else let until = pit_ticks st + net_timeout_ticks timeout_ms st;
               arrived = (\<lambda>st. c_rx_len (conn c st) \<noteq> 0 \<or> c_closed (conn c st) \<or> c_error (conn c st))
        in if immediate \<and> \<not> arrived st then Some (Inl ETIMEDOUT, st)
           else do {
             (_, st) \<leftarrow> poll_wait hk env (\<lambda>st. arrived st \<or> immediate \<or> \<not> (infinite \<or> pit_ticks st < until)) (arrivals st) st;
             recv_take (net_receive_frame hk) c cap st })"

definition net_tcp_close :: "'v tcp receiver \<Rightarrow> u64 \<Rightarrow> 'v tnet \<Rightarrow> 'v tnet option" where
  "net_tcp_close rcv c st =
     (if c = 0 then Some st
      else do {
        st \<leftarrow> (if c_connected (conn c st) \<and> \<not> c_closed (conn c st) \<and> \<not> c_error (conn c st) \<and> \<not> c_write_shutdown (conn c st)
               then map_option snd (tcp_send_fin rcv c st) else Some st);
        let st = tcp_conn_remove c st;
        free_buf (c_rx_buf (conn c st));
        Some st })"

text \<open>The request: \<open>snprintf\<close> into 512 bytes, an error when it does not fit.\<close>

definition bytes_of :: "string \<Rightarrow> bytes" where
  "bytes_of s = map (\<lambda>c. of_nat (of_char c)) s"

definition http_request_text :: "bytes \<Rightarrow> bytes \<Rightarrow> bytes" where
  "http_request_text host path =
     bytes_of ''GET '' @ path @ bytes_of '' HTTP/1.0'' @ [13, 10] @ bytes_of ''Host: '' @ host @ [13, 10]
     @ bytes_of ''Connection: close'' @ [13, 10] @ bytes_of ''User-Agent: lyr/0'' @ [13, 10, 13, 10]"

text \<open>\<open>buf\<close> is the caller's buffer, of \<open>length buf\<close> bytes; \<open>c\<close> is the address of the connection on the stack.  The result is
  the number of bytes received.\<close>

definition net_tcp_http_request ::
    "'v tcp hooks \<Rightarrow> u64 \<Rightarrow> u64 \<Rightarrow> u32 \<Rightarrow> bytes \<Rightarrow> bytes \<Rightarrow> bytes \<Rightarrow> u64 \<Rightarrow> 'v tnet \<Rightarrow> ((errno + nat) \<times> 'v tnet) option" where
  "net_tcp_http_request hk c dev dst_ip host path buf timeout_ms st =
     (if dev = 0 \<or> buf = [] then Some (Inl EINVAL, st)
      else let d = devs st dev; offlink = (dst_ip AND ipv4_netmask d \<noteq> ipv4_addr d AND ipv4_netmask d) in
        if offlink \<and> ipv4_gateway d = 0 then Some (Inl ENOENT, st)
        else do {
          let cn = zero_conn\<lparr>c_dev := dev, c_remote_ip := dst_ip, c_remote_port := 80,
                c_local_port := 40000 + ucast (pit_ticks st AND 0x3fff), c_seq := 0x4c595200 + ucast (pit_ticks st AND 0xffff),
                c_rx_buf := CallerBuf buf, c_rx_cap := length buf, c_rcv_wscale := tcp_wscale_for_cap (length buf)\<rparr>;
          (r, st) \<leftarrow> net_arp_resolve hk dev (if offlink then ipv4_gateway d else dst_ip) timeout_ms (upd_conn c (\<lambda>_. cn) st);
          case r of
            Inl e \<Rightarrow> Some (Inl e, st)
          | Inr m \<Rightarrow> do {
              let st = tcp_conn_add c (upd_conn c (\<lambda>cn. cn\<lparr>c_peer_mac := m\<rparr>) st);
              let cn = conn c st;
              (r, st) \<leftarrow> net_send_ipv4_tcp_window_opts (net_receive_frame hk) dev m dst_ip (c_local_port cn) 80 (c_seq cn) 0 TCP_SYN
                (tcp_recv_window cn) (syn_opts (c_rcv_wscale cn)) [] st;
              case r of
                Inl e \<Rightarrow> Some (Inl e, tcp_conn_remove c st)
              | Inr _ \<Rightarrow> do {
                  st \<leftarrow> net_poll_until hk (pit_ticks st + net_timeout_ticks timeout_ms st) (\<lambda>st. c_connected (conn c st)) st;
                  let req = http_request_text host path;
                  if \<not> c_connected (conn c st) \<or> c_error (conn c st) then Some (Inl ENOENT, tcp_conn_remove c st)
                  else if 512 \<le> length req then Some (Inl EINVAL, tcp_conn_remove c st)
                  else do {
                    let cn = conn c st;
                    (r, st) \<leftarrow> net_send_ipv4_tcp (net_receive_frame hk) dev (c_peer_mac cn) dst_ip (c_local_port cn) 80 (c_seq cn) (c_ack cn)
                      (TCP_PSH OR TCP_ACK) req st;
                    case r of
                      Inl e \<Rightarrow> Some (Inl e, tcp_conn_remove c st)
                    | Inr _ \<Rightarrow> do {
                        let st = upd_conn c (\<lambda>cn. cn\<lparr>c_seq := c_seq cn + of_nat (length req)\<rparr>) st;
                        st \<leftarrow> net_poll_until hk (pit_ticks st + net_timeout_ticks timeout_ms st) (\<lambda>st. c_closed (conn c st)) st;
                        if c_error (conn c st) then Some (Inl ENOENT, tcp_conn_remove c st)
                        else Some (if c_rx_len (conn c st) \<noteq> 0 then Inr (c_rx_len (conn c st)) else Inl ENOENT, tcp_conn_remove c st) } } } } })"

section \<open>Listening\<close>

definition tcp_listener_conflicts :: "u32 \<Rightarrow> u16 \<Rightarrow> 'v tnet \<Rightarrow> bool" where
  "tcp_listener_conflicts ip port st \<longleftrightarrow>
     (\<exists>l \<in> set (tcp_listeners (upper st)). l_port l = port \<and> (l_local_ip l = 0 \<or> ip = 0 \<or> l_local_ip l = ip))"

definition tcp_listener_add :: "u32 \<Rightarrow> u16 \<Rightarrow> u64 \<Rightarrow> u64 \<Rightarrow> u64 \<Rightarrow> 'v tnet \<Rightarrow> (errno + unit) \<times> 'v tnet" where
  "tcp_listener_add ip port h ah ctx st =
     (if port = 0 \<or> h = 0 \<and> ah = 0 then (Inl EINVAL, st)
      else if tcp_listener_conflicts ip port st then (Inl EEXIST, st)
      else let (ok, st) = alloc st in
        if \<not> ok then (Inl ENOMEM, st)
        else (Inr (), upd_tcp (\<lambda>t. t\<lparr>tcp_listeners :=
          \<lparr>l_local_ip = ip, l_port = port, l_handler = h, l_accept_handler = ah, l_ctx = ctx\<rparr> # tcp_listeners t\<rparr>) st))"

definition net_tcp_listen :: "u16 \<Rightarrow> u64 \<Rightarrow> u64 \<Rightarrow> 'v tnet \<Rightarrow> (errno + unit) \<times> 'v tnet" where
  "net_tcp_listen port h ctx = tcp_listener_add 0 port h 0 ctx"

definition net_tcp_listen_addr :: "u32 \<Rightarrow> u16 \<Rightarrow> u64 \<Rightarrow> u64 \<Rightarrow> 'v tnet \<Rightarrow> (errno + unit) \<times> 'v tnet" where
  "net_tcp_listen_addr ip port h ctx = tcp_listener_add ip port h 0 ctx"

definition net_tcp_listen_accept :: "u16 \<Rightarrow> u64 \<Rightarrow> u64 \<Rightarrow> 'v tnet \<Rightarrow> (errno + unit) \<times> 'v tnet" where
  "net_tcp_listen_accept port h ctx = tcp_listener_add 0 port 0 h ctx"

definition net_tcp_listen_accept_addr :: "u32 \<Rightarrow> u16 \<Rightarrow> u64 \<Rightarrow> u64 \<Rightarrow> 'v tnet \<Rightarrow> (errno + unit) \<times> 'v tnet" where
  "net_tcp_listen_accept_addr ip port h ctx = tcp_listener_add ip port 0 h ctx"

section \<open>The receive buffer is a queue of bytes\<close>

definition rx_ok :: "tcp_conn \<Rightarrow> bool" where
  "rx_ok cn \<longleftrightarrow> c_rx_buf cn \<noteq> NoBuf \<and> length (mem_bytes (c_rx_buf cn)) = c_rx_cap cn \<and> c_rx_head cn < c_rx_cap cn
     \<and> c_rx_len cn \<le> c_rx_cap cn"

definition rx_data :: "tcp_conn \<Rightarrow> bytes" where
  "rx_data cn = map (\<lambda>k. mem_bytes (c_rx_buf cn) ! ((c_rx_head cn + k) mod c_rx_cap cn)) [0..<c_rx_len cn]"

lemma length_rx_data [simp]: "length (rx_data cn) = c_rx_len cn"
  by (simp add: rx_data_def)

lemma mod_once: "(i :: nat) < n + n \<Longrightarrow> i mod n = (if i < n then i else i - n)"
  by (simp add: le_mod_geq)

lemma mem_bytes_set [simp]: "m \<noteq> NoBuf \<Longrightarrow> mem_bytes (set_mem_bytes b m) = b" "(set_mem_bytes b m = NoBuf) = (m = NoBuf)"
  by (cases m; simp)+

lemma put_block_nth:
  assumes "put_block b i xs = Some b'"
  shows "length b' = length b" "k < length b \<Longrightarrow> b' ! k = (if i \<le> k \<and> k < i + length xs then xs ! (k - i) else b ! k)"
  using assms by (auto simp: put_block_def nth_append split: if_splits)

lemma put_block_some: "i + length xs \<le> length b \<Longrightarrow> \<exists>b'. put_block b i xs = Some b'"
  by (simp add: put_block_def)

text \<open>The buffer after a write of \<open>data\<close> at \<open>t\<close> that wraps around.\<close>

lemma wrapped_write:
  assumes "length b = n" "t < n" "length data \<le> n"
  defines "first \<equiv> if length data < n - t then length data else n - t"
  shows "\<exists>b1 b'. put_block b t (take first data) = Some b1
    \<and> (if first < length data then put_block b1 0 (drop first data) else Some b1) = Some b' \<and> length b' = n
    \<and> (\<forall>i < n. b' ! i = (if t \<le> i \<and> i < t + length data then data ! (i - t)
         else if i + n < t + length data then data ! (i + n - t) else b ! i))"
proof -
  have f: "first \<le> length data" "t + first \<le> n" using assms(2) by (auto simp: first_def)
  obtain b1 where b1: "put_block b t (take first data) = Some b1" using put_block_some [of t "take first data" b] f assms(1) by auto
  note n1 = put_block_nth [OF b1]
  show ?thesis
  proof (cases "first < length data")
    case False
    then have "first = length data" using f by simp
    then show ?thesis using b1 n1 f assms(1) by (intro exI [of _ b1]) auto
  next
    case True
    then have ft: "first = n - t" by (auto simp: first_def split: if_splits)
    have "0 + length (drop first data) \<le> length b1" using n1(1) assms(1,3) by simp
    then obtain b' where b': "put_block b1 0 (drop first data) = Some b'" using put_block_some by blast
    note n2 = put_block_nth [OF b']
    have "b' ! i = (if t \<le> i \<and> i < t + length data then data ! (i - t)
         else if i + n < t + length data then data ! (i + n - t) else b ! i)" if "i < n" for i
      using n2(2) [of i] n1 assms(1-3) that True ft by (auto simp: add.commute)
    then show ?thesis using b1 b' True n1(1) n2(1) assms(1) by auto
  qed
qed

lemma tcp_rx_push_ok:
  assumes ok: "rx_ok cn" and fit: "length data \<le> c_rx_cap cn - c_rx_len cn"
  shows "\<exists>b. tcp_rx_push data cn = Some (cn\<lparr>c_rx_buf := set_mem_bytes b (c_rx_buf cn), c_rx_len := c_rx_len cn + length data\<rparr>)
    \<and> rx_ok (cn\<lparr>c_rx_buf := set_mem_bytes b (c_rx_buf cn), c_rx_len := c_rx_len cn + length data\<rparr>)
    \<and> rx_data (cn\<lparr>c_rx_buf := set_mem_bytes b (c_rx_buf cn), c_rx_len := c_rx_len cn + length data\<rparr>) = rx_data cn @ data"
proof -
  let ?b = "mem_bytes (c_rx_buf cn)" and ?n = "c_rx_cap cn" and ?h = "c_rx_head cn" and ?l = "c_rx_len cn" and ?t = "tcp_rx_tail cn"
  have o: "c_rx_buf cn \<noteq> NoBuf" "length ?b = ?n" "?h < ?n" "?l \<le> ?n" using ok by (auto simp: rx_ok_def)
  have t: "?t = (if ?h + ?l < ?n then ?h + ?l else ?h + ?l - ?n)" "?t < ?n"
    using o mod_once [of "?h + ?l" ?n] by (auto simp: tcp_rx_tail_def)
  let ?first = "if length data < ?n - ?t then length data else ?n - ?t"
  have "length data \<le> ?n" using fit by simp
  then obtain b1 b' where w: "put_block ?b ?t (take ?first data) = Some b1"
      "(if ?first < length data then put_block b1 0 (drop ?first data) else Some b1) = Some b'" "length b' = ?n"
      "\<forall>i < ?n. b' ! i = (if ?t \<le> i \<and> i < ?t + length data then data ! (i - ?t)
         else if i + ?n < ?t + length data then data ! (i + ?n - ?t) else ?b ! i)"
    using wrapped_write [OF o(2) t(2), of data] by blast
  let ?cn = "cn\<lparr>c_rx_buf := set_mem_bytes b' (c_rx_buf cn), c_rx_len := ?l + length data\<rparr>"
  have "tcp_rx_push data cn = Some ?cn" unfolding tcp_rx_push_def Let_def w(1) using w(2) by simp
  moreover have "rx_ok ?cn" using o w(3) fit by (simp add: rx_ok_def)
  moreover have "rx_data ?cn = rx_data cn @ data"
  proof (rule nth_equalityI)
    fix k assume "k < length (rx_data ?cn)"
    then have k: "k < ?l + length data" by simp
    define i where "i = (?h + k) mod ?n"
    have kn: "k < ?n" using k fit o(4) by linarith
    have i: "i = (if ?h + k < ?n then ?h + k else ?h + k - ?n)" "i < ?n" using o(3) kn mod_once [of "?h + k" ?n] by (auto simp: i_def)
    have "rx_data ?cn ! k = b' ! i" using k o(1) by (simp add: rx_data_def i_def)
    moreover have "b' ! i = (if k < ?l then ?b ! i else data ! (k - ?l))"
    proof (cases "k < ?l")
      case True
      then have "\<not> (?t \<le> i \<and> i < ?t + length data)" "\<not> i + ?n < ?t + length data" using i t fit o(3,4) by (auto split: if_splits)
      then show ?thesis using w(4) i(2) True by auto
    next
      case False
      then show ?thesis using w(4) i t fit o(3,4) k by (auto split: if_splits)
    qed
    ultimately show "rx_data ?cn ! k = (rx_data cn @ data) ! k" by (simp add: nth_append) (simp add: rx_data_def i_def)
  qed simp
  ultimately show ?thesis by blast
qed

lemma tcp_rx_pop_ok:
  assumes ok: "rx_ok cn" and m: "m \<le> c_rx_len cn"
  defines "cn' \<equiv> cn\<lparr>c_rx_head := (c_rx_head cn + m) mod c_rx_cap cn, c_rx_len := c_rx_len cn - m\<rparr>"
  shows "tcp_rx_pop m cn = Some (take m (rx_data cn), cn')" "rx_ok cn'" "rx_data cn' = drop m (rx_data cn)"
proof -
  let ?b = "mem_bytes (c_rx_buf cn)" and ?n = "c_rx_cap cn" and ?h = "c_rx_head cn" and ?l = "c_rx_len cn"
  have o: "c_rx_buf cn \<noteq> NoBuf" "length ?b = ?n" "?h < ?n" "?l \<le> ?n" using ok by (auto simp: rx_ok_def)
  define first where "first = (if m < ?n - ?h then m else ?n - ?h)"
  let ?x = "take first (drop ?h ?b)" and ?y = "take (m - first) ?b"
  have f: "first \<le> m" "?h + first \<le> ?n" "m - first \<le> ?n" using o m by (auto simp: first_def)
  have "?x @ ?y = take m (rx_data cn)"
  proof (rule nth_equalityI)
    show "length (?x @ ?y) = length (take m (rx_data cn))" using f o m by simp
    fix k assume "k < length (?x @ ?y)"
    then have k: "k < m" using f o m by simp
    have i: "(?h + k) mod ?n = (if ?h + k < ?n then ?h + k else ?h + k - ?n)" using o k m mod_once [of "?h + k" ?n] by simp
    have "(?x @ ?y) ! k = ?b ! ((?h + k) mod ?n)"
      unfolding i using k f o m by (auto simp: nth_append first_def add.commute split: if_splits)
    then show "(?x @ ?y) ! k = take m (rx_data cn) ! k" using k m by (simp add: rx_data_def)
  qed
  moreover have "rd_block ?b ?h first = Some ?x" "(if first < m then rd_block ?b 0 (m - first) else Some []) = Some ?y"
    using f o by (auto simp: rd_block_def)
  ultimately show "tcp_rx_pop m cn = Some (take m (rx_data cn), cn')"
    unfolding tcp_rx_pop_def Let_def first_def [symmetric] cn'_def by simp
  show "rx_ok cn'" using o m by (simp add: rx_ok_def cn'_def)
  show "rx_data cn' = drop m (rx_data cn)"
    by (rule nth_equalityI) (use m in \<open>auto simp: rx_data_def cn'_def mod_simps add.assoc\<close>)
qed


text \<open>C6.  The window that is announced, shifted as the peer shifts it, never promises more than the buffer has room for.\<close>

theorem tcp_window_fits:
  "unat (tcp_recv_window cn) * 2 ^ (if c_peer_wscale_seen cn \<and> c_rcv_wscale cn \<noteq> 0 then unat (c_rcv_wscale cn) else 0)
     \<le> tcp_recv_window_full cn"
proof -
  let ?f = "tcp_recv_window_full cn" and ?s = "if c_peer_wscale_seen cn \<and> c_rcv_wscale cn \<noteq> 0 then unat (c_rcv_wscale cn) else 0"
  have "tcp_recv_window cn = of_nat (min (?f div 2 ^ ?s) 65535)"
    by (auto simp: tcp_recv_window_def Let_def min_def drop_bit_eq_div)
  then have "unat (tcp_recv_window cn) = min (?f div 2 ^ ?s) 65535" by (simp add: unat_of_nat min_def)
  then have "unat (tcp_recv_window cn) * 2 ^ ?s \<le> ?f div 2 ^ ?s * 2 ^ ?s" by (intro mult_le_mono1) simp
  also have "\<dots> \<le> ?f" by (rule div_times_less_eq_dividend)
  finally show ?thesis .
qed

section \<open>Growing the buffer\<close>

lemma grow_cap_ge: "cap \<le> 4194304 \<Longrightarrow> cap \<le> grow_cap incoming rxlen cap"
proof (induction incoming rxlen cap rule: grow_cap.induct)
  case (1 incoming rxlen cap)
  then show ?case by (subst grow_cap.simps) (auto split: if_splits)
qed

lemma conn_upd_conn [simp]: "conn c' (upd_conn c f st) = (if c' = c then f (conn c st) else conn c' st)"
  by (simp add: conn_def upd_conn_def upd_tcp_def)

lemma upd_tcp_fields [simp]:
  "devs (upd_tcp f st) = devs st" "wire (upd_tcp f st) = wire st" "drv_status (upd_tcp f st) = drv_status st"
  "pit_ticks (upd_tcp f st) = pit_ticks st" "arrivals (upd_tcp f st) = arrivals st" "upper (upd_tcp f st) = f (upper st)"
  by (simp_all add: upd_tcp_def)

lemma upd_conn_devs [simp]: "devs (upd_conn c f st) = devs st"
  by (simp add: upd_conn_def)

lemma alloc_same: "alloc st = (ok, st') \<Longrightarrow> conn c st' = conn c st \<and> devs st' = devs st"
  by (auto simp: alloc_def conn_def upd_tcp_def split: list.splits)

text \<open>What a segment other than RST, SYN and FIN leaves alone.\<close>

definition same_link :: "tcp_conn \<Rightarrow> tcp_conn \<Rightarrow> bool" where
  "same_link cn cn' \<longleftrightarrow> c_dev cn' = c_dev cn \<and> c_remote_ip cn' = c_remote_ip cn \<and> c_passive cn' = c_passive cn
     \<and> c_connected cn' = c_connected cn \<and> c_closed cn' = c_closed cn \<and> c_error cn' = c_error cn"

definition heap_buf :: "tcp_conn \<Rightarrow> bool" where
  "heap_buf cn \<longleftrightarrow> (\<exists>b. c_rx_buf cn = HeapBuf b)"

lemma tcp_rx_autotune_ok:
  assumes ok: "rx_ok (conn c st)" and heap: "heap_buf (conn c st)"
  shows "\<exists>r st'. tcp_rx_autotune c n st = Some (r, st') \<and> rx_ok (conn c st') \<and> heap_buf (conn c st')
    \<and> rx_data (conn c st') = rx_data (conn c st) \<and> c_ack (conn c st') = c_ack (conn c st)
    \<and> c_rx_cap (conn c st) \<le> c_rx_cap (conn c st') \<and> same_link (conn c st) (conn c st') \<and> devs st' = devs st"
proof (cases "c_rx_buf (conn c st) = NoBuf \<or> n \<le> tcp_recv_window_full (conn c st) \<or> 4194304 \<le> c_rx_cap (conn c st)")
  case True
  then show ?thesis using assms by (auto simp: tcp_rx_autotune_def Let_def same_link_def heap_buf_def)
next
  case False
  let ?cn = "conn c st"
  have o: "length (mem_bytes (c_rx_buf ?cn)) = c_rx_cap ?cn" "c_rx_head ?cn < c_rx_cap ?cn" "c_rx_len ?cn \<le> c_rx_cap ?cn"
    using ok by (auto simp: rx_ok_def)
  define nc where "nc = grow_cap n (c_rx_len ?cn) (c_rx_cap ?cn)"
  have nc: "c_rx_cap ?cn \<le> nc" using False grow_cap_ge by (auto simp: nc_def)
  obtain alok st1 where al: "alloc st = (alok, st1)" by fastforce
  note as = alloc_same [OF al]
  note pop = tcp_rx_pop_ok [OF ok order_refl]
  let ?cn' = "?cn\<lparr>c_rx_head := (c_rx_head ?cn + c_rx_len ?cn) mod c_rx_cap ?cn, c_rx_len := 0\<rparr>"
  define cn1 where "cn1 = (if c_rx_len ?cn \<noteq> 0 then ?cn' else ?cn)"
  have old: "(if c_rx_len ?cn \<noteq> 0 then tcp_rx_pop (c_rx_len ?cn) ?cn else Some ([], ?cn)) = Some (rx_data ?cn, cn1)"
    using pop by (auto simp: cn1_def rx_data_def)
  let ?new = "cn1\<lparr>c_rx_buf := HeapBuf (rx_data ?cn @ replicate (nc - c_rx_len ?cn) 0), c_rx_cap := nc, c_rx_head := 0,
      c_rx_len := c_rx_len ?cn, c_rcv_wscale := tcp_wscale_for_cap nc\<rparr>"
  have f: "free_buf (c_rx_buf cn1) = Some ()" using heap by (auto simp: free_buf_def cn1_def heap_buf_def)
  have run: "tcp_rx_autotune c n st = (if nc \<le> c_rx_cap ?cn then Some (Inr (), st)
      else if \<not> alok then Some (Inl ENOMEM, st1) else Some (Inr (), upd_conn c (\<lambda>_. ?new) st1))"
    using False o(2) unfolding tcp_rx_autotune_def Let_def old by (auto simp: nc_def [symmetric] al f)
  have "rx_ok ?new" "rx_data ?new = rx_data ?cn"
  proof -
    show "rx_ok ?new" using o nc by (simp add: rx_ok_def)
    show "rx_data ?new = rx_data ?cn"
      by (rule nth_equalityI) (use o nc in \<open>auto simp: rx_data_def nth_append\<close>)
  qed
  then show ?thesis using run as nc ok heap by (auto simp: same_link_def heap_buf_def cn1_def)
qed

section \<open>Segments of a stream\<close>

text \<open>A connected socket with a peer on another machine: a packet to it goes to the driver.\<close>

definition remote :: "u64 \<Rightarrow> 'v tnet \<Rightarrow> bool" where
  "remote c st \<longleftrightarrow> c_dev (conn c st) \<noteq> 0 \<and> c_remote_ip (conn c st) \<noteq> ipv4_addr (devs st (c_dev (conn c st)))
     \<and> dev_send_op (devs st (c_dev (conn c st))) = driver_send_fn"

definition established :: "u64 \<Rightarrow> 'v tnet \<Rightarrow> bool" where
  "established c st \<longleftrightarrow> remote c st \<and> rx_ok (conn c st) \<and> heap_buf (conn c st) \<and> c_connected (conn c st) \<and> \<not> c_passive (conn c st)"

lemma dev_send_driver:
  assumes "dev_send_op (devs st dev) = driver_send_fn"
  shows "\<exists>r st'. dev_send rcv dev f st = Some (r, st') \<and> upper st' = upper st \<and> devs st' = devs st"
  using assms by (auto simp: dev_send_def driver_send_def Let_def split: list.split option.split)

lemma tcp_send_ack_remote:
  assumes "remote c st"
  shows "\<exists>r st'. tcp_send_ack rcv c st = Some (r, st') \<and> conn c st' = conn c st \<and> devs st' = devs st"
proof -
  have "tcp_opt_len TCP_ACK os = 0" for os by (simp add: tcp_opt_len_def)
  then obtain f where "tcp_send_ack rcv c st = dev_send rcv (c_dev (conn c st)) f st"
    using assms
    by (auto simp: tcp_send_ack_def tcp_send_conn_packet_def tcp_send_seq_def net_send_ipv4_tcp_window_def
        net_send_ipv4_tcp_window_opts_def send_or_deliver_def remote_def Let_def)
  then show ?thesis using dev_send_driver [of st "c_dev (conn c st)" rcv f] assms by (auto simp: remote_def conn_def)
qed

lemma established_step:
  assumes "established c st" "devs st' = devs st" "same_link (conn c st) (conn c st')" "rx_ok (conn c st')" "heap_buf (conn c st')"
  shows "established c st'"
  using assms by (simp add: established_def remote_def same_link_def)

lemma established_ack:
  assumes "established c st"
  shows "\<exists>r st'. tcp_send_ack rcv c st = Some (r, st') \<and> conn c st' = conn c st \<and> established c st'"
proof -
  obtain r st' where "tcp_send_ack rcv c st = Some (r, st')" "conn c st' = conn c st" "devs st' = devs st"
    using tcp_send_ack_remote [of c st rcv] assms by (auto simp: established_def)
  then show ?thesis using established_step [OF assms, of st'] assms by (auto simp: same_link_def established_def)
qed

lemma plain_flags:
  assumes "(fl :: u8) AND 7 = 0"
  shows "fl AND 4 = 0" "fl AND 1 = 0" "fl AND 0x12 \<noteq> 0x12"
proof -
  have m: "fl AND m = (fl AND 7) AND m" if "7 AND m = m" for m using that by (simp add: and.assoc)
  show "fl AND 4 = 0" "fl AND 1 = 0" using m [of 4] m [of 1] assms by simp_all
  have "fl AND 2 = 0" using m [of 2] assms by simp
  moreover have "fl AND 2 = (fl AND 0x12) AND 2" by (simp add: and.assoc)
  ultimately show "fl AND 0x12 \<noteq> 0x12" by auto
qed

text \<open>Payload in order: it is queued if the buffer, possibly grown, has room for it, and dropped otherwise.\<close>

lemma queue_payload_ok:
  assumes est: "established c st"
  shows "\<exists>st'. queue_payload rcv c data st = Some st' \<and> established c st'
    \<and> (rx_data (conn c st') = rx_data (conn c st) @ data \<and> c_ack (conn c st') = c_ack (conn c st) + of_nat (length data)
       \<or> c_rx_cap (conn c st) - c_rx_len (conn c st) < length data
         \<and> rx_data (conn c st') = rx_data (conn c st) \<and> c_ack (conn c st') = c_ack (conn c st))"
proof -
  have "rx_ok (conn c st)" "heap_buf (conn c st)" using est by (simp_all add: established_def)
  from tcp_rx_autotune_ok [OF this, of "length data"] obtain r s1 where s1: "tcp_rx_autotune c (length data) st = Some (r, s1)"
      "rx_ok (conn c s1)" "heap_buf (conn c s1)" "rx_data (conn c s1) = rx_data (conn c st)" "c_ack (conn c s1) = c_ack (conn c st)"
      "c_rx_cap (conn c st) \<le> c_rx_cap (conn c s1)" "same_link (conn c st) (conn c s1)" "devs s1 = devs st" by auto
  have e1: "established c s1" by (rule established_step [OF est s1(8,7,2,3)])
  have len: "c_rx_len (conn c s1) = c_rx_len (conn c st)" using arg_cong [OF s1(4), of length] by simp
  have wf: "tcp_recv_window_full (conn c s1) = c_rx_cap (conn c s1) - c_rx_len (conn c s1)"
    using s1(2) by (auto simp: tcp_recv_window_full_def rx_ok_def)
  show ?thesis
  proof (cases "length data \<le> c_rx_cap (conn c s1) - c_rx_len (conn c s1)")
    case True
    obtain b where m: "tcp_rx_push data (conn c s1) = Some ((conn c s1)\<lparr>c_rx_buf := set_mem_bytes b (c_rx_buf (conn c s1)),
          c_rx_len := c_rx_len (conn c s1) + length data\<rparr>)"
        "rx_ok ((conn c s1)\<lparr>c_rx_buf := set_mem_bytes b (c_rx_buf (conn c s1)), c_rx_len := c_rx_len (conn c s1) + length data\<rparr>)"
        "rx_data ((conn c s1)\<lparr>c_rx_buf := set_mem_bytes b (c_rx_buf (conn c s1)), c_rx_len := c_rx_len (conn c s1) + length data\<rparr>)
           = rx_data (conn c s1) @ data"
      using tcp_rx_push_ok [OF s1(2) True] by blast
    define cn where "cn = (conn c s1)\<lparr>c_rx_buf := set_mem_bytes b (c_rx_buf (conn c s1)), c_rx_len := c_rx_len (conn c s1) + length data,
      c_ack := c_ack (conn c s1) + of_nat (length data), c_rx_since_ack := c_rx_since_ack (conn c s1) + 1, c_rx_full_events := 0\<rparr>"
    have new: "rx_data (cn\<lparr>c_rx_since_ack := n\<rparr>) = rx_data (conn c st) @ data" "rx_ok (cn\<lparr>c_rx_since_ack := n\<rparr>)"
        "heap_buf (cn\<lparr>c_rx_since_ack := n\<rparr>)" "c_ack (cn\<lparr>c_rx_since_ack := n\<rparr>) = c_ack (conn c st) + of_nat (length data)"
        "same_link (conn c s1) (cn\<lparr>c_rx_since_ack := n\<rparr>)" for n
      using m(2,3) s1(3,4,5) by (auto simp: cn_def rx_data_def rx_ok_def heap_buf_def same_link_def)
    have e2: "established c (upd_conn c (\<lambda>_. cn\<lparr>c_rx_since_ack := n\<rparr>) s1)" for n
      by (rule established_step [OF e1]) (use new [of n] in simp_all)
    have idn: "cn = cn\<lparr>c_rx_since_ack := c_rx_since_ack cn\<rparr>" by simp
    obtain r3 s3 where s3: "tcp_send_ack rcv c (upd_conn c (\<lambda>_. cn\<lparr>c_rx_since_ack := 0\<rparr>) s1) = Some (r3, s3)"
        "conn c s3 = cn\<lparr>c_rx_since_ack := 0\<rparr>" "established c s3"
      using established_ack [OF e2 [of 0], of rcv] by auto
    have "queue_payload rcv c data st = (if 2 \<le> c_rx_since_ack cn \<or> length data < 1460 \<or> c_rx_cap cn \<le> c_rx_len cn
        then Some s3 else Some (upd_conn c (\<lambda>_. cn) s1))"
      using True m(1) s1(1) wf s3(1) by (simp add: queue_payload_def Let_def cn_def)
    then show ?thesis using s3 new [of 0] new [of "c_rx_since_ack cn"] e2 [of "c_rx_since_ack cn"] by (auto simp flip: idn)
  next
    case False
    let ?s2 = "upd_conn c (\<lambda>cn. cn\<lparr>c_rx_full_events := c_rx_full_events cn + 1\<rparr>) s1"
    have d: "rx_data (conn c ?s2) = rx_data (conn c s1)" by (simp add: rx_data_def)
    have "established c ?s2" by (rule established_step [OF e1]) (use s1(2,3) in \<open>auto simp: same_link_def rx_ok_def heap_buf_def\<close>)
    then obtain r s3 where "tcp_send_ack rcv c ?s2 = Some (r, s3)" "conn c s3 = conn c ?s2" "established c s3"
      using established_ack by blast
    then show ?thesis using False s1 wf d len by (auto simp: queue_payload_def)
  qed
qed

lemma tcp_conn_receive_plain:
  assumes "established c st" "t_flags t AND 7 = 0"
  shows "\<exists>st'. tcp_conn_receive env rcv c seg t data st = Some st' \<and> established c st'
    \<and> (t_seq t = c_ack (conn c st) \<and> rx_data (conn c st') = rx_data (conn c st) @ data
          \<and> c_ack (conn c st') = c_ack (conn c st) + of_nat (length data)
       \<or> (t_seq t \<noteq> c_ack (conn c st) \<or> c_rx_cap (conn c st) - c_rx_len (conn c st) < length data)
          \<and> rx_data (conn c st') = rx_data (conn c st) \<and> c_ack (conn c st') = c_ack (conn c st))"
proof -
  note fl = plain_flags [OF assms(2)]
  have e: "c_connected (conn c st)" "\<not> c_passive (conn c st)" using assms(1) by (simp_all add: established_def)
  then have r: "tcp_conn_receive env rcv c seg t data st = (if t_seq t \<noteq> c_ack (conn c st) \<or> data = [] then Some st else queue_payload rcv c data st)"
    using fl by (simp add: tcp_conn_receive_def active_receive_def)
  show ?thesis
  proof (cases "t_seq t \<noteq> c_ack (conn c st) \<or> data = []")
    case True
    then show ?thesis using r assms(1) by auto
  next
    case False
    then have "tcp_conn_receive env rcv c seg t data st = queue_payload rcv c data st" "t_seq t = c_ack (conn c st)" using r by simp_all
    then show ?thesis using queue_payload_ok [OF assms(1), of rcv data] by auto
  qed
qed

text \<open>A read that does not wait takes what is queued, oldest byte first.\<close>

lemma poll_wait_stop: "stop st \<Longrightarrow> poll_wait hk env stop rs st = Some (False, st)"
  by (subst poll_wait.simps) simp

lemma net_tcp_recv_now:
  assumes est: "established c st" and r: "net_tcp_recv hk env c cap 0 st = Some (Inr e, st')"
  shows "established c st' \<and> e @ rx_data (conn c st') = rx_data (conn c st) \<and> c_ack (conn c st') = c_ack (conn c st)"
proof (cases "c = 0 \<or> cap = 0 \<or> c_read_shutdown (conn c st) \<or> c_rx_len (conn c st) = 0")
  case True
  then show ?thesis using r est
    by (auto simp: net_tcp_recv_def recv_take_def poll_wait_stop split: if_splits)
next
  case False
  let ?cn = "conn c st"
  let ?m = "if cap < c_rx_len ?cn then cap else c_rx_len ?cn"
  define cn where "cn = ?cn\<lparr>c_rx_head := (c_rx_head ?cn + ?m) mod c_rx_cap ?cn, c_rx_len := c_rx_len ?cn - ?m\<rparr>"
  have ok: "rx_ok ?cn" "heap_buf ?cn" and le: "?m \<le> c_rx_len ?cn" using est by (auto simp: established_def)
  note pop = tcp_rx_pop_ok [OF ok(1) le, folded cn_def]
  have link: "same_link ?cn cn" "heap_buf cn" "c_ack cn = c_ack ?cn" using ok by (simp_all add: cn_def same_link_def heap_buf_def)
  have data: "take ?m (rx_data ?cn) @ rx_data cn = rx_data ?cn" by (simp add: pop(3))
  have take: "recv_take (net_receive_frame hk) c cap st = Some (Inr e, st')" using r False est
    by (auto simp: net_tcp_recv_def established_def poll_wait_stop)
  show ?thesis
  proof (cases "\<not> c_closed cn \<and> \<not> c_error cn")
    case True
    let ?s = "upd_conn c (\<lambda>cn. cn\<lparr>c_rx_since_ack := 0\<rparr>) (upd_conn c (\<lambda>_. cn) st)"
    have es: "established c ?s" using pop(2) link
      by (intro established_step [OF est]) (simp_all add: same_link_def rx_ok_def heap_buf_def)
    obtain q s2 where "tcp_send_ack (net_receive_frame hk) c ?s = Some (q, s2)" "conn c s2 = conn c ?s" "established c s2"
      using established_ack [OF es] by blast
    then show ?thesis using take False True data link pop(1) by (auto simp: recv_take_def rx_data_def)
  next
    case F2: False
    have "established c (upd_conn c (\<lambda>_. cn) st)" using pop(2) link by (intro established_step [OF est]) simp_all
    then show ?thesis using take False F2 data link pop(1) by (auto simp: recv_take_def)
  qed
qed

text \<open>The life of an established connection as its peer and its reader see it.  \<open>S\<close> is what the peer sends and \<open>isn\<close> the
  sequence number of its first byte.  Segments are arbitrary slices of \<open>S\<close>: they arrive in any order, repeated, overlapping
  or not at all.  \<open>d\<close> is what the reader has got so far.\<close>

inductive stream :: "'v tcp hooks \<Rightarrow> 'v tcp_env \<Rightarrow> 'v tcp receiver \<Rightarrow> u64 \<Rightarrow> bytes \<Rightarrow> u32 \<Rightarrow> 'v tnet \<Rightarrow> bytes \<Rightarrow> bool"
  for hk env rcv c S isn where
  start: "established c st \<Longrightarrow> rx_data (conn c st) = [] \<Longrightarrow> c_ack (conn c st) = isn \<Longrightarrow> stream hk env rcv c S isn st []"
| segment: "stream hk env rcv c S isn st d \<Longrightarrow> t_flags t AND 7 = 0 \<Longrightarrow> off \<le> length S \<Longrightarrow> t_seq t = isn + of_nat off \<Longrightarrow>
    tcp_conn_receive env rcv c seg t (take n (drop off S)) st = Some st' \<Longrightarrow> stream hk env rcv c S isn st' d"
| recv: "stream hk env rcv c S isn st d \<Longrightarrow> net_tcp_recv hk env c cap 0 st = Some (Inr e, st') \<Longrightarrow> stream hk env rcv c S isn st' (d @ e)"

lemma sequence_offset_unique:
  assumes "(isn :: u32) + of_nat i = isn + of_nat j" "i \<le> n" "j \<le> n" "n < 2 ^ 32"
  shows "i = j"
proof -
  have "(of_nat i :: u32) = of_nat j" using assms(1) by simp
  then have "i mod 2 ^ 32 = j mod 2 ^ 32" by (simp add: word_of_nat_eq_iff take_bit_eq_mod)
  then show ?thesis using assms(2-4) by simp
qed

lemma stream_invariant:
  assumes "stream hk env rcv c S isn st d" "length S < 2 ^ 32"
  shows "established c st \<and> (\<exists>n\<le>length S. d @ rx_data (conn c st) = take n S \<and> c_ack (conn c st) = isn + of_nat n)"
  using assms(1)
proof (induction rule: stream.induct)
  case (start st)
  then show ?case by (auto intro: exI [of _ 0])
next
  case (segment st d t off seg n st')
  then obtain k where k: "established c st" "k \<le> length S" "d @ rx_data (conn c st) = take k S" "c_ack (conn c st) = isn + of_nat k" by blast
  let ?x = "take n (drop off S)"
  have est: "established c st'" and alt: "t_seq t = c_ack (conn c st) \<and> rx_data (conn c st') = rx_data (conn c st) @ ?x
        \<and> c_ack (conn c st') = c_ack (conn c st) + of_nat (length ?x)
      \<or> rx_data (conn c st') = rx_data (conn c st) \<and> c_ack (conn c st') = c_ack (conn c st)"
    using tcp_conn_receive_plain [OF k(1) segment(2), of env rcv seg ?x] segment(5) by auto
  show ?case
  proof (cases "t_seq t = c_ack (conn c st) \<and> rx_data (conn c st') = rx_data (conn c st) @ ?x")
    case True
    then have "off = k" using k segment(3,4) assms(2) sequence_offset_unique [of isn off k "length S"] by simp
    then have "d @ rx_data (conn c st') = take (k + length ?x) S" using True k(3)
      by (simp add: take_add min_def flip: append_assoc)
    moreover have "k + length ?x \<le> length S" using \<open>off = k\<close> k(2) by simp
    moreover have "c_ack (conn c st') = isn + of_nat (k + length ?x)" using True alt k(4) by (auto simp: add.assoc)
    ultimately show ?thesis using est by blast
  next
    case False
    then show ?thesis using alt est k by auto
  qed
next
  case (recv st d cap e st')
  then obtain k where k: "established c st" "k \<le> length S" "d @ rx_data (conn c st) = take k S" "c_ack (conn c st) = isn + of_nat k" by blast
  from net_tcp_recv_now [OF k(1) recv(2)] show ?case using k(2-4) by auto
qed


text \<open>A small connection to test with: an eight byte buffer of which five bytes are in use, across the end.\<close>

definition sample_conn :: tcp_conn where
  "sample_conn = zero_conn\<lparr>c_dev := 1, c_remote_ip := 0x0a000202, c_ack := 100, c_connected := True,
     c_rx_buf := HeapBuf [4, 5, 0, 0, 0, 1, 2, 3], c_rx_cap := 8, c_rx_head := 5, c_rx_len := 5\<rparr>"

definition sample_tcp :: "tcp_conn \<Rightarrow> nat tnet" where
  "sample_tcp cn = zero_net \<lparr>conn_at = (\<lambda>_. cn), tcp_conns = [7],
     tcp_listeners = [\<lparr>l_local_ip = 0, l_port = 80, l_handler = 1, l_accept_handler = 0, l_ctx = 0\<rparr>],
     fresh_conn = 8, allocs = [], sockets = 0\<rparr>"

definition sample_segment :: "u32 \<Rightarrow> tcp_in" where
  "sample_segment sq = \<lparr>t_src_port = 0, t_dst_port = 0, t_seq = sq, t_ack = 0, t_data_off = 0x50, t_flags = 0x10, t_src_ip = 0x0a000202,
     t_dst_ip = 0\<rparr>"



text \<open>C40.  What a reader of a TCP connection gets is a prefix of what the peer sent: whatever slices of the peer's data arrive, in
  whatever order and however often, the bytes delivered followed by the bytes queued are the first \<open>n\<close> bytes sent, none lost,
  repeated or reordered, and exactly those \<open>n\<close> bytes have been acknowledged (less than 4 GiB of data, so that the sequence numbers
  stay distinct).\<close>

theorem tcp_stream_prefix:
  assumes "stream hk env rcv c S isn st d" "length S < 2 ^ 32"
  shows "\<exists>n\<le>length S. d @ rx_data (conn c st) = take n S \<and> c_ack (conn c st) = isn + of_nat n"
  using stream_invariant [OF assms] by blast

definition sample_idle :: tcp_conn where
  "sample_idle = sample_conn\<lparr>c_rx_len := 0\<rparr>"

lemma sample_idle_established: "established 7 (sample_tcp sample_idle)"
  by (simp add: established_def remote_def rx_ok_def heap_buf_def conn_def sample_tcp_def zero_net_def sample_conn_def sample_idle_def
      zero_conn_def zero_dev_def)

lemma sample_stream:
  fixes hk :: "nat tcp hooks"
  shows "\<exists>st. stream hk env rcv 7 [1, 2, 3, 4] 100 st [] \<and> c_ack (conn 7 st) = 102"
proof -
  let ?s = "sample_tcp sample_idle"
  have a: "c_ack (conn 7 ?s) = 100" "rx_data (conn 7 ?s) = []" "c_rx_cap (conn 7 ?s) = 8" "c_rx_len (conn 7 ?s) = 0"
    by (simp_all add: conn_def sample_tcp_def zero_net_def sample_conn_def sample_idle_def zero_conn_def rx_data_def)
  have "stream hk env rcv 7 [1, 2, 3, 4] 100 ?s []" by (rule stream.start [OF sample_idle_established a(2,1)])
  moreover obtain st where "tcp_conn_receive env rcv 7 [] (sample_segment 100) (take 2 (drop 0 [1, 2, 3, 4])) ?s = Some st"
      "c_ack (conn 7 st) = 102"
    using tcp_conn_receive_plain [OF sample_idle_established, of "sample_segment 100" env rcv "[]" "[1, 2]"] a
    by (auto simp: sample_segment_def)
  ultimately have "stream hk env rcv 7 [1, 2, 3, 4] 100 st []"
    by (elim stream.segment [where t = "sample_segment 100" and off = 0 and n = 2 and seg = "[]"]) (simp_all add: sample_segment_def)
  with \<open>c_ack (conn 7 st) = 102\<close> show ?thesis by blast
qed

theorem tcp_stream_prefix_witness:
  "\<forall>(hk :: nat tcp hooks) env rcv. \<exists>st. stream hk env rcv 7 [1, 2, 3, 4] 100 st [] \<and> rx_data (conn 7 st) = [1, 2]"
proof (intro allI)
  fix hk :: "nat tcp hooks" and env rcv
  obtain st where st: "stream hk env rcv 7 [1, 2, 3, 4] 100 st []" "c_ack (conn 7 st) = 102" using sample_stream by blast
  have "length [1 :: u8, 2, 3, 4] < 2 ^ 32" by simp
  from tcp_stream_prefix [OF st(1) this] obtain n where n: "n \<le> length [1 :: u8, 2, 3, 4]"
      "[] @ rx_data (conn 7 st) = take n [1, 2, 3, 4]" "c_ack (conn 7 st) = 100 + of_nat n" by blast
  have "n = 2" using n(1,3) st(2) sequence_offset_unique [of 100 n 2 4] by simp
  then show "\<exists>st. stream hk env rcv 7 [1, 2, 3, 4] 100 st [] \<and> rx_data (conn 7 st) = [1, 2]" using st(1) n(2) by auto
qed

lemma syn_options_total:
  "pos + left \<le> length seg \<Longrightarrow> syn_options seg pos left cn \<noteq> None"
proof (induction left arbitrary: pos cn rule: less_induct)
  case (less left)
  have ih: "0 < m \<Longrightarrow> m \<le> left \<Longrightarrow> left \<noteq> 0 \<Longrightarrow> \<exists>cn'. syn_options seg (pos + m) (left - m) cn = Some cn'" for m cn
    using less(1) [of "left - m" "pos + m" cn] less(2) by simp
  have byte: "i < left \<Longrightarrow> \<exists>b. rd8 seg (pos + i) = Some b" for i using less(2) by (simp add: rd8_def)
  show ?case
  proof (cases "left = 0")
    case True
    then show ?thesis by (simp add: syn_options.simps)
  next
    case False
    obtain kind where kind: "rd8 seg pos = Some kind" using byte [of 0] False by auto
    show ?thesis
    proof (cases "kind = 0 \<or> kind = 1 \<or> left < 2")
      case True
      then show ?thesis using False kind ih [of 1] by (subst syn_options.simps) auto
    next
      case F2: False
      then obtain n where n: "rd8 seg (pos + 1) = Some n" using byte [of 1] by auto
      have m: "2 \<le> n \<Longrightarrow> 0 < unat n" by (simp add: word_le_nat_alt)
      have third: "n = 3 \<Longrightarrow> unat n \<le> left \<Longrightarrow> \<exists>w. rd8 seg (pos + 2) = Some w" using byte [of 2] by simp
      show ?thesis using False kind F2 n third ih [of "unat n"] m by (subst syn_options.simps) (auto simp: not_less)
    qed
  qed
qed

text \<open>C27.  The option parser reads only the header it is told about, but the path for a new connection takes the length of that header
  from the segment and never compares it with the length of the packet: a SYN of 20 bytes for a listening port whose data offset says
  more makes the parser read behind the end of the packet.\<close>

theorem tcp_syn_options_overread:
  assumes "length ip = ihl + 20" "read_tcp ip (drop ihl ip) = Some t" "tcp_conn_find dev t st = None"
    and "tcp_listener_find (t_dst_ip t) (t_dst_port t) st = Some l" "t_flags t AND TCP_SYN \<noteq> 0" "allocs (upper st) = []"
    and "20 < tcp_hlen t"
  shows "net_tcp_receive env rcv dev src_mac ip ihl (length ip) st = None"
proof -
  have "rd8 (drop ihl ip) 20 = None" using assms(1) by (simp add: rd8_def)
  then have "tcp_parse_syn_options (drop ihl ip) (tcp_hlen t) cn = None" for cn
    using assms(7) by (subst tcp_parse_syn_options_def, subst syn_options.simps) simp
  then show ?thesis using assms
    by (auto simp: net_tcp_receive_def tcp_handle_listen_syn_def alloc_conn_def alloc_def Let_def split: prod.split option.split)
qed

definition sample_syn :: bytes where
  "sample_syn = [0x45, 0, 0, 40, 0, 0, 0, 0, 64, 6, 0, 0, 10, 0, 2, 2, 10, 0, 2, 15] @
     [4, 0xd2, 0, 80, 0, 0, 0, 1, 0, 0, 0, 0, 0xf0, 2, 0, 0, 0, 0, 0, 0]"

theorem tcp_syn_options_overread_witness:
  "\<forall>env rcv src_mac. net_tcp_receive env rcv 1 src_mac sample_syn 20 40 (sample_tcp zero_conn) = None"
proof -
  let ?t = "\<lparr>t_src_port = 1234, t_dst_port = 80, t_seq = 1, t_ack = 0, t_data_off = 0xf0, t_flags = 2, t_src_ip = 0x0a000202,
     t_dst_ip = 0x0a00020f\<rparr>"
  let ?l = "\<lparr>l_local_ip = 0, l_port = 80, l_handler = 1, l_accept_handler = 0, l_ctx = 0\<rparr>"
  let ?st = "sample_tcp zero_conn"
  have a: "length sample_syn = 20 + 20" by code_simp
  have b: "read_tcp sample_syn (drop 20 sample_syn) = Some ?t" by code_simp
  have c: "tcp_conn_find 1 ?t ?st = None"
    by (simp add: tcp_conn_find_def sample_tcp_def zero_net_def conn_def zero_conn_def)
  have d: "tcp_listener_find (t_dst_ip ?t) (t_dst_port ?t) ?st = Some ?l"
    by (simp add: tcp_listener_find_def sample_tcp_def zero_net_def)
  have e: "t_flags ?t AND TCP_SYN \<noteq> 0" "allocs (upper ?st) = []" "20 < tcp_hlen ?t"
    by (simp_all add: sample_tcp_def zero_net_def tcp_hlen_def drop_bit_eq_div)
  show ?thesis using tcp_syn_options_overread [OF a b c d e] a by simp
qed

lemma fin_flags:
  assumes "(fl :: u8) AND 7 = 1"
  shows "fl AND 4 = 0" "fl AND 1 \<noteq> 0" "fl AND 0x12 \<noteq> 0x12"
proof -
  have m: "fl AND m = (fl AND 7) AND m" if "7 AND m = m" for m using that by (simp add: and.assoc)
  show "fl AND 4 = 0" "fl AND 1 \<noteq> 0" using m [of 4] m [of 1] assms by simp_all
  have "fl AND 2 = 0" using m [of 2] assms by simp
  moreover have "fl AND 2 = (fl AND 0x12) AND 2" by (simp add: and.assoc)
  ultimately show "fl AND 0x12 \<noteq> 0x12" by auto
qed

lemma queue_payload_full:
  assumes est: "established c st" and big: "4194304 \<le> c_rx_cap (conn c st)" and full: "c_rx_cap (conn c st) - c_rx_len (conn c st) < length data"
  shows "\<exists>st'. queue_payload rcv c data st = Some st' \<and> established c st' \<and> rx_data (conn c st') = rx_data (conn c st)
    \<and> c_ack (conn c st') = c_ack (conn c st)"
proof -
  let ?s = "upd_conn c (\<lambda>cn. cn\<lparr>c_rx_full_events := c_rx_full_events cn + 1\<rparr>) st"
  have ok: "rx_ok (conn c st)" "heap_buf (conn c st)" using est by (simp_all add: established_def)
  then have w: "\<not> length data \<le> tcp_recv_window_full (conn c st)" using full by (auto simp: tcp_recv_window_full_def rx_ok_def)
  have "tcp_rx_autotune c (length data) st = Some (Inr (), st)" using ok big w by (auto simp: tcp_rx_autotune_def rx_ok_def Let_def)
  then have q: "queue_payload rcv c data st = map_option snd (tcp_send_ack rcv c ?s)" using w by (simp add: queue_payload_def)
  have "established c ?s" using ok by (intro established_step [OF est]) (auto simp: same_link_def rx_ok_def heap_buf_def)
  from established_ack [OF this, of rcv] obtain r s2 where "tcp_send_ack rcv c ?s = Some (r, s2)" "conn c s2 = conn c ?s" "established c s2"
    by blast
  then show ?thesis using q by (auto simp: rx_data_def)
qed

text \<open>C34.  A segment that carries both data and FIN is not handled as a unit.  When the buffer has no room for the data they are
  dropped, but the FIN behind them is still accepted: the connection counts as closed by the peer, one byte more is acknowledged, and
  from then on every repetition of the segment is ignored.  The reader sees the end of the stream where the dropped data were.\<close>

theorem tcp_fin_discards_payload:
  assumes "established c st" "4194304 \<le> c_rx_cap (conn c st)" "t_flags t AND 7 = 1" "t_seq t = c_ack (conn c st)"
    and "c_rx_cap (conn c st) - c_rx_len (conn c st) < length data"
  shows "\<exists>st'. tcp_conn_receive env rcv c seg t data st = Some st' \<and> c_closed (conn c st') \<and> rx_data (conn c st') = rx_data (conn c st)
    \<and> c_ack (conn c st') = c_ack (conn c st) + 1 \<and> tcp_conn_receive env rcv c seg t data st' = Some st'"
proof -
  note fl = fin_flags [OF assms(3)]
  obtain s1 where s1: "queue_payload rcv c data st = Some s1" "established c s1" "rx_data (conn c s1) = rx_data (conn c st)"
      "c_ack (conn c s1) = c_ack (conn c st)"
    using queue_payload_full [OF assms(1,2,5), of rcv] by blast
  let ?s = "upd_conn c (\<lambda>cn. cn\<lparr>c_ack := c_ack cn + 1\<rparr>) s1"
  have "established c ?s" using s1(2) by (intro established_step [OF s1(2)]) (auto simp: same_link_def rx_ok_def heap_buf_def established_def)
  from established_ack [OF this, of rcv] obtain r s2 where s2: "tcp_send_ack rcv c ?s = Some (r, s2)" "conn c s2 = conn c ?s" "established c s2"
    by blast
  let ?s3 = "upd_conn c (\<lambda>cn. cn\<lparr>c_closed := True\<rparr>) s2"
  have e: "c_connected (conn c st)" "\<not> c_passive (conn c st)" "c_connected (conn c s2)" "\<not> c_passive (conn c s2)"
    using assms(1) s2(3) by (simp_all add: established_def)
  have "tcp_conn_receive env rcv c seg t data st = Some ?s3"
    using e fl s1(1) s2(1) assms(4,5) by (auto simp: tcp_conn_receive_def active_receive_def)
  moreover have "tcp_conn_receive env rcv c seg t data ?s3 = Some ?s3"
    using e fl s1(4) s2(2) assms(4) by (auto simp: tcp_conn_receive_def active_receive_def)
  ultimately show ?thesis using s1(3,4) s2(2) by (auto simp: rx_data_def)
qed

definition sample_full :: tcp_conn where
  "sample_full = sample_conn\<lparr>c_rx_buf := HeapBuf (replicate 4194304 0), c_rx_cap := 4194304, c_rx_head := 0, c_rx_len := 4194304\<rparr>"

theorem tcp_fin_discards_payload_witness:
  "\<forall>env rcv seg. \<exists>st'. tcp_conn_receive env rcv 7 seg ((sample_segment 100)\<lparr>t_flags := 0x11\<rparr>) [6, 7] (sample_tcp sample_full) = Some st'
     \<and> c_closed (conn 7 st') \<and> c_ack (conn 7 st') = 101 \<and> c_rx_len (conn 7 st') = 4194304"
proof -
  let ?s = "sample_tcp sample_full" and ?t = "(sample_segment 100)\<lparr>t_flags := 0x11\<rparr>"
  have e: "established 7 ?s"
    by (simp add: established_def remote_def rx_ok_def heap_buf_def conn_def sample_tcp_def zero_net_def sample_conn_def sample_full_def
        zero_conn_def zero_dev_def)
  have v: "c_rx_cap (conn 7 ?s) = 4194304" "c_rx_len (conn 7 ?s) = 4194304" "c_ack (conn 7 ?s) = 100"
    by (simp_all add: conn_def sample_tcp_def zero_net_def sample_conn_def sample_full_def zero_conn_def)
  have h: "4194304 \<le> c_rx_cap (conn 7 ?s)" "t_flags ?t AND 7 = 1" "t_seq ?t = c_ack (conn 7 ?s)"
      "c_rx_cap (conn 7 ?s) - c_rx_len (conn 7 ?s) < length [6 :: u8, 7]"
    using v by (simp_all add: sample_segment_def)
  show ?thesis
  proof (intro allI)
    fix env rcv seg
    obtain st' where r: "tcp_conn_receive env rcv 7 seg ?t [6, 7] ?s = Some st'" "c_closed (conn 7 st')"
        "rx_data (conn 7 st') = rx_data (conn 7 ?s)" "c_ack (conn 7 st') = c_ack (conn 7 ?s) + 1"
      using tcp_fin_discards_payload [OF e h, of env rcv seg] by blast
    moreover have "c_rx_len (conn 7 st') = c_rx_len (conn 7 ?s)" using arg_cong [OF r(3), of length] by simp
    ultimately show "\<exists>st'. tcp_conn_receive env rcv 7 seg ?t [6, 7] ?s = Some st' \<and> c_closed (conn 7 st') \<and> c_ack (conn 7 st') = 101
        \<and> c_rx_len (conn 7 st') = 4194304"
      using v by (intro exI [of _ st']) simp
  qed
qed

end
