(* ===== verification/Bytes.thy ===== *)
theory Bytes
  imports Prelude
begin

unbundle bit_operations_syntax

text \<open>
  Byte sequences that are read and overwritten in place: buffers, disks and files.  \<open>slice\<close> is what a copy out of a
  buffer gets, \<open>splice\<close> what a copy into it leaves.  The lemmas say how the two interact; they carry the
  proofs of the block layer, the file system and the pipes.
\<close>

type_synonym octets = "u8 list"

definition slice :: "nat \<Rightarrow> nat \<Rightarrow> 'a list \<Rightarrow> 'a list" where
  "slice i n xs = take n (drop i xs)"

definition splice :: "nat \<Rightarrow> 'a list \<Rightarrow> 'a list \<Rightarrow> 'a list" where
  "splice i ys xs = take i xs @ ys @ drop (i + length ys) xs"

text \<open>A copy into a buffer: \<open>None\<close> when it does not fit.\<close>

definition patch :: "nat \<Rightarrow> 'a list \<Rightarrow> 'a list \<Rightarrow> 'a list option" where
  "patch i ys xs = (if i + length ys \<le> length xs then Some (splice i ys xs) else None)"

lemma length_slice [simp]: "length (slice i n xs) = min n (length xs - i)"
  by (auto simp: slice_def)

lemma slice_0 [simp]: "slice i 0 xs = []"
  by (simp add: slice_def)

lemma slice_all [simp]: "slice 0 (length xs) xs = xs"
  by (simp add: slice_def)

lemma nth_slice [simp]: "j < n \<Longrightarrow> i + j < length xs \<Longrightarrow> slice i n xs ! j = xs ! (i + j)"
  by (simp add: slice_def)

lemma slice_slice: "p + m \<le> n \<Longrightarrow> slice p m (slice i n xs) = slice (i + p) m xs"
  by (simp add: slice_def drop_take min_def add.commute)

lemma slice_add: "slice i (m + n) xs = slice i m xs @ slice (i + m) n xs"
  by (simp add: slice_def take_add add.commute)

lemma length_splice [simp]: "i + length ys \<le> length xs \<Longrightarrow> length (splice i ys xs) = length xs"
  by (simp add: splice_def)

lemma splice_Nil [simp]: "splice i [] xs = xs"
  by (simp add: splice_def)

lemma nth_splice:
  assumes "i + length ys \<le> length xs" "j < length xs"
  shows "splice i ys xs ! j = (if i \<le> j \<and> j < i + length ys then ys ! (j - i) else xs ! j)"
  using assms by (auto simp: splice_def nth_append min_def)

lemma slice_splice_same: "i + length ys \<le> length xs \<Longrightarrow> n = length ys \<Longrightarrow> slice i n (splice i ys xs) = ys"
  by (simp add: splice_def slice_def)

lemma slice_splice_other:
  assumes "i + length ys \<le> length xs" "j + n \<le> length xs" "j + n \<le> i \<or> i + length ys \<le> j"
  shows "slice j n (splice i ys xs) = slice j n xs"
  using assms by (intro nth_equalityI) (auto simp: nth_splice)

lemma splice_slice_id: "i + n \<le> length xs \<Longrightarrow> splice i (slice i n xs) xs = xs"
  by (rule nth_equalityI) (auto simp: nth_splice)

lemma splice_append:
  "i + length ys + length zs \<le> length xs \<Longrightarrow> splice (i + length ys) zs (splice i ys xs) = splice i (ys @ zs) xs"
  by (rule nth_equalityI) (auto simp: nth_splice nth_append)

lemma splice_in_slice:
  assumes "p + length ys \<le> n" "i + n \<le> length xs"
  shows "splice i (splice p ys (slice i n xs)) xs = splice (i + p) ys xs"
  using assms by (intro nth_equalityI) (auto simp: nth_splice)

lemma slice_of_splice_inside:
  assumes "i \<le> j" "j + n \<le> i + length ys" "i + length ys \<le> length xs"
  shows "slice j n (splice i ys xs) = slice (j - i) n ys"
  using assms by (intro nth_equalityI) (auto simp: nth_splice)

lemma splice_splice_same:
  assumes "i + length ys \<le> length xs" "length zs = length ys"
  shows "splice i zs (splice i ys xs) = splice i zs xs"
  using assms by (intro nth_equalityI) (auto simp: nth_splice)

lemma splice_commute:
  assumes "i + length ys \<le> length xs" "j + length zs \<le> length xs" "i + length ys \<le> j \<or> j + length zs \<le> i"
  shows "splice i ys (splice j zs xs) = splice j zs (splice i ys xs)"
  using assms by (intro nth_equalityI) (auto simp: nth_splice)

section \<open>Little-endian words in a byte sequence\<close>

text \<open>\<open>le_bytes n w\<close>: the \<open>n\<close> low bytes of \<open>w\<close>, lowest first; \<open>le_nat\<close> reads them back.\<close>

primrec le_bytes :: "nat \<Rightarrow> nat \<Rightarrow> octets" where
  "le_bytes 0 w = []"
| "le_bytes (Suc n) w = of_nat w # le_bytes n (w div 256)"

primrec le_nat :: "octets \<Rightarrow> nat" where
  "le_nat [] = 0"
| "le_nat (b # bs) = unat b + 256 * le_nat bs"

lemma length_le_bytes [simp]: "length (le_bytes n w) = n"
  by (induction n arbitrary: w) simp_all

lemma le_nat_bound: "le_nat bs < 256 ^ length bs"
proof (induction bs)
  case (Cons b bs)
  have "unat b < 256" using unsigned_less [of b, where 'a = nat] by simp
  then have "unat b + 256 * le_nat bs < 256 * (le_nat bs + 1)" by simp
  also have "\<dots> \<le> 256 * 256 ^ length bs" using Cons by (intro mult_le_mono2) simp
  finally show ?case by simp
qed simp

lemma le_nat_le_bytes: "le_nat (le_bytes n w) = w mod 256 ^ n"
proof (induction n arbitrary: w)
  case (Suc n)
  have "le_nat (le_bytes (Suc n) w) = w mod 256 + 256 * (w div 256 mod 256 ^ n)" by (simp add: Suc unat_of_nat)
  also have "\<dots> = w mod (256 * 256 ^ n)" by (simp add: mod_mult2_eq)
  finally show ?case by simp
qed simp

lemma le_bytes_le_nat: "le_bytes (length bs) (le_nat bs) = bs"
proof (induction bs)
  case (Cons b bs)
  have b: "unat b < 256" using unsigned_less [of b, where 'a = nat] by simp
  have "unat (of_nat (unat b + 256 * le_nat bs) :: u8) = unat b" using b
    by (simp add: unat_of_nat del: of_nat_add of_nat_mult)
  then have "(of_nat (unat b + 256 * le_nat bs) :: u8) = b" by (simp only: word_unat_eq_iff)
  moreover have "(unat b + 256 * le_nat bs) div 256 = le_nat bs" using b by simp
  ultimately show ?case using Cons by simp
qed simp

end
