(* ===== verification/Block.thy ===== *)
theory Block
  imports Bytes
begin

unbundle bit_operations_syntax

text \<open>
  The block layer, \<open>kernel/src/dev/block.c\<close>: devices and their registration, partition tables, and reads and writes of
  byte ranges over drivers that transfer whole blocks.

  Drivers are an environment.  Behind each driver (\<open>driver_data\<close>) is a medium, a sequence of bytes.  A transfer
  has the outcome at the head of \<open>io_results\<close>: \<open>Some e\<close> is an error and transfers nothing, \<open>None\<close>
  or no entry is success.  \<open>kzalloc\<close> has its outcomes in \<open>mem_results\<close>.  Names are byte sequences without
  the terminator.  Publishing a device file has no effect on this layer; its result is only logged.
\<close>

section \<open>Devices\<close>

abbreviation (input) BLOCK_NAME_MAX :: nat where "BLOCK_NAME_MAX \<equiv> 31"

text \<open>A function pointer of a device: none, the one of the partitions, or one of a driver.\<close>

datatype blk_op = OpNone | OpPart | OpDriver

record block_device =
  bd_name :: octets
  bd_block_size :: u32
  block_count :: u64
  lba_offset :: u64
  read_blocks :: blk_op
  write_blocks :: blk_op
  flush_op :: blk_op
  driver_data :: u64
  bd_parent :: u64

record blk =
  blk_at :: "u64 \<Rightarrow> block_device"
  block_devices :: "u64 list"
  fresh_blk :: u64
  media :: "u64 \<Rightarrow> octets"
  io_results :: "errno option list"
  mem_results :: "bool list"

definition zero_blk :: block_device where
  "zero_blk = \<lparr>bd_name = [], bd_block_size = 0, block_count = 0, lba_offset = 0, read_blocks = OpNone, write_blocks = OpNone,
     flush_op = OpNone, driver_data = 0, bd_parent = 0\<rparr>"

definition next_io :: "blk \<Rightarrow> errno option \<times> blk" where
  "next_io st = (case io_results st of [] \<Rightarrow> (None, st) | r # rs \<Rightarrow> (r, st\<lparr>io_results := rs\<rparr>))"

definition next_mem :: "blk \<Rightarrow> bool \<times> blk" where
  "next_mem st = (case mem_results st of [] \<Rightarrow> (True, st) | r # rs \<Rightarrow> (r, st\<lparr>mem_results := rs\<rparr>))"

text \<open>What a driver does: \<open>count\<close> blocks at \<open>lba\<close>, an error when the medium does not have them.\<close>

definition driver_read :: "block_device \<Rightarrow> u64 \<Rightarrow> u32 \<Rightarrow> blk \<Rightarrow> (errno + octets) \<times> blk" where
  "driver_read d lba count st =
     (case next_io st of
        (Some e, st) \<Rightarrow> (Inl e, st)
      | (None, st) \<Rightarrow>
          let i = unat lba * unat (bd_block_size d); n = unat count * unat (bd_block_size d); m = media st (driver_data d)
          in if i + n \<le> length m then (Inr (slice i n m), st) else (Inl EIO, st))"

definition driver_write :: "block_device \<Rightarrow> u64 \<Rightarrow> u32 \<Rightarrow> octets \<Rightarrow> blk \<Rightarrow> (errno + unit) \<times> blk" where
  "driver_write d lba count data st =
     (case next_io st of
        (Some e, st) \<Rightarrow> (Inl e, st)
      | (None, st) \<Rightarrow>
          let i = unat lba * unat (bd_block_size d); n = unat count * unat (bd_block_size d); m = media st (driver_data d)
          in if i + n \<le> length m then (Inr (), st\<lparr>media := (media st)(driver_data d := splice i (take n data) m)\<rparr>) else (Inl EIO, st))"

section \<open>Partitions\<close>

text \<open>\<open>dev->read_blocks(dev, ...)\<close>: a partition passes the request to its parent.  The first argument bounds the depth of
  the chain of parents; partitions are only made on whole disks, so 2 is enough.\<close>

primrec dev_read_blocks :: "nat \<Rightarrow> u64 \<Rightarrow> u64 \<Rightarrow> u32 \<Rightarrow> blk \<Rightarrow> ((errno + octets) \<times> blk) option" where
  "dev_read_blocks 0 dev lba count st = None"
| "dev_read_blocks (Suc k) dev lba count st =
     (let d = blk_at st dev in
      case read_blocks d of
        OpNone \<Rightarrow> None
      | OpDriver \<Rightarrow> Some (driver_read d lba count st)
      | OpPart \<Rightarrow>
          if bd_parent d = 0 then Some (Inl EINVAL, st)
          else if count = 0 then Some (Inr [], st)
          else if block_count d \<le> lba \<or> block_count d - lba < ucast count then Some (Inl EINVAL, st)
          else dev_read_blocks k (bd_parent d) (lba_offset d + lba) count st)"

primrec dev_write_blocks :: "nat \<Rightarrow> u64 \<Rightarrow> u64 \<Rightarrow> u32 \<Rightarrow> octets \<Rightarrow> blk \<Rightarrow> ((errno + unit) \<times> blk) option" where
  "dev_write_blocks 0 dev lba count data st = None"
| "dev_write_blocks (Suc k) dev lba count data st =
     (let d = blk_at st dev in
      case write_blocks d of
        OpNone \<Rightarrow> None
      | OpDriver \<Rightarrow> Some (driver_write d lba count data st)
      | OpPart \<Rightarrow>
          if bd_parent d = 0 \<or> write_blocks (blk_at st (bd_parent d)) = OpNone then Some (Inl ENOSYS, st)
          else if count = 0 then Some (Inr (), st)
          else if block_count d \<le> lba \<or> block_count d - lba < ucast count then Some (Inl EINVAL, st)
          else dev_write_blocks k (bd_parent d) (lba_offset d + lba) count data st)"

section \<open>Reading and writing byte ranges\<close>

text \<open>The size in bytes, as the C code computes it.\<close>

definition dev_size :: "block_device \<Rightarrow> u64" where
  "dev_size d = block_count d * ucast (bd_block_size d)"

text \<open>The loops over single blocks: \<open>pos\<close> is the position on the device and \<open>len\<close> the number of bytes left.  The range has been
  checked against the size of the device, so no position wraps around.\<close>

function read_loop :: "u64 \<Rightarrow> nat \<Rightarrow> nat \<Rightarrow> blk \<Rightarrow> ((errno + octets) \<times> blk) option" where
  "read_loop dev pos len st =
     (let bs = unat (bd_block_size (blk_at st dev)) in
      if len = 0 \<or> bs = 0 then Some (Inr [], st)
      else let boff = pos mod bs; chunk = (if len < bs - boff then len else bs - boff) in
        case dev_read_blocks 2 dev (of_nat (pos div bs)) 1 st of
          None \<Rightarrow> None
        | Some (Inl e, st) \<Rightarrow> Some (Inl e, st)
        | Some (Inr bounce, st) \<Rightarrow>
            (case read_loop dev (pos + chunk) (len - chunk) st of
               None \<Rightarrow> None
             | Some (Inl e, st) \<Rightarrow> Some (Inl e, st)
             | Some (Inr rest, st) \<Rightarrow> Some (Inr (slice boff chunk bounce @ rest), st)))"
  by pat_completeness auto
termination
proof (relation "measure (\<lambda>(dev, pos, len, st). len)", goal_cases)
  case (2 dev pos len st bs boff chunk)
  have "pos mod bs < bs" using 2 by simp
  then show ?case using 2 by simp
qed simp

function write_loop :: "u64 \<Rightarrow> nat \<Rightarrow> octets \<Rightarrow> blk \<Rightarrow> ((errno + unit) \<times> blk) option" where
  "write_loop dev pos data st =
     (let bs = unat (bd_block_size (blk_at st dev)) in
      if data = [] \<or> bs = 0 then Some (Inr (), st)
      else let boff = pos mod bs; chunk = (if length data < bs - boff then length data else bs - boff) in
        case dev_read_blocks 2 dev (of_nat (pos div bs)) 1 st of
          None \<Rightarrow> None
        | Some (Inl e, st) \<Rightarrow> Some (Inl e, st)
        | Some (Inr bounce, st) \<Rightarrow>
            (case dev_write_blocks 2 dev (of_nat (pos div bs)) 1 (splice boff (take chunk data) bounce) st of
               None \<Rightarrow> None
             | Some (Inl e, st) \<Rightarrow> Some (Inl e, st)
             | Some (Inr _, st) \<Rightarrow> write_loop dev (pos + chunk) (drop chunk data) st))"
  by pat_completeness auto
termination
proof (relation "measure (\<lambda>(dev, pos, data, st). length data)", goal_cases)
  case (2 dev pos data st bs boff chunk)
  have "pos mod bs < bs" using 2 by simp
  then show ?case using 2 by simp
qed simp

declare read_loop.simps [simp del] write_loop.simps [simp del]

definition block_read :: "u64 \<Rightarrow> u64 \<Rightarrow> u64 \<Rightarrow> blk \<Rightarrow> ((errno + octets) \<times> blk) option" where
  "block_read dev off len st =
     (if dev = 0 then Some (Inl EINVAL, st)
      else if len = 0 then Some (Inr [], st)
      else let d = blk_at st dev; bs = bd_block_size d; size = dev_size d in
        if bs = 0 \<or> size \<le> off \<or> size - off < len then Some (Inl EINVAL, st)
        else if off mod ucast bs = 0 \<and> len mod ucast bs = 0
        then dev_read_blocks 2 dev (off div ucast bs) (ucast (len div ucast bs)) st
        else let (ok, st) = next_mem st in
          if \<not> ok then Some (Inl ENOMEM, st) else read_loop dev (unat off) (unat len) st)"

definition block_write :: "u64 \<Rightarrow> u64 \<Rightarrow> octets \<Rightarrow> blk \<Rightarrow> ((errno + unit) \<times> blk) option" where
  "block_write dev off data st =
     (if dev = 0 then Some (Inl EINVAL, st)
      else if write_blocks (blk_at st dev) = OpNone then Some (Inl ENOSYS, st)
      else if data = [] then Some (Inr (), st)
      else let d = blk_at st dev; bs = bd_block_size d; size = dev_size d; len = of_nat (length data) in
        if bs = 0 \<or> size \<le> off \<or> size - off < len then Some (Inl EINVAL, st)
        else if off mod ucast bs = 0 \<and> len mod ucast bs = 0
        then dev_write_blocks 2 dev (off div ucast bs) (ucast (len div ucast bs)) data st
        else let (ok, st) = next_mem st in
          if \<not> ok then Some (Inl ENOMEM, st) else write_loop dev (unat off) data st)"

text \<open>The device files: a range beyond the end is cut off.\<close>

definition block_devfs_read :: "u64 \<Rightarrow> u64 \<Rightarrow> u64 \<Rightarrow> blk \<Rightarrow> ((errno + octets) \<times> blk) option" where
  "block_devfs_read dev off len st =
     (if dev = 0 then Some (Inl EINVAL, st)
      else let size = dev_size (blk_at st dev) in
        if size \<le> off \<or> len = 0 then Some (Inr [], st)
        else block_read dev off (if size - off < len then size - off else len) st)"

definition block_devfs_write :: "u64 \<Rightarrow> u64 \<Rightarrow> octets \<Rightarrow> blk \<Rightarrow> ((errno + nat) \<times> blk) option" where
  "block_devfs_write dev off data st =
     (if dev = 0 then Some (Inl EINVAL, st)
      else let size = dev_size (blk_at st dev) in
        if size \<le> off \<or> data = [] then Some (Inr 0, st)
        else let data = (if size - off < of_nat (length data) then take (unat (size - off)) data else data) in
          map_option (\<lambda>(r, st). (map_sum id (\<lambda>_. length data) r, st)) (block_write dev off data st))"

primrec flush_dev :: "nat \<Rightarrow> u64 \<Rightarrow> blk \<Rightarrow> ((errno + unit) \<times> blk) option" where
  "flush_dev 0 dev st = None"
| "flush_dev (Suc k) dev st =
     (if dev = 0 then Some (Inl EINVAL, st)
      else let d = blk_at st dev in
        case flush_op d of
          OpDriver \<Rightarrow> (case next_io st of (Some e, st) \<Rightarrow> Some (Inl e, st) | (None, st) \<Rightarrow> Some (Inr (), st))
        | OpPart \<Rightarrow> if bd_parent d = 0 then Some (Inl EINVAL, st) else flush_dev k (bd_parent d) st
        | OpNone \<Rightarrow> if bd_parent d \<noteq> 0 then flush_dev k (bd_parent d) st else Some (Inr (), st))"

definition block_flush :: "u64 \<Rightarrow> blk \<Rightarrow> ((errno + unit) \<times> blk) option" where
  "block_flush dev st = flush_dev 2 dev st"

section \<open>Registration\<close>

definition block_first :: "blk \<Rightarrow> u64" where
  "block_first st = (case block_devices st of [] \<Rightarrow> 0 | d # _ \<Rightarrow> d)"

definition block_find :: "octets \<Rightarrow> blk \<Rightarrow> u64" where
  "block_find name st = (case find (\<lambda>d. bd_name (blk_at st d) = name) (block_devices st) of None \<Rightarrow> 0 | Some d \<Rightarrow> d)"

text \<open>\<open>block_register\<close> up to the search for partitions; the result is the address of the new device.\<close>

definition block_enter :: "block_device \<Rightarrow> blk \<Rightarrow> (errno + u64) \<times> blk" where
  "block_enter src st =
     (if bd_name src = [] \<or> read_blocks src = OpNone \<or> bd_block_size src = 0 then (Inl EINVAL, st)
      else let (ok, st) = next_mem st in
        if \<not> ok then (Inl ENOMEM, st)
        else let d = src\<lparr>bd_name := take BLOCK_NAME_MAX (bd_name src)\<rparr> in
          if \<exists>c\<in>set (block_devices st). bd_name (blk_at st c) = bd_name d then (Inl EEXIST, st)
          else let a = fresh_blk st in
            (Inr a, st\<lparr>blk_at := (blk_at st)(a := d), block_devices := a # block_devices st, fresh_blk := a + 1\<rparr>))"

text \<open>\<open>%u\<close>.\<close>

fun print_decimal :: "nat \<Rightarrow> octets" where
  "print_decimal n = (if n < 10 then [of_nat (48 + n)] else print_decimal (n div 10) @ [of_nat (48 + n mod 10)])"

declare print_decimal.simps [simp del]

text \<open>The search for partitions returns at once for a device with a parent, so entering the partition is all of
  \<open>block_register\<close> here.\<close>

definition block_register_partition :: "u64 \<Rightarrow> nat \<Rightarrow> u64 \<Rightarrow> u64 \<Rightarrow> blk \<Rightarrow> blk" where
  "block_register_partition dev number start count st =
     (let d = blk_at st dev in
      if dev = 0 \<or> number = 0 \<or> count = 0 then st
      else if block_count d \<le> start \<or> block_count d - start < count then st
      else snd (block_enter
        \<lparr>bd_name = take BLOCK_NAME_MAX (bd_name d @ [0x70] @ print_decimal number), bd_block_size = bd_block_size d, block_count = count,
         lba_offset = start, read_blocks = OpPart, write_blocks = (if write_blocks d \<noteq> OpNone then OpPart else OpNone),
         flush_op = OpPart, driver_data = 0, bd_parent = dev\<rparr> st))"

section \<open>Partition tables\<close>

definition rd32_le :: "octets \<Rightarrow> nat \<Rightarrow> u32" where
  "rd32_le b i = of_nat (le_nat (slice i 4 b))"

definition rd64_le :: "octets \<Rightarrow> nat \<Rightarrow> u64" where
  "rd64_le b i = of_nat (le_nat (slice i 8 b))"

definition guid_is_zero :: "octets \<Rightarrow> bool" where
  "guid_is_zero b \<longleftrightarrow> (\<forall>i<16. b ! i = 0)"

text \<open>The loop over the entries of a GUID partition table: \<open>i\<close> is the index of the next one and \<open>n\<close> how many are left.\<close>

primrec gpt_entries :: "u64 \<Rightarrow> u64 \<Rightarrow> u32 \<Rightarrow> nat \<Rightarrow> nat \<Rightarrow> blk \<Rightarrow> blk option" where
  "gpt_entries dev entries_lba entry_size i 0 st = Some st"
| "gpt_entries dev entries_lba entry_size i (Suc n) st =
     (let d = blk_at st dev; off = entries_lba * ucast (bd_block_size d) + of_nat i * ucast entry_size in
      if dev_size d < off + ucast entry_size then Some st
      else case block_read dev off (ucast entry_size) st of
          None \<Rightarrow> None
        | Some (Inl _, st) \<Rightarrow> Some st
        | Some (Inr entry, st) \<Rightarrow>
            let first = rd64_le entry 32; last = rd64_le entry 40 in
            gpt_entries dev entries_lba entry_size (i + 1) n
              (if guid_is_zero entry \<or> last < first then st
               else block_register_partition dev (i + 1) first (last - first + 1) st))"

definition block_probe_gpt :: "u64 \<Rightarrow> blk \<Rightarrow> ((errno + unit) \<times> blk) option" where
  "block_probe_gpt dev st =
     (let d = blk_at st dev in
      if dev = 0 \<or> bd_block_size d < 512 \<or> block_count d < 2 then Some (Inl EINVAL, st)
      else let (ok, st) = next_mem st in
        if \<not> ok then Some (Inl ENOMEM, st)
        else case block_read dev (ucast (bd_block_size d)) (ucast (bd_block_size d)) st of
            None \<Rightarrow> None
          | Some (Inl e, st) \<Rightarrow> Some (Inl e, st)
          | Some (Inr hdr, st) \<Rightarrow>
              if take 8 hdr \<noteq> [0x45, 0x46, 0x49, 0x20, 0x50, 0x41, 0x52, 0x54] then Some (Inl ENOENT, st)
              else let entries_lba = rd64_le hdr 72; entry_count = rd32_le hdr 80; entry_size = rd32_le hdr 84 in
                if entry_size < 128 \<or> 4096 < entry_size \<or> entry_count = 0 then Some (Inl EINVAL, st)
                else if block_count d \<le> entries_lba then Some (Inl EINVAL, st)
                else let (ok, st) = next_mem st in
                  if \<not> ok then Some (Inl ENOMEM, st)
                  else map_option (Pair (Inr ())) (gpt_entries dev entries_lba entry_size 0 (unat entry_count) st))"

primrec mbr_entries :: "u64 \<Rightarrow> octets \<Rightarrow> nat \<Rightarrow> nat \<Rightarrow> blk \<Rightarrow> blk" where
  "mbr_entries dev mbr i 0 st = st"
| "mbr_entries dev mbr i (Suc n) st =
     (let e = 446 + i * 16; start = rd32_le mbr (e + 8); count = rd32_le mbr (e + 12) in
      mbr_entries dev mbr (i + 1) n
        (if mbr ! (e + 4) = 0 \<or> count = 0 then st else block_register_partition dev (i + 1) (ucast start) (ucast count) st))"

definition block_probe_mbr :: "u64 \<Rightarrow> blk \<Rightarrow> blk option" where
  "block_probe_mbr dev st =
     (let d = blk_at st dev in
      if dev = 0 \<or> bd_parent d \<noteq> 0 \<or> bd_block_size d < 512 \<or> block_count d = 0 then Some st
      else let (ok, st) = next_mem st in
        if \<not> ok then Some st
        else case block_read dev 0 512 st of
            None \<Rightarrow> None
          | Some (Inl _, st) \<Rightarrow> Some st
          | Some (Inr mbr, st) \<Rightarrow>
              if mbr ! 510 \<noteq> 0x55 \<or> mbr ! 511 \<noteq> 0xaa then Some st
              else if \<exists>i\<in>{0..<4}. mbr ! (446 + i * 16 + 4) = 0xee then map_option snd (block_probe_gpt dev st)
              else Some (mbr_entries dev mbr 0 4 st))"

definition block_register :: "block_device \<Rightarrow> blk \<Rightarrow> ((errno + unit) \<times> blk) option" where
  "block_register src st =
     (case block_enter src st of
        (Inl e, st) \<Rightarrow> Some (Inl e, st)
      | (Inr a, st) \<Rightarrow> map_option (Pair (Inr ())) (block_probe_mbr a st))"

section \<open>Devices as byte sequences\<close>

text \<open>A whole disk fills its medium; a partition lies inside a whole disk with the same block size.\<close>

definition whole_disk :: "u64 \<Rightarrow> blk \<Rightarrow> bool" where
  "whole_disk dev st \<longleftrightarrow> (let d = blk_at st dev in dev \<noteq> 0 \<and> read_blocks d = OpDriver \<and> write_blocks d = OpDriver \<and> bd_block_size d \<noteq> 0
     \<and> unat (block_count d) * unat (bd_block_size d) = length (media st (driver_data d)) \<and> length (media st (driver_data d)) < 2 ^ 64)"

definition partition :: "u64 \<Rightarrow> blk \<Rightarrow> bool" where
  "partition dev st \<longleftrightarrow> (let d = blk_at st dev in dev \<noteq> 0 \<and> read_blocks d = OpPart \<and> write_blocks d = OpPart \<and> bd_parent d \<noteq> 0
     \<and> whole_disk (bd_parent d) st \<and> bd_block_size d = bd_block_size (blk_at st (bd_parent d))
     \<and> unat (lba_offset d) + unat (block_count d) \<le> unat (block_count (blk_at st (bd_parent d))))"

definition blk_ok :: "u64 \<Rightarrow> blk \<Rightarrow> bool" where
  "blk_ok dev st \<longleftrightarrow> whole_disk dev st \<or> partition dev st"

text \<open>Where the bytes of a device are: the driver and the offset on its medium.\<close>

definition dev_disk :: "u64 \<Rightarrow> blk \<Rightarrow> u64" where
  "dev_disk dev st = driver_data (blk_at st (if read_blocks (blk_at st dev) = OpPart then bd_parent (blk_at st dev) else dev))"

definition dev_base :: "u64 \<Rightarrow> blk \<Rightarrow> nat" where
  "dev_base dev st = (let d = blk_at st dev in if read_blocks d = OpPart then unat (lba_offset d) * unat (bd_block_size d) else 0)"

definition dev_len :: "u64 \<Rightarrow> blk \<Rightarrow> nat" where
  "dev_len dev st = unat (block_count (blk_at st dev)) * unat (bd_block_size (blk_at st dev))"

definition dev_bytes :: "u64 \<Rightarrow> blk \<Rightarrow> octets" where
  "dev_bytes dev st = slice (dev_base dev st) (dev_len dev st) (media st (dev_disk dev st))"

text \<open>Overwriting a range of a device, everything else kept; the outcomes of later transfers are not part of the comparison.\<close>

definition with_range :: "u64 \<Rightarrow> nat \<Rightarrow> octets \<Rightarrow> blk \<Rightarrow> blk" where
  "with_range dev i ys st =
     st\<lparr>media := (media st)(dev_disk dev st := splice (dev_base dev st + i) ys (media st (dev_disk dev st)))\<rparr>"

definition same_devs :: "blk \<Rightarrow> blk \<Rightarrow> bool" where
  "same_devs st st' \<longleftrightarrow> blk_at st' = blk_at st \<and> block_devices st' = block_devices st \<and> fresh_blk st' = fresh_blk st"

lemma same_devs_refl [simp]: "same_devs st st" by (simp add: same_devs_def)

lemma same_devs_trans: "same_devs a b \<Longrightarrow> same_devs b c \<Longrightarrow> same_devs a c" by (simp add: same_devs_def)

lemma blk_ok_facts:
  assumes "blk_ok dev st"
  shows "dev \<noteq> 0" "bd_block_size (blk_at st dev) \<noteq> 0" "write_blocks (blk_at st dev) \<noteq> OpNone"
    "dev_base dev st + dev_len dev st \<le> length (media st (dev_disk dev st))" "dev_base dev st + dev_len dev st < 2 ^ 64"
proof -
  show "dev \<noteq> 0" "bd_block_size (blk_at st dev) \<noteq> 0" "write_blocks (blk_at st dev) \<noteq> OpNone"
    using assms by (auto simp: blk_ok_def whole_disk_def partition_def Let_def)
  have "dev_base dev st + dev_len dev st \<le> length (media st (dev_disk dev st)) \<and> length (media st (dev_disk dev st)) < 2 ^ 64"
    using assms unfolding blk_ok_def
  proof
    assume "whole_disk dev st"
    then show ?thesis by (simp add: whole_disk_def dev_base_def dev_len_def dev_disk_def Let_def)
  next
    assume p: "partition dev st"
    let ?d = "blk_at st dev" let ?p = "blk_at st (bd_parent ?d)"
    have "(unat (lba_offset ?d) + unat (block_count ?d)) * unat (bd_block_size ?d) \<le> unat (block_count ?p) * unat (bd_block_size ?d)"
      using p by (intro mult_le_mono1) (simp add: partition_def Let_def)
    then show ?thesis using p
      by (simp add: partition_def whole_disk_def dev_base_def dev_len_def dev_disk_def Let_def add_mult_distrib)
  qed
  then show "dev_base dev st + dev_len dev st \<le> length (media st (dev_disk dev st))" "dev_base dev st + dev_len dev st < 2 ^ 64"
    by simp_all
qed

lemma length_dev_bytes [simp]: "blk_ok dev st \<Longrightarrow> length (dev_bytes dev st) = dev_len dev st"
  using blk_ok_facts(4) [of dev st] by (simp add: dev_bytes_def)

lemma next_io_cases:
  obtains e st' where "next_io st = (Some e, st')" "same_devs st st'" "media st' = media st" "io_results st \<noteq> []"
  | st' where "next_io st = (None, st')" "same_devs st st'" "media st' = media st" "io_results st = [] \<Longrightarrow> st' = st"
  by (cases "io_results st"; cases "hd (io_results st)") (auto simp: next_io_def same_devs_def)

lemma same_devs_ok:
  assumes "same_devs st st'" "media st' = media st"
  shows "blk_ok dev st' = blk_ok dev st" "dev_bytes dev st' = dev_bytes dev st" "dev_disk dev st' = dev_disk dev st"
    "dev_base dev st' = dev_base dev st" "dev_len dev st' = dev_len dev st"
  using assms
  by (simp_all add: same_devs_def blk_ok_def whole_disk_def partition_def dev_bytes_def dev_base_def dev_len_def dev_disk_def)

lemma unat_ucast64: "unat (ucast (c :: u32) :: u64) = unat c"
proof -
  have "unat c < 2 ^ 32" using unsigned_less [of c, where 'a = nat] by simp
  then have "unat c < 2 ^ 64" by simp
  then show ?thesis by (simp add: unsigned_ucast_eq take_bit_eq_mod)
qed

lemma driver_at:
  assumes "blk_ok dev st" "unat lba + unat count \<le> unat (block_count (blk_at st dev))" "count \<noteq> 0"
  obtains d lba' where
    "dev_read_blocks 2 dev lba count st = Some (driver_read d lba' count st)"
    "dev_write_blocks 2 dev lba count data st = Some (driver_write d lba' count data st)"
    "driver_data d = dev_disk dev st" "bd_block_size d = bd_block_size (blk_at st dev)"
    "unat lba' * unat (bd_block_size d) = dev_base dev st + unat lba * unat (bd_block_size d)"
  using assms(1) unfolding blk_ok_def
proof
  assume w: "whole_disk dev st"
  show thesis
    by (rule that [of "blk_at st dev" lba])
      (use w in \<open>simp_all add: whole_disk_def dev_disk_def dev_base_def Let_def numeral_2_eq_2\<close>)
next
  assume p: "partition dev st"
  let ?d = "blk_at st dev" let ?p = "blk_at st (bd_parent ?d)"
  have c: "unat (ucast count :: u64) = unat count" by (rule unat_ucast64)
  have r: "\<not> block_count ?d \<le> lba" "\<not> block_count ?d - lba < ucast count"
  proof -
    have "unat count \<noteq> 0" using assms(3) by (simp add: unat_eq_0)
    then show 1: "\<not> block_count ?d \<le> lba" using assms(2) by (simp add: word_le_nat_alt)
    then have "unat (block_count ?d - lba) = unat (block_count ?d) - unat lba" by (simp add: unat_sub)
    then show "\<not> block_count ?d - lba < ucast count" using assms(2) c by (simp add: word_less_nat_alt)
  qed
  have "unat (lba_offset ?d) + unat lba \<le> unat (block_count ?p)" using p assms(2) by (simp add: partition_def Let_def)
  then have "unat (lba_offset ?d) + unat lba < 18446744073709551616" by (rule le_less_trans) (rule unat_bound64)
  then have s: "unat (lba_offset ?d + lba) = unat (lba_offset ?d) + unat lba" by (simp add: unat_word_ariths)
  show thesis
    by (rule that [of ?p "lba_offset ?d + lba"])
      (use p r s assms(3) in \<open>simp_all add: partition_def whole_disk_def dev_disk_def dev_base_def Let_def numeral_2_eq_2 add_mult_distrib\<close>)
qed

text \<open>One transfer: it fails and changes nothing, or it reads and writes exactly the blocks.\<close>

lemma dev_read_blocks_ok:
  assumes ok: "blk_ok dev st" and r: "unat lba + unat count \<le> unat (block_count (blk_at st dev))" and nz: "count \<noteq> 0"
  shows "\<exists>q st'. dev_read_blocks 2 dev lba count st = Some (q, st') \<and> same_devs st st' \<and> media st' = media st
    \<and> (case q of Inl _ \<Rightarrow> io_results st \<noteq> []
        | Inr x \<Rightarrow> x = slice (unat lba * unat (bd_block_size (blk_at st dev))) (unat count * unat (bd_block_size (blk_at st dev))) (dev_bytes dev st))
    \<and> (io_results st = [] \<longrightarrow> st' = st)"
proof -
  let ?bs = "unat (bd_block_size (blk_at st dev))"
  obtain d lba' where d: "dev_read_blocks 2 dev lba count st = Some (driver_read d lba' count st)" "driver_data d = dev_disk dev st"
      "bd_block_size d = bd_block_size (blk_at st dev)" "unat lba' * unat (bd_block_size d) = dev_base dev st + unat lba * unat (bd_block_size d)"
    using driver_at [OF ok r nz, of "[]"] by metis
  have "(unat lba + unat count) * ?bs \<le> dev_len dev st" unfolding dev_len_def using r by (rule mult_le_mono1)
  then have b: "unat lba * ?bs + unat count * ?bs \<le> dev_len dev st" by (simp add: add_mult_distrib)
  have m: "dev_base dev st + dev_len dev st \<le> length (media st (dev_disk dev st))" by (rule blk_ok_facts(4) [OF ok])
  show ?thesis
  proof (rule next_io_cases [of st])
    fix e st' assume "next_io st = (Some e, st')" "same_devs st st'" "media st' = media st" "io_results st \<noteq> []"
    then show ?thesis using d(1) by (simp add: driver_read_def)
  next
    fix st' assume n: "next_io st = (None, st')" "same_devs st st'" "media st' = media st" "io_results st = [] \<Longrightarrow> st' = st"
    have "driver_read d lba' count st = (Inr (slice (dev_base dev st + unat lba * ?bs) (unat count * ?bs) (media st (dev_disk dev st))), st')"
      using n b m d by (simp add: driver_read_def Let_def)
    then show ?thesis using d(1) n b by (simp add: dev_bytes_def slice_slice)
  qed
qed

lemma dev_write_blocks_ok:
  assumes ok: "blk_ok dev st" and r: "unat lba + unat count \<le> unat (block_count (blk_at st dev))" and nz: "count \<noteq> 0"
    and len: "length data = unat count * unat (bd_block_size (blk_at st dev))"
  shows "\<exists>q st'. dev_write_blocks 2 dev lba count data st = Some (q, st') \<and> same_devs st st'
    \<and> (case q of Inl _ \<Rightarrow> io_results st \<noteq> [] \<and> media st' = media st
        | Inr _ \<Rightarrow> media st' = media (with_range dev (unat lba * unat (bd_block_size (blk_at st dev))) data st))
    \<and> (io_results st = [] \<longrightarrow> st' = with_range dev (unat lba * unat (bd_block_size (blk_at st dev))) data st)"
proof -
  let ?bs = "unat (bd_block_size (blk_at st dev))"
  obtain d lba' where d: "dev_write_blocks 2 dev lba count data st = Some (driver_write d lba' count data st)" "driver_data d = dev_disk dev st"
      "bd_block_size d = bd_block_size (blk_at st dev)" "unat lba' * unat (bd_block_size d) = dev_base dev st + unat lba * unat (bd_block_size d)"
    using driver_at [OF ok r nz, of data] by metis
  have "(unat lba + unat count) * ?bs \<le> dev_len dev st" unfolding dev_len_def using r by (rule mult_le_mono1)
  then have b: "unat lba * ?bs + unat count * ?bs \<le> dev_len dev st" by (simp add: add_mult_distrib)
  have m: "dev_base dev st + dev_len dev st \<le> length (media st (dev_disk dev st))" by (rule blk_ok_facts(4) [OF ok])
  show ?thesis
  proof (rule next_io_cases [of st])
    fix e st' assume "next_io st = (Some e, st')" "same_devs st st'" "media st' = media st" "io_results st \<noteq> []"
    then show ?thesis using d(1) by (simp add: driver_write_def)
  next
    fix st' assume n: "next_io st = (None, st')" "same_devs st st'" "media st' = media st" "io_results st = [] \<Longrightarrow> st' = st"
    have "driver_write d lba' count data st =
        (Inr (), st'\<lparr>media := (media st')(dev_disk dev st := splice (dev_base dev st + unat lba * ?bs) data (media st (dev_disk dev st)))\<rparr>)"
      using n b m d len by (simp add: driver_write_def Let_def)
    then show ?thesis using d(1) n by (auto simp: with_range_def same_devs_def)
  qed
qed

text \<open>Writing a range leaves the device well-formed and changes its bytes exactly there.\<close>

lemma with_range_ok:
  assumes ok: "blk_ok dev st" and r: "i + length ys \<le> dev_len dev st"
  shows "same_devs st (with_range dev i ys st)" "dev_bytes dev (with_range dev i ys st) = splice i ys (dev_bytes dev st)"
    "blk_ok dev (with_range dev i ys st)"
proof -
  note f = blk_ok_facts(4,5) [OF ok]
  show "same_devs st (with_range dev i ys st)" by (simp add: with_range_def same_devs_def)
  have l: "length (splice (dev_base dev st + i) ys (media st (dev_disk dev st))) = length (media st (dev_disk dev st))"
    using f r by simp
  have e: "dev_base dev (with_range dev i ys st) = dev_base dev st" "dev_len dev (with_range dev i ys st) = dev_len dev st"
      "dev_disk dev (with_range dev i ys st) = dev_disk dev st"
    by (simp_all add: with_range_def dev_base_def dev_len_def dev_disk_def)
  show "dev_bytes dev (with_range dev i ys st) = splice i ys (dev_bytes dev st)"
    unfolding dev_bytes_def e using f r
    by (intro nth_equalityI) (auto simp: with_range_def nth_splice)
  have "length (media (with_range dev i ys st) k) = length (media st k)" for k using l by (simp add: with_range_def)
  then show "blk_ok dev (with_range dev i ys st)" using ok
    by (simp add: blk_ok_def whole_disk_def partition_def Let_def) (simp add: with_range_def)
qed

lemma with_range_Nil [simp]: "with_range dev i [] st = st"
  by (simp add: with_range_def)

lemma with_range_append:
  assumes ok: "blk_ok dev st" and r: "i + length ys + length zs \<le> dev_len dev st"
  shows "with_range dev (i + length ys) zs (with_range dev i ys st) = with_range dev i (ys @ zs) st"
proof -
  have "dev_base dev st + i + length ys + length zs \<le> length (media st (dev_disk dev st))"
    using blk_ok_facts(4) [OF ok] r by simp
  from splice_append [OF this] show ?thesis
    by (simp add: with_range_def dev_base_def dev_disk_def Let_def add.assoc)
qed

lemma with_range_same_media:
  "same_devs st st' \<Longrightarrow> media st' = media st \<Longrightarrow> media (with_range dev i ys st') = media (with_range dev i ys st)"
  by (simp add: with_range_def dev_base_def dev_disk_def same_devs_def)

text \<open>Writing back a block in which a part was replaced is writing that part.\<close>

lemma block_rewrite:
  assumes ok: "blk_ok dev st" and r: "i + n \<le> dev_len dev st" and p: "p + length ys \<le> n"
  shows "with_range dev i (splice p ys (slice i n (dev_bytes dev st))) st = with_range dev (i + p) ys st"
proof -
  have m: "dev_base dev st + i + n \<le> length (media st (dev_disk dev st))" using blk_ok_facts(4) [OF ok] r by simp
  have "slice i n (dev_bytes dev st) = slice (dev_base dev st + i) n (media st (dev_disk dev st))"
    unfolding dev_bytes_def using r by (rule slice_slice)
  then show ?thesis using splice_in_slice [OF p m] by (simp add: with_range_def add.assoc)
qed

text \<open>The position of one block, as the loops compute it.\<close>

lemma block_position:
  assumes "0 < bs" "pos < bc * bs" "bc < 2 ^ 64"
  shows "unat (of_nat (pos div bs) :: u64) = pos div bs" "pos div bs + 1 \<le> bc"
proof -
  have l: "pos div bs < bc" using assms by (simp add: div_less_iff_less_mult)
  then show "pos div bs + 1 \<le> bc" by simp
  show "unat (of_nat (pos div bs) :: u64) = pos div bs" using l assms(3) by (simp add: unat_of_nat)
qed

lemma read_loop_ok:
  assumes "blk_ok dev st" "pos + len \<le> dev_len dev st"
  shows "\<exists>q st'. read_loop dev pos len st = Some (q, st') \<and> same_devs st st' \<and> media st' = media st
    \<and> (case q of Inl _ \<Rightarrow> io_results st \<noteq> [] | Inr x \<Rightarrow> x = slice pos len (dev_bytes dev st)) \<and> (io_results st = [] \<longrightarrow> st' = st)"
  using assms
proof (induction len arbitrary: pos st rule: less_induct)
  case (less len)
  let ?bs = "unat (bd_block_size (blk_at st dev))"
  have bs: "0 < ?bs" using blk_ok_facts(2) [OF less(2)] by (simp add: unat_gt_0)
  show ?case
  proof (cases "len = 0")
    case True
    then show ?thesis by (subst read_loop.simps) simp
  next
    case False
    define boff where "boff = pos mod ?bs"
    define chunk where "chunk = (if len < ?bs - boff then len else ?bs - boff)"
    have boff: "boff < ?bs" using bs by (simp add: boff_def)
    then have c: "0 < chunk" "chunk \<le> len" "boff + chunk \<le> ?bs" using False by (auto simp: chunk_def)
    have "pos < dev_len dev st" using less(3) False by simp
    then have p: "unat (of_nat (pos div ?bs) :: u64) = pos div ?bs" "pos div ?bs + 1 \<le> unat (block_count (blk_at st dev))"
      using block_position [OF bs, of pos "unat (block_count (blk_at st dev))"] by (simp_all add: dev_len_def)
    obtain q s1 where s1: "dev_read_blocks 2 dev (of_nat (pos div ?bs)) 1 st = Some (q, s1)" "same_devs st s1" "media s1 = media st"
        "case q of Inl _ \<Rightarrow> io_results st \<noteq> [] | Inr x \<Rightarrow> x = slice (pos div ?bs * ?bs) ?bs (dev_bytes dev st)" "io_results st = [] \<longrightarrow> s1 = st"
      using dev_read_blocks_ok [OF less(2), of "of_nat (pos div ?bs)" 1, unfolded p(1) unsigned_1 mult_1] p(2) by auto
    show ?thesis
    proof (cases q)
      case (Inl e)
      then show ?thesis using s1 bs False by (subst read_loop.simps) (simp add: Let_def)
    next
      case (Inr x)
      have ok1: "blk_ok dev s1" "dev_bytes dev s1 = dev_bytes dev st" "dev_len dev s1 = dev_len dev st"
        using same_devs_ok [OF s1(2,3)] less(2) by simp_all
      have "pos = pos div ?bs * ?bs + boff" by (simp add: boff_def)
      then have sl: "slice boff chunk x = slice pos chunk (dev_bytes dev st)"
        using s1(4) Inr slice_slice [OF c(3), of "pos div ?bs * ?bs" "dev_bytes dev st"] by simp
      have "len - chunk < len" "pos + chunk + (len - chunk) \<le> dev_len dev s1" using c False less(3) ok1(3) by simp_all
      from less(1) [OF this(1) ok1(1) this(2)] obtain q2 s2 where s2: "read_loop dev (pos + chunk) (len - chunk) s1 = Some (q2, s2)"
          "same_devs s1 s2" "media s2 = media s1" "case q2 of Inl _ \<Rightarrow> io_results s1 \<noteq> [] | Inr y \<Rightarrow> y = slice (pos + chunk) (len - chunk) (dev_bytes dev s1)"
          "io_results s1 = [] \<longrightarrow> s2 = s1"
        by blast
      have "slice pos chunk (dev_bytes dev st) @ slice (pos + chunk) (len - chunk) (dev_bytes dev st) = slice pos len (dev_bytes dev st)"
        using slice_add [of pos chunk "len - chunk" "dev_bytes dev st"] c(2) by simp
      moreover have "read_loop dev pos len st = Some (map_sum id (\<lambda>y. slice boff chunk x @ y) q2, s2)"
        using s1(1) s2(1) Inr bs False
        by (subst read_loop.simps)
          (simp add: Let_def boff_def [symmetric] chunk_def [symmetric] split: sum.split, simp add: chunk_def)
      moreover have "io_results st = [] \<Longrightarrow> s2 = st" using s1(5) s2(5) by simp
      ultimately show ?thesis using s1(5) s2(3,4) sl ok1(2) s1(3) same_devs_trans [OF s1(2) s2(2)]
        by (cases q2) auto
    qed
  qed
qed

lemma write_loop_ok:
  assumes "blk_ok dev st" "pos + length data \<le> dev_len dev st"
  shows "\<exists>q st' n. write_loop dev pos data st = Some (q, st') \<and> same_devs st st' \<and> n \<le> length data
    \<and> media st' = media (with_range dev pos (take n data) st)
    \<and> (case q of Inl _ \<Rightarrow> io_results st \<noteq> [] | Inr _ \<Rightarrow> n = length data) \<and> (io_results st = [] \<longrightarrow> st' = with_range dev pos data st)"
  using assms
proof (induction "length data" arbitrary: pos data st rule: less_induct)
  case less
  let ?bs = "unat (bd_block_size (blk_at st dev))"
  have bs: "0 < ?bs" using blk_ok_facts(2) [OF less(2)] by (simp add: unat_gt_0)
  show ?case
  proof (cases "data = []")
    case True
    then show ?thesis by (subst write_loop.simps) simp
  next
    case False
    define boff where "boff = pos mod ?bs"
    define chunk where "chunk = (if length data < ?bs - boff then length data else ?bs - boff)"
    have boff: "boff < ?bs" using bs by (simp add: boff_def)
    have lp: "0 < length data" using False by simp
    then have c: "0 < chunk" "chunk \<le> length data" "boff + chunk \<le> ?bs" using boff by (auto simp: chunk_def)
    have "pos < dev_len dev st" using less(3) lp by linarith
    then have p: "unat (of_nat (pos div ?bs) :: u64) = pos div ?bs" "pos div ?bs + 1 \<le> unat (block_count (blk_at st dev))"
      using block_position [OF bs, of pos "unat (block_count (blk_at st dev))"] by (simp_all add: dev_len_def)
    obtain q s1 where s1: "dev_read_blocks 2 dev (of_nat (pos div ?bs)) 1 st = Some (q, s1)" "same_devs st s1" "media s1 = media st"
        "case q of Inl _ \<Rightarrow> io_results st \<noteq> [] | Inr x \<Rightarrow> x = slice (pos div ?bs * ?bs) ?bs (dev_bytes dev st)" "io_results st = [] \<longrightarrow> s1 = st"
      using dev_read_blocks_ok [OF less(2), of "of_nat (pos div ?bs)" 1, unfolded p(1) unsigned_1 mult_1] p(2) by auto
    show ?thesis
    proof (cases q)
      case (Inl e)
      then have "write_loop dev pos data st = Some (Inl e, s1)" using s1 bs False by (subst write_loop.simps) (simp add: Let_def)
      then show ?thesis using s1 Inl by (intro exI [of _ "Inl e"] exI [of _ s1] exI [of _ 0]) simp
    next
      case (Inr x)
      have e1: "blk_at s1 = blk_at st" using s1(2) by (simp add: same_devs_def)
      have ok1: "blk_ok dev s1" "dev_bytes dev s1 = dev_bytes dev st" "dev_len dev s1 = dev_len dev st"
        using same_devs_ok [OF s1(2,3)] less(2) by simp_all
      have in_dev: "pos div ?bs * ?bs + ?bs \<le> dev_len dev st"
        using mult_le_mono1 [OF p(2), of ?bs] by (simp add: dev_len_def add_mult_distrib)
      have x: "x = slice (pos div ?bs * ?bs) ?bs (dev_bytes dev st)" "length x = ?bs"
        using s1(4) Inr in_dev length_dev_bytes [OF less(2)] by simp_all
      let ?w = "splice boff (take chunk data) x"
      have lw: "length ?w = ?bs" using x(2) c by simp
      obtain q2 s2 where s2: "dev_write_blocks 2 dev (of_nat (pos div ?bs)) 1 ?w s1 = Some (q2, s2)" "same_devs s1 s2"
          "case q2 of Inl _ \<Rightarrow> io_results s1 \<noteq> [] \<and> media s2 = media s1 | Inr _ \<Rightarrow> media s2 = media (with_range dev (pos div ?bs * ?bs) ?w s1)"
          "io_results s1 = [] \<longrightarrow> s2 = with_range dev (pos div ?bs * ?bs) ?w s1"
        using dev_write_blocks_ok [OF ok1(1), of "of_nat (pos div ?bs)" 1 ?w, unfolded e1 p(1) unsigned_1 mult_1] p(2) lw by auto
      have wr: "with_range dev (pos div ?bs * ?bs) ?w s1 = with_range dev pos (take chunk data) s1"
        using block_rewrite [OF ok1(1), of "pos div ?bs * ?bs" ?bs boff "take chunk data"] in_dev c x(1) ok1(2,3)
        by (simp add: boff_def)
      show ?thesis
      proof (cases q2)
        case (Inl e)
        then have "write_loop dev pos data st = Some (Inl e, s2)" using s1 s2 Inr bs False
          by (subst write_loop.simps) (simp add: Let_def boff_def [symmetric] chunk_def [symmetric])
        moreover have "io_results st \<noteq> []" using Inl s1(5) s2(3) by auto
        ultimately show ?thesis using s1(2,3) s2(2,3) Inl same_devs_trans [OF s1(2) s2(2)]
          by (intro exI [of _ "Inl e"] exI [of _ s2] exI [of _ 0]) simp
      next
        case (Inr u)
        have m2: "media s2 = media (with_range dev pos (take chunk data) st)"
          using s2(3) Inr wr with_range_same_media [OF s1(2,3)] by simp
        let ?t = "with_range dev pos (take chunk data) st"
        have st: "same_devs st s2" by (rule same_devs_trans [OF s1(2) s2(2)])
        have t: "same_devs st ?t" "blk_ok dev ?t" using with_range_ok [OF less(2), of pos "take chunk data"] less(3) c by simp_all
        have ts: "same_devs ?t s2" using st t(1) by (simp add: same_devs_def)
        have ok2: "blk_ok dev s2" "dev_len dev s2 = dev_len dev st"
          using same_devs_ok [OF ts m2] t(2) same_devs_ok(5) [OF st] st by (simp_all add: dev_len_def same_devs_def)
        have "length (drop chunk data) < length data" "pos + chunk + length (drop chunk data) \<le> dev_len dev s2"
          using c lp less(3) ok2(2) by simp_all
        from less(1) [OF this(1) ok2(1) this(2)] obtain q3 s3 n where s3: "write_loop dev (pos + chunk) (drop chunk data) s2 = Some (q3, s3)"
            "same_devs s2 s3" "n \<le> length (drop chunk data)" "media s3 = media (with_range dev (pos + chunk) (take n (drop chunk data)) s2)"
            "case q3 of Inl _ \<Rightarrow> io_results s2 \<noteq> [] | Inr _ \<Rightarrow> n = length (drop chunk data)"
            "io_results s2 = [] \<longrightarrow> s3 = with_range dev (pos + chunk) (drop chunk data) s2"
          by blast
        have w: "write_loop dev pos data st = Some (q3, s3)" using s1 s2 s3(1) \<open>q = Inr x\<close> Inr bs False
          by (subst write_loop.simps) (simp add: Let_def boff_def [symmetric] chunk_def [symmetric])
        have app: "with_range dev (pos + chunk) (take k (drop chunk data)) ?t = with_range dev pos (take (chunk + k) data) st"
          if "k \<le> length data - chunk" for k
        proof -
          have "length (take chunk data) = chunk" "length (take k (drop chunk data)) = k" using c that by simp_all
          then show ?thesis using with_range_append [OF less(2), of pos "take chunk data" "take k (drop chunk data)"] less(3) c that
            by (simp add: take_add)
        qed
        have "media s3 = media (with_range dev pos (take (chunk + n) data) st)"
          using s3(3,4) with_range_same_media [OF ts m2] app [of n] by simp
        moreover have "s3 = with_range dev pos data st" if "io_results st = []"
        proof -
          have "s1 = st" using s1(5) that by simp
          then have "s2 = ?t" using s2(4) that wr by simp
          then show ?thesis using s3(6) that app [of "length data - chunk"] c by (simp add: with_range_def)
        qed
        moreover have "case q3 of Inl _ \<Rightarrow> io_results st \<noteq> [] | Inr _ \<Rightarrow> chunk + n = length data"
          using s3(5) c s1(5) s2(4) by (cases q3) (auto simp: with_range_def)
        ultimately show ?thesis using w s3(2,3) same_devs_trans [OF st s3(2)] c
          by (intro exI [of _ q3] exI [of _ s3] exI [of _ "chunk + n"]) simp
      qed
    qed
  qed
qed

section \<open>Ranges of bytes\<close>

lemma dev_size_len: "blk_ok dev st \<Longrightarrow> unat (dev_size (blk_at st dev)) = dev_len dev st"
proof -
  assume ok: "blk_ok dev st"
  have "dev_len dev st < 2 ^ 64" using blk_ok_facts(5) [OF ok] by simp
  then show ?thesis by (simp add: dev_size_def dev_len_def unat_word_ariths unat_ucast64)
qed

lemma range_check:
  assumes ok: "blk_ok dev st"
  shows "(dev_size (blk_at st dev) \<le> off \<or> dev_size (blk_at st dev) - off < len) \<longleftrightarrow> dev_len dev st \<le> unat off \<or> dev_len dev st < unat off + unat len"
proof (cases "dev_size (blk_at st dev) \<le> off")
  case True
  then show ?thesis using dev_size_len [OF ok] by (simp add: word_le_nat_alt)
next
  case False
  then have "unat (dev_size (blk_at st dev) - off) = dev_len dev st - unat off" "unat off < dev_len dev st"
    using dev_size_len [OF ok] by (simp_all add: unat_sub word_le_nat_alt not_le)
  then show ?thesis using False dev_size_len [OF ok] by (auto simp: word_less_nat_alt word_le_nat_alt)
qed

text \<open>The aligned case: whole blocks in one transfer.\<close>

lemma aligned_blocks:
  fixes off len :: u64 and bs :: u32
  assumes a: "off mod ucast bs = 0" "len mod ucast bs = 0" and bs: "bs \<noteq> 0" and l: "unat len div unat bs < 2 ^ 32"
  shows "unat (off div ucast bs) * unat bs = unat off" "unat (ucast (len div ucast bs) :: u32) * unat bs = unat len"
proof -
  have "unat off mod unat bs = 0" "unat len mod unat bs = 0"
    using arg_cong [OF a(1), of unat] arg_cong [OF a(2), of unat] by (simp_all add: unat_mod_distrib unat_ucast64)
  then have m: "unat off div unat bs * unat bs = unat off" "unat len div unat bs * unat bs = unat len" by (simp_all add: mod_0_imp_dvd)
  have "unat (off div ucast bs) = unat off div unat bs" "unat (len div ucast bs) = unat len div unat bs"
    by (simp_all add: unat_div_distrib unat_ucast64)
  then show "unat (off div ucast bs) * unat bs = unat off" "unat (ucast (len div ucast bs) :: u32) * unat bs = unat len"
    using m l by (simp_all add: unsigned_ucast_eq take_bit_eq_mod)
qed

lemma next_mem_cases:
  obtains st' where "next_mem st = (False, st')" "same_devs st st'" "media st' = media st" "io_results st' = io_results st" "mem_results st \<noteq> []"
  | st' where "next_mem st = (True, st')" "same_devs st st'" "media st' = media st" "io_results st' = io_results st" "mem_results st = [] \<Longrightarrow> st' = st"
  by (cases "mem_results st"; cases "hd (mem_results st)") (auto simp: next_mem_def same_devs_def)

lemma block_read_ok:
  assumes ok: "blk_ok dev st" and r: "unat off + unat len \<le> dev_len dev st" and nz: "len \<noteq> 0"
    and l: "unat len div unat (bd_block_size (blk_at st dev)) < 2 ^ 32"
  shows "\<exists>q st'. block_read dev off len st = Some (q, st') \<and> same_devs st st' \<and> media st' = media st
    \<and> (case q of Inl _ \<Rightarrow> io_results st \<noteq> [] \<or> mem_results st \<noteq> [] | Inr x \<Rightarrow> x = slice (unat off) (unat len) (dev_bytes dev st))
    \<and> (io_results st = [] \<and> mem_results st = [] \<longrightarrow> st' = st)"
proof -
  let ?bs = "bd_block_size (blk_at st dev)"
  note f = blk_ok_facts [OF ok]
  have ul: "0 < unat len" using nz by (simp add: unat_gt_0)
  then have rc: "\<not> (dev_size (blk_at st dev) \<le> off \<or> dev_size (blk_at st dev) - off < len)"
    using range_check [OF ok, of off len] r by simp
  show ?thesis
  proof (cases "off mod ucast ?bs = 0 \<and> len mod ucast ?bs = 0")
    case True
    then have e: "block_read dev off len st = dev_read_blocks 2 dev (off div ucast ?bs) (ucast (len div ucast ?bs)) st"
      using f nz rc by (simp add: block_read_def Let_def)
    note al = aligned_blocks [OF conjunct1 [OF True] conjunct2 [OF True] f(2) l]
    have "(unat (off div ucast ?bs) + unat (ucast (len div ucast ?bs) :: u32)) * unat ?bs \<le> unat (block_count (blk_at st dev)) * unat ?bs"
      using r al by (simp add: add_mult_distrib dev_len_def)
    then have b: "unat (off div ucast ?bs) + unat (ucast (len div ucast ?bs) :: u32) \<le> unat (block_count (blk_at st dev))"
      using f(2) by (simp add: unat_gt_0)
    have c: "(ucast (len div ucast ?bs) :: u32) \<noteq> 0" using al(2) ul by auto
    obtain q s1 where s1: "dev_read_blocks 2 dev (off div ucast ?bs) (ucast (len div ucast ?bs)) st = Some (q, s1)" "same_devs st s1"
        "media s1 = media st" "case q of Inl _ \<Rightarrow> io_results st \<noteq> [] | Inr x \<Rightarrow> x = slice (unat off) (unat len) (dev_bytes dev st)"
        "io_results st = [] \<longrightarrow> s1 = st"
      using dev_read_blocks_ok [OF ok b c, unfolded al] by blast
    then show ?thesis using e by (intro exI [of _ q] exI [of _ s1]) (auto split: sum.splits)
  next
    case False
    show ?thesis
    proof (rule next_mem_cases [of st])
      fix st' assume "next_mem st = (False, st')" "same_devs st st'" "media st' = media st" "mem_results st \<noteq> []"
      moreover from this have "block_read dev off len st = Some (Inl ENOMEM, st')" using f nz rc False by (auto simp: block_read_def Let_def)
      ultimately show ?thesis by simp
    next
      fix s1 assume n: "next_mem st = (True, s1)" "same_devs st s1" "media s1 = media st" "io_results s1 = io_results st"
        "mem_results st = [] \<Longrightarrow> s1 = st"
      note d = same_devs_ok [OF n(2,3)]
      have e: "block_read dev off len st = read_loop dev (unat off) (unat len) s1" using f nz rc False n by (auto simp: block_read_def Let_def)
      obtain q s2 where s2: "read_loop dev (unat off) (unat len) s1 = Some (q, s2)" "same_devs s1 s2" "media s2 = media s1"
          "case q of Inl _ \<Rightarrow> io_results s1 \<noteq> [] | Inr x \<Rightarrow> x = slice (unat off) (unat len) (dev_bytes dev s1)" "io_results s1 = [] \<longrightarrow> s2 = s1"
        using read_loop_ok [of dev s1 "unat off" "unat len"] ok r d by auto
      then show ?thesis using e n d(2) same_devs_trans [OF n(2) s2(2)] by (auto split: sum.splits)
    qed
  qed
qed

lemma block_write_ok:
  assumes ok: "blk_ok dev st" and r: "unat off + length data \<le> dev_len dev st" and nz: "data \<noteq> []"
    and l: "length data div unat (bd_block_size (blk_at st dev)) < 2 ^ 32"
  shows "\<exists>q st' n. block_write dev off data st = Some (q, st') \<and> same_devs st st' \<and> n \<le> length data
    \<and> media st' = media (with_range dev (unat off) (take n data) st)
    \<and> (case q of Inl _ \<Rightarrow> io_results st \<noteq> [] \<or> mem_results st \<noteq> [] | Inr _ \<Rightarrow> n = length data)
    \<and> (io_results st = [] \<and> mem_results st = [] \<longrightarrow> st' = with_range dev (unat off) data st)"
proof -
  let ?bs = "bd_block_size (blk_at st dev)" and ?len = "of_nat (length data) :: u64"
  note f = blk_ok_facts [OF ok]
  have ul: "unat ?len = length data" "0 < length data" using r f(5) nz by (simp_all add: unat_of_nat)
  have rc: "\<not> (dev_size (blk_at st dev) \<le> off \<or> dev_size (blk_at st dev) - off < ?len)"
    using range_check [OF ok, of off ?len] r ul nz by simp
  show ?thesis
  proof (cases "off mod ucast ?bs = 0 \<and> ?len mod ucast ?bs = 0")
    case True
    then have e: "block_write dev off data st = dev_write_blocks 2 dev (off div ucast ?bs) (ucast (?len div ucast ?bs)) data st"
      using f nz rc by (simp add: block_write_def Let_def)
    note al = aligned_blocks [OF conjunct1 [OF True] conjunct2 [OF True] f(2), unfolded ul, OF l]
    have "(unat (off div ucast ?bs) + unat (ucast (?len div ucast ?bs) :: u32)) * unat ?bs \<le> unat (block_count (blk_at st dev)) * unat ?bs"
      using r al by (simp add: add_mult_distrib dev_len_def)
    then have b: "unat (off div ucast ?bs) + unat (ucast (?len div ucast ?bs) :: u32) \<le> unat (block_count (blk_at st dev))"
      using f(2) by (simp add: unat_gt_0)
    have c: "(ucast (?len div ucast ?bs) :: u32) \<noteq> 0" using al(2) ul by auto
    obtain q s1 where s1: "dev_write_blocks 2 dev (off div ucast ?bs) (ucast (?len div ucast ?bs)) data st = Some (q, s1)" "same_devs st s1"
        "case q of Inl _ \<Rightarrow> io_results st \<noteq> [] \<and> media s1 = media st | Inr _ \<Rightarrow> media s1 = media (with_range dev (unat off) data st)"
        "io_results st = [] \<longrightarrow> s1 = with_range dev (unat off) data st"
      using dev_write_blocks_ok [OF ok b c, of data, unfolded al] by auto
    then show ?thesis using e
      by (intro exI [of _ q] exI [of _ s1] exI [of _ "case q of Inl _ \<Rightarrow> 0 | Inr _ \<Rightarrow> length data"]) (auto split: sum.splits)
  next
    case False
    show ?thesis
    proof (rule next_mem_cases [of st])
      fix st' assume "next_mem st = (False, st')" "same_devs st st'" "media st' = media st" "mem_results st \<noteq> []"
      then show ?thesis using f nz rc False by (intro exI [of _ "Inl ENOMEM"] exI [of _ st'] exI [of _ 0]) (auto simp: block_write_def Let_def)
    next
      fix s1 assume n: "next_mem st = (True, s1)" "same_devs st s1" "media s1 = media st" "io_results s1 = io_results st"
        "mem_results st = [] \<Longrightarrow> s1 = st"
      note d = same_devs_ok [OF n(2,3)]
      have e: "block_write dev off data st = write_loop dev (unat off) data s1" using f nz rc False n by (auto simp: block_write_def Let_def)
      obtain q s2 k where s2: "write_loop dev (unat off) data s1 = Some (q, s2)" "same_devs s1 s2" "k \<le> length data"
          "media s2 = media (with_range dev (unat off) (take k data) s1)"
          "case q of Inl _ \<Rightarrow> io_results s1 \<noteq> [] | Inr _ \<Rightarrow> k = length data" "io_results s1 = [] \<longrightarrow> s2 = with_range dev (unat off) data s1"
        using write_loop_ok [of dev s1 "unat off" data] ok r d by auto
      then show ?thesis using e n with_range_same_media [OF n(2,3)] same_devs_trans [OF n(2) s2(2)]
        by (intro exI [of _ q] exI [of _ s2] exI [of _ k]) (auto split: sum.splits)
    qed
  qed
qed

lemma same_devs_view:
  "same_devs st st' \<Longrightarrow> dev_base d st' = dev_base d st"
  "same_devs st st' \<Longrightarrow> dev_len d st' = dev_len d st"
  "same_devs st st' \<Longrightarrow> dev_disk d st' = dev_disk d st"
  by (simp_all add: same_devs_def dev_base_def dev_len_def dev_disk_def)

lemma other_device_kept:
  assumes ok: "blk_ok dev st" "blk_ok d' st" and r: "i + length ys \<le> dev_len dev st"
    and dis: "dev_disk d' st \<noteq> dev_disk dev st \<or> dev_base d' st + dev_len d' st \<le> dev_base dev st
      \<or> dev_base dev st + dev_len dev st \<le> dev_base d' st"
  shows "slice (dev_base d' st) (dev_len d' st) (media (with_range dev i ys st) (dev_disk d' st)) = dev_bytes d' st"
proof (cases "dev_disk d' st = dev_disk dev st")
  case False
  then show ?thesis by (simp add: with_range_def dev_bytes_def)
next
  case True
  have "dev_base dev st + i + length ys \<le> length (media st (dev_disk dev st))"
      "dev_base d' st + dev_len d' st \<le> length (media st (dev_disk dev st))"
    using blk_ok_facts(4) [OF ok(1)] blk_ok_facts(4) [OF ok(2)] r True by simp_all
  then show ?thesis using True dis r slice_splice_other [of "dev_base dev st + i" ys] by (auto simp: with_range_def dev_bytes_def)
qed

text \<open>C3.  Writing a byte range to a disk or a partition.  Whatever transfers and allocations fail, the call returns; the device then
  holds a prefix of the data at the range and is otherwise unchanged, and so is every device that does not overlap it, in
  particular every other partition.  A successful write has written everything, and without failures the write
  succeeds and reading the range gives the data back.\<close>

theorem block_write_confined:
  assumes "blk_ok dev st" "unat off + length data \<le> dev_len dev st" "data \<noteq> []"
    and "length data div unat (bd_block_size (blk_at st dev)) < 2 ^ 32"
  shows "\<exists>q st' n. block_write dev off data st = Some (q, st') \<and> n \<le> length data \<and> (q = Inr () \<longrightarrow> n = length data)
    \<and> dev_bytes dev st' = splice (unat off) (take n data) (dev_bytes dev st)
    \<and> (\<forall>d'. blk_ok d' st \<and> (dev_disk d' st \<noteq> dev_disk dev st \<or> dev_base d' st + dev_len d' st \<le> dev_base dev st
          \<or> dev_base dev st + dev_len dev st \<le> dev_base d' st) \<longrightarrow> dev_bytes d' st' = dev_bytes d' st)
    \<and> (io_results st = [] \<and> mem_results st = []
        \<longrightarrow> q = Inr () \<and> block_read dev off (of_nat (length data)) st' = Some (Inr data, st'))"
proof -
  obtain q st' n where w: "block_write dev off data st = Some (q, st')" "same_devs st st'" "n \<le> length data"
      "media st' = media (with_range dev (unat off) (take n data) st)"
      "case q of Inl _ \<Rightarrow> io_results st \<noteq> [] \<or> mem_results st \<noteq> [] | Inr _ \<Rightarrow> n = length data"
      "io_results st = [] \<and> mem_results st = [] \<longrightarrow> st' = with_range dev (unat off) data st"
    using block_write_ok [OF assms] by blast
  have r: "unat off + length (take n data) \<le> dev_len dev st" using assms(2) w(3) by simp
  note wr = with_range_ok [OF assms(1) r]
  let ?t = "with_range dev (unat off) (take n data) st"
  have ts: "same_devs ?t st'" using w(2) wr(1) by (simp add: same_devs_def)
  note d = same_devs_ok [OF ts w(4)]
  have b: "dev_bytes dev st' = splice (unat off) (take n data) (dev_bytes dev st)" using d(2) wr(2) by simp
  have o: "dev_bytes d' st' = dev_bytes d' st" if "blk_ok d' st" "dev_disk d' st \<noteq> dev_disk dev st
      \<or> dev_base d' st + dev_len d' st \<le> dev_base dev st \<or> dev_base dev st + dev_len dev st \<le> dev_base d' st" for d'
    using other_device_kept [OF assms(1) that(1) r that(2)] w(4) same_devs_view [OF w(2)] by (simp add: dev_bytes_def [of d' st'])
  have rd: "q = Inr () \<and> block_read dev off (of_nat (length data)) st' = Some (Inr data, st')" if "io_results st = []" "mem_results st = []"
  proof -
    have q: "q = Inr ()" "n = length data" using w(5) that by (auto split: sum.splits)
    have e: "io_results st' = []" "mem_results st' = []" using w(6) that by (simp_all add: with_range_def)
    have ok': "blk_ok dev st'" "dev_len dev st' = dev_len dev st" "blk_at st' = blk_at st"
      using d(1) wr(3) w(2) by (simp_all add: dev_len_def same_devs_def)
    have len: "unat (of_nat (length data) :: u64) = length data"
      using assms(2) blk_ok_facts(5) [OF assms(1)] by (simp add: unat_of_nat)
    have "of_nat (length data) \<noteq> (0 :: u64)" using len assms(3) by (metis length_0_conv unat_0)
    from block_read_ok [OF ok'(1) _ this, of off, unfolded len ok'(2,3)] assms(2,4)
    obtain p s2 where "block_read dev off (of_nat (length data)) st' = Some (p, s2)"
        "case p of Inl _ \<Rightarrow> io_results st' \<noteq> [] \<or> mem_results st' \<noteq> [] | Inr x \<Rightarrow> x = slice (unat off) (length data) (dev_bytes dev st')"
        "io_results st' = [] \<and> mem_results st' = [] \<longrightarrow> s2 = st'" by blast
    then have "block_read dev off (of_nat (length data)) st' = Some (Inr (slice (unat off) (length data) (dev_bytes dev st')), st')"
      using e by (cases p) simp_all
    then show ?thesis using q b slice_splice_same [of "unat off" data "dev_bytes dev st"] assms(1,2) by simp
  qed
  show ?thesis using w(1,3,5) b o rd by (intro exI [of _ q] exI [of _ st'] exI [of _ n]) (auto split: sum.splits)
qed

text \<open>A disk of four blocks of 512 bytes with a partition of its two middle blocks.\<close>

definition sample_disk :: blk where
  "sample_disk =
     \<lparr>blk_at = (\<lambda>a. if a = 1 then zero_blk\<lparr>bd_block_size := 512, block_count := 4, read_blocks := OpDriver, write_blocks := OpDriver\<rparr>
        else zero_blk\<lparr>bd_block_size := 512, block_count := 2, lba_offset := 1, read_blocks := OpPart, write_blocks := OpPart, bd_parent := 1\<rparr>),
      block_devices = [2, 1], fresh_blk = 3, media = (\<lambda>_. replicate 2048 0), io_results = [], mem_results = []\<rparr>"

lemma sample_disk_ok: "blk_ok 2 sample_disk" "dev_len 2 sample_disk = 1024"
  by (simp_all add: blk_ok_def partition_def whole_disk_def dev_len_def sample_disk_def zero_blk_def)

theorem block_write_confined_witness:
  "\<exists>st'. block_write 2 510 [1, 2, 3, 4] sample_disk = Some (Inr (), st') \<and> dev_bytes 2 st' = splice 510 [1, 2, 3, 4] (dev_bytes 2 sample_disk)
     \<and> block_read 2 510 4 st' = Some (Inr [1, 2, 3, 4], st')"
proof -
  have h: "unat (510 :: u64) + length [1 :: u8, 2, 3, 4] \<le> dev_len 2 sample_disk" "[1 :: u8, 2, 3, 4] \<noteq> []"
      "length [1 :: u8, 2, 3, 4] div unat (bd_block_size (blk_at sample_disk 2)) < 2 ^ 32"
    using sample_disk_ok(2) by (simp_all add: sample_disk_def zero_blk_def)
  have "io_results sample_disk = [] \<and> mem_results sample_disk = []" by (simp add: sample_disk_def)
  with block_write_confined [OF sample_disk_ok(1) h] show ?thesis by auto
qed

section \<open>Registration keeps partitions inside their disks\<close>

definition devices_ok :: "blk \<Rightarrow> bool" where
  "devices_ok st \<longleftrightarrow> (\<forall>d\<in>set (block_devices st). blk_ok d st \<and> unat d < unat (fresh_blk st)
     \<and> (bd_parent (blk_at st d) \<noteq> 0 \<longrightarrow> bd_parent (blk_at st d) \<in> set (block_devices st)))"

lemma devices_okD:
  assumes "devices_ok st" "d \<in> set (block_devices st)"
  shows "blk_ok d st" "unat d < unat (fresh_blk st)" "d \<noteq> fresh_blk st"
    "bd_parent (blk_at st d) \<noteq> 0 \<Longrightarrow> bd_parent (blk_at st d) \<in> set (block_devices st)"
  using assms by (auto simp: devices_ok_def)

lemma devices_ok_same: "same_devs st st' \<Longrightarrow> media st' = media st \<Longrightarrow> devices_ok st' = devices_ok st"
  by (simp add: devices_ok_def same_devs_ok(1)) (simp add: same_devs_def)

lemma whole_disk_same: "same_devs st st' \<Longrightarrow> media st' = media st \<Longrightarrow> whole_disk d st' = whole_disk d st"
  by (simp add: whole_disk_def same_devs_def)

lemma block_read_any:
  assumes ok: "blk_ok dev st" and l: "unat len div unat (bd_block_size (blk_at st dev)) < 2 ^ 32"
  shows "\<exists>q st'. block_read dev off len st = Some (q, st') \<and> same_devs st st' \<and> media st' = media st"
proof (cases "len = 0 \<or> dev_len dev st \<le> unat off \<or> dev_len dev st < unat off + unat len")
  case True
  then show ?thesis using range_check [OF ok, of off len] blk_ok_facts(1) [OF ok] by (auto simp: block_read_def Let_def)
next
  case False
  then show ?thesis using block_read_ok [OF ok _ _ l, of off] by auto
qed

text \<open>A device at a new address leaves the others as they are.\<close>

lemma blk_ok_new:
  assumes ok: "devices_ok st" and d: "d \<in> set (block_devices st)"
  shows "blk_ok d (st\<lparr>blk_at := (blk_at st)(fresh_blk st := n), block_devices := bs, fresh_blk := k\<rparr>)"
proof -
  note f = devices_okD [OF ok d]
  have "bd_parent (blk_at st d) \<noteq> fresh_blk st" if "partition d st"
    using that devices_okD(3) [OF ok f(4)] by (simp add: partition_def Let_def)
  then show ?thesis using f(1,3) by (auto simp: blk_ok_def whole_disk_def partition_def Let_def)
qed

lemma devices_ok_new:
  assumes ok: "devices_ok st" and f: "unat (fresh_blk st) + 1 < 2 ^ 64"
    and new: "blk_ok (fresh_blk st) (st\<lparr>blk_at := (blk_at st)(fresh_blk st := n), block_devices := fresh_blk st # block_devices st, fresh_blk := fresh_blk st + 1\<rparr>)"
    and par: "bd_parent n = 0 \<or> bd_parent n \<in> set (block_devices st)"
  shows "devices_ok (st\<lparr>blk_at := (blk_at st)(fresh_blk st := n), block_devices := fresh_blk st # block_devices st, fresh_blk := fresh_blk st + 1\<rparr>)"
    (is "devices_ok ?t")
proof -
  have u: "unat (fresh_blk st + 1) = unat (fresh_blk st) + 1" using f by (simp add: unat_word_ariths)
  have "blk_ok d ?t \<and> unat d < unat (fresh_blk ?t) \<and> (bd_parent (blk_at ?t d) \<noteq> 0 \<longrightarrow> bd_parent (blk_at ?t d) \<in> set (block_devices ?t))"
    if "d \<in> set (block_devices ?t)" for d
  proof (cases "d = fresh_blk st")
    case True
    then show ?thesis using new par u by auto
  next
    case False
    then have d: "d \<in> set (block_devices st)" using that by simp
    show ?thesis using devices_okD [OF ok d] blk_ok_new [OF ok d] u by auto
  qed
  then show ?thesis by (simp only: devices_ok_def) blast
qed

text \<open>\<open>blk_keeps st st'\<close>: the devices of \<open>st\<close> are still there, at most one more per step.\<close>

definition blk_keeps :: "nat \<Rightarrow> blk \<Rightarrow> blk \<Rightarrow> bool" where
  "blk_keeps k st st' \<longleftrightarrow> devices_ok st' \<and> media st' = media st \<and> set (block_devices st) \<subseteq> set (block_devices st')
     \<and> (\<forall>d\<in>set (block_devices st). blk_at st' d = blk_at st d) \<and> unat (fresh_blk st') \<le> unat (fresh_blk st) + k"

lemma blk_keeps_refl: "devices_ok st \<Longrightarrow> blk_keeps k st st"
  by (simp add: blk_keeps_def)

lemma blk_keeps_same: "devices_ok st \<Longrightarrow> same_devs st st' \<Longrightarrow> media st' = media st \<Longrightarrow> blk_keeps k st st'"
  using devices_ok_same [of st st'] by (simp add: blk_keeps_def same_devs_def)

lemma blk_keeps_trans: "blk_keeps k a b \<Longrightarrow> blk_keeps l b c \<Longrightarrow> blk_keeps (k + l) a c"
  by (fastforce simp: blk_keeps_def)

lemma blk_keeps_disk:
  assumes "blk_keeps k st st'" "dev \<in> set (block_devices st)" "whole_disk dev st"
  shows "dev \<in> set (block_devices st')" "whole_disk dev st'" "blk_at st' dev = blk_at st dev"
  using assms by (auto simp: blk_keeps_def whole_disk_def)

lemma register_partition_keeps:
  assumes ok: "devices_ok st" and dev: "dev \<in> set (block_devices st)" "whole_disk dev st" and f: "unat (fresh_blk st) + 1 < 2 ^ 64"
  shows "blk_keeps 1 st (block_register_partition dev number start count st)"
proof -
  let ?d = "blk_at st dev"
  define nm where "nm = take 31 (bd_name ?d @ [0x70] @ print_decimal number)"
  have nm: "take 31 nm = nm" "nm \<noteq> []" unfolding nm_def by (simp only: take_take min.idem, simp)
  let ?n = "\<lparr>bd_name = nm, bd_block_size = bd_block_size ?d, block_count = count,
         lba_offset = start, read_blocks = OpPart, write_blocks = OpPart, flush_op = OpPart, driver_data = 0, bd_parent = dev\<rparr>"
  have w: "write_blocks ?d \<noteq> OpNone" "dev \<noteq> 0" "bd_block_size ?d \<noteq> 0" using dev(2) by (auto simp: whole_disk_def Let_def)
  show ?thesis
  proof (cases "number = 0 \<or> count = 0 \<or> block_count ?d \<le> start \<or> block_count ?d - start < count")
    case True
    then show ?thesis using blk_keeps_refl [OF ok] by (auto simp: block_register_partition_def Let_def)
  next
    case False
    then have e: "block_register_partition dev number start count st = snd (block_enter ?n st)"
      using w by (simp add: block_register_partition_def Let_def nm_def)
    have inside: "unat start + unat count \<le> unat (block_count ?d)"
    proof -
      have "unat (block_count ?d - start) = unat (block_count ?d) - unat start" "unat start < unat (block_count ?d)"
        using False by (simp_all add: unat_sub word_le_nat_alt not_le)
      then show ?thesis using False unfolding word_less_nat_alt by linarith
    qed
    show ?thesis
    proof (rule next_mem_cases [of st])
      fix s assume "next_mem st = (False, s)" "same_devs st s" "media s = media st"
      then show ?thesis using blk_keeps_same [OF ok] w(3) nm by (simp add: e block_enter_def)
    next
      fix s assume s: "next_mem st = (True, s)" "same_devs st s" "media s = media st"
      let ?t = "s\<lparr>blk_at := (blk_at s)(fresh_blk s := ?n), block_devices := fresh_blk s # block_devices s, fresh_blk := fresh_blk s + 1\<rparr>"
      have oks: "devices_ok s" "dev \<in> set (block_devices s)" "whole_disk dev s" "unat (fresh_blk s) + 1 < 2 ^ 64" "blk_at s = blk_at st"
        using s dev f ok devices_ok_same [OF s(2,3)] whole_disk_same [OF s(2,3)] by (simp_all add: same_devs_def)
      have ne: "dev \<noteq> fresh_blk s" "fresh_blk s \<noteq> 0" using oks(1,2) by (auto simp: devices_ok_def)
      have "whole_disk dev ?t" using oks(3) ne(1) by (simp add: whole_disk_def)
      then have "blk_ok (fresh_blk s) ?t" using ne inside oks(5) w(2) by (simp add: blk_ok_def partition_def)
      then have new: "devices_ok ?t" using devices_ok_new [OF oks(1,4), of ?n] oks(2) by simp
      have "unat (fresh_blk s + 1) = unat (fresh_blk s) + 1" using oks(4) by (simp add: unat_word_ariths)
      moreover have "d \<noteq> fresh_blk s" if "d \<in> set (block_devices s)" for d using that oks(1) by (auto simp: devices_ok_def)
      ultimately have "blk_keeps 1 s ?t" using new by (auto simp: blk_keeps_def)
      then have "blk_keeps 1 st ?t" using blk_keeps_trans [OF blk_keeps_same [OF ok s(2,3), of 0]] by simp
      moreover have "blk_keeps 1 st s" by (rule blk_keeps_same [OF ok s(2,3)])
      ultimately show ?thesis using s(1) w(3) nm by (auto simp: e block_enter_def Let_def)
    qed
  qed
qed

lemma mbr_entries_keeps:
  assumes "devices_ok st" "dev \<in> set (block_devices st)" "whole_disk dev st" "unat (fresh_blk st) + n < 2 ^ 64"
  shows "blk_keeps n st (mbr_entries dev mbr i n st)"
  using assms
proof (induction n arbitrary: i st)
  case 0
  then show ?case using blk_keeps_refl by simp
next
  case (Suc n)
  define s where "s = (if mbr ! (446 + i * 16 + 4) = 0 \<or> rd32_le mbr (446 + i * 16 + 12) = 0 then st
    else block_register_partition dev (i + 1) (ucast (rd32_le mbr (446 + i * 16 + 8))) (ucast (rd32_le mbr (446 + i * 16 + 12))) st)"
  have e: "mbr_entries dev mbr i (Suc n) st = mbr_entries dev mbr (i + 1) n s" by (simp add: s_def Let_def)
  have "unat (fresh_blk st) + 1 < 2 ^ 64" using Suc(5) by simp
  then have k: "blk_keeps 1 st s" using register_partition_keeps [OF Suc(2-4)] blk_keeps_refl [OF Suc(2)] by (simp add: s_def)
  then have "devices_ok s" "unat (fresh_blk s) + n < 2 ^ 64" using Suc(5) by (simp_all add: blk_keeps_def)
  from Suc.IH [OF this(1) blk_keeps_disk(1,2) [OF k Suc(3,4)] this(2)] have "blk_keeps n s (mbr_entries dev mbr (i + 1) n s)" .
  with blk_keeps_trans [OF k this] show ?case unfolding e by (simp add: add.commute)
qed

lemma gpt_entries_keeps:
  assumes "devices_ok st" "dev \<in> set (block_devices st)" "whole_disk dev st" "unat (fresh_blk st) + n < 2 ^ 64" "entry_size \<le> 4096"
  shows "\<exists>st'. gpt_entries dev lba entry_size i n st = Some st' \<and> blk_keeps n st st'"
  using assms(1-4)
proof (induction n arbitrary: i st)
  case 0
  then show ?case using blk_keeps_refl by simp
next
  case (Suc n)
  let ?off = "lba * ucast (bd_block_size (blk_at st dev)) + of_nat i * ucast entry_size"
  have okd: "blk_ok dev st" using Suc(4) by (simp add: blk_ok_def)
  have "unat entry_size \<le> 4096" using assms(5) by (simp add: word_le_nat_alt)
  then have "unat (ucast entry_size :: u64) div unat (bd_block_size (blk_at st dev)) \<le> 4096"
    unfolding unat_ucast64 by (rule le_trans [OF div_le_dividend])
  then have "unat (ucast entry_size :: u64) div unat (bd_block_size (blk_at st dev)) < 2 ^ 32" by simp
  from block_read_any [OF okd this, of ?off] obtain q s1 where s1: "block_read dev ?off (ucast entry_size) st = Some (q, s1)"
      "same_devs st s1" "media s1 = media st" by blast
  have k1: "blk_keeps 0 st s1" by (rule blk_keeps_same [OF Suc(2) s1(2,3)])
  note d1 = blk_keeps_disk [OF k1 Suc(3,4)]
  have o1: "devices_ok s1" "unat (fresh_blk s1) + Suc n < 2 ^ 64" using k1 Suc(5) by (simp_all add: blk_keeps_def)
  show ?case
  proof (cases "dev_size (blk_at st dev) < ?off + ucast entry_size")
    case True
    then show ?thesis using blk_keeps_refl [OF Suc(2)] by (simp add: Let_def)
  next
    case F: False
    show ?thesis
    proof (cases q)
      case (Inl e)
      then show ?thesis using F s1 blk_keeps_same [OF Suc(2) s1(2,3)] by (simp add: Let_def)
    next
      case (Inr entry)
      define s2 where "s2 = (if guid_is_zero entry \<or> rd64_le entry 40 < rd64_le entry 32 then s1
        else block_register_partition dev (i + 1) (rd64_le entry 32) (rd64_le entry 40 - rd64_le entry 32 + 1) s1)"
      have e: "gpt_entries dev lba entry_size i (Suc n) st = gpt_entries dev lba entry_size (i + 1) n s2"
        using F s1(1) Inr by (simp add: s2_def Let_def)
      have "unat (fresh_blk s1) + 1 < 2 ^ 64" using o1(2) by simp
      then have k2: "blk_keeps 1 s1 s2" using register_partition_keeps [OF o1(1) d1(1,2)] blk_keeps_refl [OF o1(1)] by (simp add: s2_def)
      then have o2: "devices_ok s2" "unat (fresh_blk s2) + n < 2 ^ 64" using o1(2) by (simp_all add: blk_keeps_def)
      obtain st' where st': "gpt_entries dev lba entry_size (i + 1) n s2 = Some st'" "blk_keeps n s2 st'"
        using Suc.IH [OF o2(1) blk_keeps_disk(1,2) [OF k2 d1(1,2)] o2(2)] by blast
      have "blk_keeps (0 + 1 + n) st st'" by (rule blk_keeps_trans [OF blk_keeps_trans [OF k1 k2] st'(2)])
      then show ?thesis using st'(1) unfolding e by (intro exI [of _ st']) simp
    qed
  qed
qed

lemma probe_keeps:
  assumes ok: "devices_ok st" and dev: "dev \<in> set (block_devices st)" "whole_disk dev st" and f: "unat (fresh_blk st) < 2 ^ 63"
  shows "\<exists>q st'. block_probe_gpt dev st = Some (q, st') \<and> blk_keeps (2 ^ 32) st st'"
    "\<exists>st'. block_probe_mbr dev st = Some st' \<and> blk_keeps (2 ^ 32) st st'"
proof -
  have read: "\<exists>q st'. block_read dev off len s = Some (q, st') \<and> blk_keeps 0 st st'"
    if k0: "blk_keeps 0 st s" and l0: "unat len div unat (bd_block_size (blk_at st dev)) < 2 ^ 32" for off len s
  proof -
    have a: "blk_ok dev s" "blk_at s dev = blk_at st dev" using blk_keeps_disk [OF k0 dev] by (simp_all add: blk_ok_def)
    obtain q s' where s': "block_read dev off len s = Some (q, s')" "same_devs s s'" "media s' = media s"
      using block_read_any [OF a(1), of len off] l0 a(2) by auto
    have "blk_keeps 0 s s'" using s'(2,3) k0 by (intro blk_keeps_same) (simp_all add: blk_keeps_def)
    from blk_keeps_trans [OF k0 this] show ?thesis using s'(1) by simp
  qed
  have more: "blk_keeps (2 ^ 32) st s" if "blk_keeps k st s" "k \<le> 2 ^ 32" for k s using that by (simp add: blk_keeps_def)
  have mem: "\<exists>ok s'. next_mem s = (ok, s') \<and> blk_keeps 0 st s'" if "blk_keeps 0 st s" for s
    using blk_keeps_trans [OF that blk_keeps_same [of s _ 0]] that by (cases rule: next_mem_cases [of s]) (auto simp: blk_keeps_def)
  have room: "unat (fresh_blk s) + n < 2 ^ 64" if "blk_keeps 0 st s" "n \<le> 2 ^ 32" for s n using that f by (simp add: blk_keeps_def)
  have small: "unat (ucast (c :: u32) :: u64) div k < 2 ^ 32" for c k
    unfolding unat_ucast64 using unsigned_less [of c, where 'a = nat] by (intro le_less_trans [OF div_le_dividend]) simp
  have gpt: "\<exists>q st'. block_probe_gpt dev s = Some (q, st') \<and> blk_keeps (2 ^ 32) st st'" if ks: "blk_keeps 0 st s" for s
  proof (cases "dev = 0 \<or> bd_block_size (blk_at s dev) < 512 \<or> block_count (blk_at s dev) < 2")
    case True
    then show ?thesis using more [OF ks] by (auto simp: block_probe_gpt_def Let_def)
  next
    case F: False
    obtain o1 s1 where s1: "next_mem s = (o1, s1)" "blk_keeps 0 st s1" using mem [OF ks] by blast
    obtain q s2 where s2: "block_read dev (ucast (bd_block_size (blk_at s dev))) (ucast (bd_block_size (blk_at s dev))) s1 = Some (q, s2)" "blk_keeps 0 st s2"
      using read [OF s1(2) small] by blast
    obtain o3 s3 where s3: "next_mem s2 = (o3, s3)" "blk_keeps 0 st s3" using mem [OF s2(2)] by blast
    have ent: "\<exists>st'. gpt_entries dev lba (es :: u32) 0 (unat (n :: u32)) s3 = Some st' \<and> blk_keeps (2 ^ 32) st st'" if "es \<le> 4096" for lba es n
    proof -
      have u: "unat n \<le> 2 ^ 32" using unsigned_less [of n, where 'a = nat] by simp
      have "devices_ok s3" using s3(2) by (simp add: blk_keeps_def)
      from gpt_entries_keeps [OF this blk_keeps_disk(1,2) [OF s3(2) dev] room [OF s3(2) u] that, of lba 0]
      obtain st' where "gpt_entries dev lba es 0 (unat n) s3 = Some st'" "blk_keeps (unat n) s3 st'" by blast
      then show ?thesis using blk_keeps_trans [OF s3(2)] more u by fastforce
    qed
    show ?thesis using F s1 s2 s3 more [of 0] ent
      by (auto simp: block_probe_gpt_def Let_def not_le not_less split: sum.split if_split)
  qed
  show "\<exists>q st'. block_probe_gpt dev st = Some (q, st') \<and> blk_keeps (2 ^ 32) st st'" by (rule gpt [OF blk_keeps_refl [OF ok]])
  obtain o1 s1 where s1: "next_mem st = (o1, s1)" "blk_keeps 0 st s1" using mem [OF blk_keeps_refl [OF ok]] by blast
  have "unat (512 :: u64) div unat (bd_block_size (blk_at st dev)) < 2 ^ 32"
    by (rule le_less_trans [OF div_le_dividend]) simp
  from read [OF s1(2) this, of 0] obtain q s2 where s2: "block_read dev 0 512 s1 = Some (q, s2)" "blk_keeps 0 st s2" by blast
  have "blk_keeps (2 ^ 32) st (mbr_entries dev m 0 4 s2)" for m
  proof -
    have o2: "devices_ok s2" using s2(2) by (simp add: blk_keeps_def)
    have "unat (fresh_blk s2) + 4 < 2 ^ 64" by (rule room [OF s2(2)]) simp
    from blk_keeps_trans [OF s2(2) mbr_entries_keeps [OF o2 blk_keeps_disk(1,2) [OF s2(2) dev] this]] show ?thesis by (rule more) simp
  qed
  then show "\<exists>st'. block_probe_mbr dev st = Some st' \<and> blk_keeps (2 ^ 32) st st'"
    using s1 s2 more [of 0] blk_keeps_refl [OF ok] gpt [OF s2(2)]
    by (auto simp: block_probe_mbr_def Let_def split: sum.split)
qed

text \<open>C4.  Registering a disk.  Whatever the first blocks of the medium contain, as MBR, as GPT or as neither, and whatever transfers
  fail, registration returns and leaves the media alone, every device known before is still there, and every device known afterwards is a
  whole disk or a partition that lies entirely inside its disk.\<close>

theorem block_register_partitions_inside:
  assumes "devices_ok st" "0 < fresh_blk st" "unat (fresh_blk st) < 2 ^ 62"
    and "read_blocks src = OpDriver" "write_blocks src = OpDriver" "bd_parent src = 0"
    and "unat (block_count src) * unat (bd_block_size src) = length (media st (driver_data src))" "length (media st (driver_data src)) < 2 ^ 64"
  shows "\<exists>q st'. block_register src st = Some (q, st') \<and> media st' = media st \<and> set (block_devices st) \<subseteq> set (block_devices st')
    \<and> (\<forall>d\<in>set (block_devices st'). whole_disk d st' \<or> partition d st')"
proof -
  have fin: "media s' = media st \<and> set (block_devices st) \<subseteq> set (block_devices s') \<and> (\<forall>d\<in>set (block_devices s'). whole_disk d s' \<or> partition d s')"
    if "blk_keeps k st s'" for k s'
    using that by (auto simp: blk_keeps_def devices_ok_def blk_ok_def)
  obtain ok s where s: "next_mem st = (ok, s)" "same_devs st s" "media s = media st"
    by (cases rule: next_mem_cases [of st]) auto
  have k0: "blk_keeps 0 st s" by (rule blk_keeps_same [OF assms(1) s(2,3)])
  let ?n = "src\<lparr>bd_name := take 31 (bd_name src)\<rparr>" and ?a = "fresh_blk st"
  let ?t = "s\<lparr>blk_at := (blk_at s)(fresh_blk s := ?n), block_devices := fresh_blk s # block_devices s, fresh_blk := fresh_blk s + 1\<rparr>"
  have fr: "fresh_blk s = ?a" using s(2) by (simp add: same_devs_def)
  show ?thesis
  proof (cases "bd_name src = [] \<or> bd_block_size src = 0 \<or> \<not> ok \<or> (\<exists>c\<in>set (block_devices s). bd_name (blk_at s c) = take 31 (bd_name src))")
    case True
    then have "\<exists>e s'. block_enter src st = (Inl e, s') \<and> blk_keeps 0 st s'"
      using s k0 blk_keeps_refl [OF assms(1)] assms(4) by (auto simp: block_enter_def Let_def)
    then show ?thesis using fin by (fastforce simp: block_register_def)
  next
    case False
    then have e: "block_enter src st = (Inr ?a, ?t)" using s(1) fr assms(4) by (auto simp: block_enter_def Let_def)
    have oks: "devices_ok s" "unat (fresh_blk s) + 1 < 2 ^ 64" using k0 assms(3) fr by (simp_all add: blk_keeps_def)
    have w: "whole_disk ?a ?t" using assms(2,4-8) False s(3) fr by (simp add: whole_disk_def word_neq_0_conv)
    then have d: "devices_ok ?t" using devices_ok_new [OF oks, of ?n] assms(6) fr by (simp add: blk_ok_def)
    have u: "unat (fresh_blk s + 1) = unat (fresh_blk s) + 1" using oks(2) by (simp add: unat_word_ariths)
    have "blk_keeps 1 s ?t" using d u devices_okD(3) [OF oks(1)] by (auto simp: blk_keeps_def)
    from blk_keeps_trans [OF k0 this] have k1: "blk_keeps 1 st ?t" by simp
    have a: "?a \<in> set (block_devices ?t)" "unat (fresh_blk ?t) < 2 ^ 63" using fr u assms(3) by simp_all
    obtain s' where "block_probe_mbr ?a ?t = Some s'" "blk_keeps (2 ^ 32) ?t s'" using probe_keeps(2) [OF d a(1) w a(2)] by blast
    then show ?thesis using e fin [OF blk_keeps_trans [OF k1]] by (auto simp: block_register_def)
  qed
qed

definition sample_empty :: blk where
  "sample_empty = sample_disk\<lparr>block_devices := [], fresh_blk := 1\<rparr>"

theorem block_register_partitions_inside_witness:
  "\<exists>q st'. block_register (blk_at sample_disk 1\<lparr>bd_name := [0x64]\<rparr>) sample_empty = Some (q, st')
     \<and> (\<forall>d\<in>set (block_devices st'). whole_disk d st' \<or> partition d st')"
  using block_register_partitions_inside [of sample_empty "blk_at sample_disk 1\<lparr>bd_name := [0x64]\<rparr>"]
  by (auto simp: sample_empty_def sample_disk_def zero_blk_def devices_ok_def)

end
