(* ===== verification/KString.thy ===== *)
theory KString
  imports Prelude
begin

text \<open>
  The kernel's string library, \<open>kernel/src/lib/string.c\<close>, over byte memory.  Every routine
  takes the memory and returns the memory it leaves (the C functions also return their first
  argument).  Loops over a byte count recurse on the count; loops that stop only at a
  terminating zero byte are \<open>option\<close>-valued, with \<open>None\<close> for a loop that never stops.
  The lemmas show that the word-at-a-time fast paths of \<open>memmove\<close> and \<open>memcmp\<close> agree with
  the plain byte-wise meaning, and what the string routines compute on terminated strings.
\<close>

section \<open>Block operations\<close>

primrec stosb :: "nat \<Rightarrow> memory \<Rightarrow> u64 \<Rightarrow> u8 \<Rightarrow> memory" where
  "stosb 0 m d v = m"
| "stosb (Suc n) m d v = stosb n (m(d := v)) (d + 1) v"

definition memset :: "memory \<Rightarrow> u64 \<Rightarrow> u32 \<Rightarrow> u64 \<Rightarrow> memory" where
  "memset m dest ch count = stosb (unat count) m dest (ucast ch)"

primrec movsb :: "nat \<Rightarrow> memory \<Rightarrow> u64 \<Rightarrow> u64 \<Rightarrow> memory" where
  "movsb 0 m d s = m"
| "movsb (Suc n) m d s = movsb n (m(d := m s)) (d + 1) (s + 1)"

definition memcpy :: "memory \<Rightarrow> u64 \<Rightarrow> u64 \<Rightarrow> u64 \<Rightarrow> memory" where
  "memcpy m dest src count = movsb (unat count) m dest src"

text \<open>The four loops of \<open>memmove\<close>: words and bytes, upwards and downwards.\<close>

primrec copy_words_up :: "nat \<Rightarrow> memory \<Rightarrow> u64 \<Rightarrow> u64 \<Rightarrow> memory" where
  "copy_words_up 0 m dw sw = m"
| "copy_words_up (Suc k) m dw sw = copy_words_up k (store64 m dw (load64 m sw)) (dw + 8) (sw + 8)"

primrec copy_words_down :: "nat \<Rightarrow> memory \<Rightarrow> u64 \<Rightarrow> u64 \<Rightarrow> memory" where
  "copy_words_down 0 m dw sw = m"
| "copy_words_down (Suc k) m dw sw =
     copy_words_down k (store64 m (dw - 8) (load64 m (sw - 8))) (dw - 8) (sw - 8)"

primrec copy_bytes_down :: "nat \<Rightarrow> memory \<Rightarrow> u64 \<Rightarrow> u64 \<Rightarrow> memory" where
  "copy_bytes_down 0 m d s = m"
| "copy_bytes_down (Suc k) m d s = copy_bytes_down k (m(d - 1 := m (s - 1))) (d - 1) (s - 1)"

definition memmove :: "memory \<Rightarrow> u64 \<Rightarrow> u64 \<Rightarrow> u64 \<Rightarrow> memory" where
  "memmove m dst src n =
     (if dst = src \<or> n = 0 then m
      else if dst < src then
        (if (dst OR src) AND 7 = 0 then
           (let words = n div 8; tail = n mod 8;
                m' = copy_words_up (unat words) m dst src
            in movsb (unat tail) m' (dst + words * 8) (src + words * 8))
         else movsb (unat n) m dst src)
      else
        (let d = dst + n; s = src + n in
         if (d OR s) AND 7 = 0 then
           (let words = n div 8; tail = n mod 8;
                m' = copy_words_down (unat words) m d s
            in copy_bytes_down (unat tail) m' (d - words * 8) (s - words * 8))
         else copy_bytes_down (unat n) m d s))"

text \<open>\<open>memcmp\<close>: bytes until both pointers are aligned, then words, then the tail.  A phase
  either returns the difference of two bytes or hands the pointers and the remaining count on.\<close>

definition byte_diff :: "memory \<Rightarrow> u64 \<Rightarrow> u64 \<Rightarrow> int" where
  "byte_diff m p q = uint (m p) - uint (m q)"

fun memcmp_head :: "memory \<Rightarrow> nat \<Rightarrow> u64 \<Rightarrow> u64 \<Rightarrow> int + (u64 \<times> u64 \<times> nat)" where
  "memcmp_head m 0 p q = Inr (p, q, 0)"
| "memcmp_head m (Suc n) p q =
     (if (p OR q) AND 7 \<noteq> 0 then
        (if m p \<noteq> m q then Inl (byte_diff m p q) else memcmp_head m n (p + 1) (q + 1))
      else Inr (p, q, Suc n))"

fun memcmp_tail :: "memory \<Rightarrow> nat \<Rightarrow> u64 \<Rightarrow> u64 \<Rightarrow> int" where
  "memcmp_tail m 0 p q = 0"
| "memcmp_tail m (Suc n) p q =
     (if m p \<noteq> m q then byte_diff m p q else memcmp_tail m n (p + 1) (q + 1))"

definition word_bytes_diff :: "memory \<Rightarrow> u64 \<Rightarrow> u64 \<Rightarrow> int option" where
  "word_bytes_diff m b c =
     map_option (\<lambda>i. byte_diff m (b + of_nat i) (c + of_nat i))
       (find (\<lambda>i. m (b + of_nat i) \<noteq> m (c + of_nat i)) [0..<8])"

fun memcmp_words :: "memory \<Rightarrow> nat \<Rightarrow> u64 \<Rightarrow> u64 \<Rightarrow> int + (u64 \<times> u64 \<times> nat)" where
  "memcmp_words m n w v =
     (if 8 \<le> n then
        (case (if load64 m w \<noteq> load64 m v then word_bytes_diff m w v else None) of
           Some d \<Rightarrow> Inl d
         | None \<Rightarrow> memcmp_words m (n - 8) (w + 8) (v + 8))
      else Inr (w, v, n))"

declare memcmp_words.simps [simp del]

definition memcmp :: "memory \<Rightarrow> u64 \<Rightarrow> u64 \<Rightarrow> u64 \<Rightarrow> int" where
  "memcmp m s1 s2 n =
     (if n = 0 then 0
      else (case memcmp_head m (unat n) s1 s2 of
              Inl d \<Rightarrow> d
            | Inr (p, q, k) \<Rightarrow>
                (case memcmp_words m k p q of
                   Inl d \<Rightarrow> d
                 | Inr (p', q', k') \<Rightarrow> memcmp_tail m k' p' q')))"

section \<open>Terminated strings\<close>

partial_function (option) strlen_from :: "memory \<Rightarrow> u64 \<Rightarrow> u64 \<Rightarrow> u64 option" where
  "strlen_from m str len = (if m (str + len) \<noteq> 0 then strlen_from m str (len + 1) else Some len)"

definition strlen :: "memory \<Rightarrow> u64 \<Rightarrow> u64 option" where
  "strlen m str = strlen_from m str 0"

partial_function (option) strcpy :: "memory \<Rightarrow> u64 \<Rightarrow> u64 \<Rightarrow> memory option" where
  "strcpy m dest src =
     (let c = m src; m' = m(dest := c)
      in if c \<noteq> 0 then strcpy m' (dest + 1) (src + 1) else Some m')"

function strncpy_copy :: "memory \<Rightarrow> u64 \<Rightarrow> u64 \<Rightarrow> nat \<Rightarrow> nat \<Rightarrow> nat \<times> memory" where
  "strncpy_copy m dest src n i =
     (if i < n \<and> m (src + of_nat i) \<noteq> 0
      then strncpy_copy (m(dest + of_nat i := m (src + of_nat i))) dest src n (Suc i)
      else (i, m))"
  by pat_completeness auto
termination
  by (relation "measure (\<lambda>(m, dest, src, n, i). n - i)") auto

declare strncpy_copy.simps [simp del]

definition strncpy :: "memory \<Rightarrow> u64 \<Rightarrow> u64 \<Rightarrow> u64 \<Rightarrow> memory" where
  "strncpy m dest src n =
     (let (i, m') = strncpy_copy m dest src (unat n) 0
      in stosb (unat n - i) m' (dest + of_nat i) 0)"

partial_function (option) strcmp :: "memory \<Rightarrow> u64 \<Rightarrow> u64 \<Rightarrow> int option" where
  "strcmp m a b =
     (if m a \<noteq> 0 \<and> m a = m b then strcmp m (a + 1) (b + 1) else Some (byte_diff m a b))"

fun strncmp_from :: "memory \<Rightarrow> nat \<Rightarrow> u64 \<Rightarrow> u64 \<Rightarrow> int" where
  "strncmp_from m 0 a b = byte_diff m a b"
| "strncmp_from m (Suc n) a b =
     (if m a \<noteq> 0 \<and> m a = m b
      then (if n = 0 then 0 else strncmp_from m n (a + 1) (b + 1))
      else byte_diff m a b)"

definition strncmp :: "memory \<Rightarrow> u64 \<Rightarrow> u64 \<Rightarrow> u64 \<Rightarrow> int" where
  "strncmp m a b n = (if n = 0 then 0 else strncmp_from m (unat n) a b)"

partial_function (option) match_at :: "memory \<Rightarrow> u64 \<Rightarrow> u64 \<Rightarrow> bool option" where
  "match_at m h n =
     (if m h \<noteq> 0 \<and> m n \<noteq> 0 \<and> m h = m n then match_at m (h + 1) (n + 1) else Some (m n = 0))"

partial_function (option) strstr_from :: "memory \<Rightarrow> u64 \<Rightarrow> u64 \<Rightarrow> u64 option" where
  "strstr_from m haystack needle =
     (if m haystack \<noteq> 0 then
        Option.bind (match_at m haystack needle)
          (\<lambda>hit. if hit then Some haystack else strstr_from m (haystack + 1) needle)
      else Some 0)"

definition strstr :: "memory \<Rightarrow> u64 \<Rightarrow> u64 \<Rightarrow> u64 option" where
  "strstr m haystack needle = (if m needle = 0 then Some haystack else strstr_from m haystack needle)"

partial_function (option) strchr :: "memory \<Rightarrow> u64 \<Rightarrow> u32 \<Rightarrow> u64 option" where
  "strchr m s c =
     (if m s \<noteq> 0 then (if m s = ucast c then Some s else strchr m (s + 1) c) else Some 0)"

partial_function (option) strrchr_from :: "memory \<Rightarrow> u64 \<Rightarrow> u32 \<Rightarrow> u64 \<Rightarrow> u64 option" where
  "strrchr_from m s c found =
     (if m s \<noteq> 0 then strrchr_from m (s + 1) c (if m s = ucast c then s else found) else Some found)"

definition strrchr :: "memory \<Rightarrow> u64 \<Rightarrow> u32 \<Rightarrow> u64 option" where
  "strrchr m s c = strrchr_from m s c 0"

partial_function (option) str_end :: "memory \<Rightarrow> u64 \<Rightarrow> u64 option" where
  "str_end m dest = (if m dest \<noteq> 0 then str_end m (dest + 1) else Some dest)"

definition strcat :: "memory \<Rightarrow> u64 \<Rightarrow> u64 \<Rightarrow> memory option" where
  "strcat m dest src = Option.bind (str_end m dest) (\<lambda>e. strcpy m e src)"

section \<open>Block operations meet their byte-wise meaning\<close>

lemma stosb_filled: "n \<le> 2 ^ 64 \<Longrightarrow> stosb n m d v = filled m d v n"
  by (induction n arbitrary: m d) (simp_all add: filled_step)

lemma memset_filled [mem_simps]: "memset m d ch n = filled m d (ucast ch) (unat n)"
  unfolding memset_def by (rule stosb_filled) simp

lemma movsb_copied:
  "n \<le> 2 ^ 64 \<Longrightarrow> d = s \<or> n \<le> unat (d - s) \<Longrightarrow> movsb n m d s = copied m d s n"
proof (induction n arbitrary: m d s)
  case (Suc n)
  have "d + 1 = s + 1 \<or> n \<le> unat ((d + 1) - (s + 1))"
    using Suc.prems by auto
  then have "movsb (Suc n) m d s = copied (m(d := m s)) (d + 1) (s + 1) n"
    using Suc by simp
  then show ?case
    using copied_forward [of 1 n d s m] Suc.prems by (simp add: copied_1)
qed simp

lemma copy_words_up_copied:
  "8 * k \<le> 2 ^ 64 \<Longrightarrow> d = s \<or> 8 * k \<le> unat (d - s) \<Longrightarrow> copy_words_up k m d s = copied m d s (8 * k)"
proof (induction k arbitrary: m d s)
  case (Suc k)
  have "d + 8 = s + 8 \<or> 8 * k \<le> unat ((d + 8) - (s + 8))"
    using Suc.prems by auto
  then have "copy_words_up (Suc k) m d s = copied (copied m d s 8) (d + 8) (s + 8) (8 * k)"
    using Suc by (simp add: store64_load64)
  then show ?case
    using copied_forward [of 8 "8 * k" d s m] Suc.prems by simp
qed simp

lemma copy_bytes_down_copied:
  "n \<le> 2 ^ 64 \<Longrightarrow> d = s \<or> n \<le> unat (s - d) \<Longrightarrow>
   copy_bytes_down n m (d + of_nat n) (s + of_nat n) = copied m d s n"
proof (induction n arbitrary: m)
  case (Suc n)
  have "copy_bytes_down (Suc n) m (d + of_nat (Suc n)) (s + of_nat (Suc n))
      = copied (copied m (d + of_nat n) (s + of_nat n) 1) d s n"
    using Suc by (auto simp: copied_1)
  then show ?case
    using copied_backward [of n 1 d s m] Suc.prems by simp
qed simp

lemma copy_words_down_copied:
  "8 * k + t \<le> 2 ^ 64 \<Longrightarrow> d = s \<or> 8 * k + t \<le> unat (s - d) \<Longrightarrow>
   copy_words_down k m (d + of_nat (8 * k)) (s + of_nat (8 * k)) = copied m d s (8 * k)"
proof (induction k arbitrary: m)
  case (Suc k)
  have "d + of_nat (8 * Suc k) - 8 = d + of_nat (8 * k)" for d :: u64
    by simp
  then have "copy_words_down (Suc k) m (d + of_nat (8 * Suc k)) (s + of_nat (8 * Suc k))
      = copied (copied m (d + of_nat (8 * k)) (s + of_nat (8 * k)) 8) d s (8 * k)"
    using Suc by (auto simp: store64_load64)
  then show ?case
    using copied_backward [of "8 * k" 8 d s m] Suc.prems by (auto simp: add.commute)
qed simp

lemma unat_split_words:
  fixes n :: u64
  shows "8 * unat (n div 8) + unat (n mod 8) = unat n"
    and "n div 8 * 8 = of_nat (8 * unat (n div 8))"
    and "n = of_nat (8 * unat (n div 8)) + n mod 8"
proof -
  show 1: "8 * unat (n div 8) + unat (n mod 8) = unat n"
    by (simp add: unat_div unat_mod)
  show 2: "n div 8 * 8 = of_nat (8 * unat (n div 8))"
    by (simp add: mult.commute)
  have "n = n div 8 * 8 + n mod 8" by (simp add: word_mod_div_equality)
  then show "n = of_nat (8 * unat (n div 8)) + n mod 8" using 2 by metis
qed

lemma memmove_up:
  fixes d s n :: u64
  assumes "d = s \<or> unat n \<le> unat (d - s)"
  shows "movsb (unat (n mod 8)) (copy_words_up (unat (n div 8)) m d s)
           (d + n div 8 * 8) (s + n div 8 * 8) = copied m d s (unat n)"
proof -
  let ?k = "8 * unat (n div 8)" and ?t = "unat (n mod 8)"
  have sum: "?k + ?t = unat n" by (rule unat_split_words)
  have le: "?k + ?t \<le> 2 ^ 64" unfolding sum by simp
  have disj: "d = s \<or> ?k + ?t \<le> unat (d - s)" unfolding sum by (rule assms)
  have "copy_words_up (unat (n div 8)) m d s = copied m d s ?k"
    by (rule copy_words_up_copied) (use le disj in auto)
  moreover have "movsb ?t m' (d + of_nat ?k) (s + of_nat ?k) = copied m' (d + of_nat ?k) (s + of_nat ?k) ?t" for m'
    by (rule movsb_copied) (use le disj in auto)
  moreover have "copied (copied m d s ?k) (d + of_nat ?k) (s + of_nat ?k) ?t = copied m d s (?k + ?t)"
    by (rule copied_forward) (use le disj in auto)
  ultimately show ?thesis by (simp only: unat_split_words(2) sum)
qed

lemma memmove_down:
  fixes d s n :: u64
  assumes "d = s \<or> unat n \<le> unat (s - d)"
  shows "copy_bytes_down (unat (n mod 8)) (copy_words_down (unat (n div 8)) m (d + n) (s + n))
           (d + n - n div 8 * 8) (s + n - n div 8 * 8) = copied m d s (unat n)"
proof -
  let ?k = "8 * unat (n div 8)" and ?t = "unat (n mod 8)"
  have sum: "?t + ?k = unat n" using unat_split_words(1) [of n] by simp
  have le: "?t + ?k \<le> 2 ^ 64" unfolding sum by simp
  have disj: "d = s \<or> ?t + ?k \<le> unat (s - d)" unfolding sum by (rule assms)
  have top: "x + n = x + of_nat ?t + of_nat ?k" and bot: "x + n - n div 8 * 8 = x + of_nat ?t" for x :: u64
    using unat_split_words(2,3) [of n] by (simp_all add: algebra_simps)
  have "copy_words_down (unat (n div 8)) m (d + of_nat ?t + of_nat ?k) (s + of_nat ?t + of_nat ?k)
      = copied m (d + of_nat ?t) (s + of_nat ?t) ?k"
    by (rule copy_words_down_copied [where t = ?t]) (use le disj in auto)
  moreover have "copy_bytes_down ?t m' (d + of_nat ?t) (s + of_nat ?t) = copied m' d s ?t" for m'
    by (rule copy_bytes_down_copied) (use le disj in auto)
  moreover have "copied (copied m (d + of_nat ?t) (s + of_nat ?t) ?k) d s ?t = copied m d s (?t + ?k)"
    by (rule copied_backward) (use le disj in auto)
  ultimately show ?thesis unfolding bot by (simp only: top sum)
qed

text \<open>C1.  \<open>memmove\<close> copies its source as it was before the call, for every alignment, length
  and overlap of two blocks that do not run past the end of the address space: each of its
  four loops, word-wise or byte-wise, upwards or downwards, gives the same result as moving
  all bytes at once, and no byte outside the destination changes.\<close>

theorem memmove_copies:
  assumes "unat dst + unat n \<le> 2 ^ 64" and "unat src + unat n \<le> 2 ^ 64"
  shows "memmove m dst src n = (\<lambda>a. if unat (a - dst) < unat n then m (src + (a - dst)) else m a)"
proof -
  have fwd: "dst = src \<or> unat n \<le> unat (dst - src)" if "dst < src"
    using that assms by (auto simp: word_less_nat_alt unat_sub_if')
  have bwd: "dst = src \<or> unat n \<le> unat (src - dst)" if "\<not> dst < src"
    using that assms by (auto simp: word_less_nat_alt word_unat_eq_iff unat_sub_if')
  have le: "unat n \<le> 2 ^ 64" by simp
  have "movsb (unat n) m dst src = copied m dst src (unat n)" if "dst < src"
    using movsb_copied [OF le fwd [OF that]] .
  moreover have "copy_bytes_down (unat n) m (dst + n) (src + n) = copied m dst src (unat n)"
    if "\<not> dst < src"
    using copy_bytes_down_copied [OF le bwd [OF that]] by simp
  ultimately have "memmove m dst src n = copied m dst src (unat n)"
    using memmove_up [OF fwd] memmove_down [OF bwd] by (auto simp: memmove_def Let_def)
  then show ?thesis by (simp add: copied_def)
qed

theorem memmove_copies_witness:
  "memmove (\<lambda>a. ucast a) 18 16 5 18 = 16 \<and> memmove (\<lambda>a. ucast a) 18 16 5 22 = 20
   \<and> memmove (\<lambda>a. ucast a) 18 16 5 23 = 23"
  by (subst memmove_copies; simp)+

section \<open>Comparison of blocks\<close>

definition block_diff :: "memory \<Rightarrow> u64 \<Rightarrow> u64 \<Rightarrow> nat \<Rightarrow> int" where
  "block_diff m p q n =
     (case find (\<lambda>i. m (p + of_nat i) \<noteq> m (q + of_nat i)) [0..<n] of
        None \<Rightarrow> 0
      | Some i \<Rightarrow> byte_diff m (p + of_nat i) (q + of_nat i))"

lemma find_map: "find P (map f xs) = map_option f (find (P \<circ> f) xs)"
  by (induction xs) simp_all

lemma find_append: "find P (xs @ ys) = (case find P xs of None \<Rightarrow> find P ys | Some x \<Rightarrow> Some x)"
  by (induction xs) simp_all

lemma upt_shift: "[0..<k + n] = [0..<k] @ map ((+) k) [0..<n]"
  by (induction n) simp_all

lemma find_split:
  fixes p q :: u64
  shows "find (\<lambda>i. m (p + of_nat i) \<noteq> m (q + of_nat i)) [0..<k + n] =
    (case find (\<lambda>i. m (p + of_nat i) \<noteq> m (q + of_nat i)) [0..<k] of
       Some i \<Rightarrow> Some i
     | None \<Rightarrow> map_option ((+) k)
         (find (\<lambda>i. m (p + of_nat k + of_nat i) \<noteq> m (q + of_nat k + of_nat i)) [0..<n]))"
  unfolding upt_shift find_append find_map by (auto simp: o_def add.assoc split: option.splits)

lemma block_diff_split:
  "block_diff m p q (k + n) =
     (case find (\<lambda>i. m (p + of_nat i) \<noteq> m (q + of_nat i)) [0..<k] of
        Some i \<Rightarrow> byte_diff m (p + of_nat i) (q + of_nat i)
      | None \<Rightarrow> block_diff m (p + of_nat k) (q + of_nat k) n)"
  unfolding block_diff_def find_split
  by (auto simp: add.assoc split: option.splits)

lemma block_diff_Suc:
  "block_diff m p q (Suc n) =
     (if m p \<noteq> m q then byte_diff m p q else block_diff m (p + 1) (q + 1) n)"
  using block_diff_split [of m p q 1 n] by simp

lemma memcmp_tail_diff: "memcmp_tail m n p q = block_diff m p q n"
  by (induction n arbitrary: p q) (simp_all add: block_diff_def [of _ _ _ 0] block_diff_Suc)

lemma memcmp_head_diff:
  "memcmp_head m n p q = Inl d \<Longrightarrow> block_diff m p q n = d"
  "memcmp_head m n p q = Inr (p', q', k) \<Longrightarrow> block_diff m p q n = block_diff m p' q' k"
  by (induction m n p q rule: memcmp_head.induct) (auto simp: block_diff_Suc split: if_splits)

lemma load64_eq_bytes:
  assumes "load64 m w = load64 m v" and "i < 8"
  shows "m (w + of_nat i) = m (v + of_nat i)"
  using byte_of_load64 [of "of_nat i" m w] byte_of_load64 [of "of_nat i" m v] assms by simp

lemma find_eq_word: "load64 m w = load64 m v \<Longrightarrow>
    find (\<lambda>i. m (w + of_nat i) \<noteq> m (v + of_nat i)) [0..<8] = None"
  by (auto simp: find_None_iff intro: load64_eq_bytes)

lemma memcmp_words_diff:
  "(case memcmp_words m n w v of
      Inl d \<Rightarrow> block_diff m w v n = d
    | Inr (w', v', k) \<Rightarrow> block_diff m w v n = block_diff m w' v' k)"
proof (induction m n w v rule: memcmp_words.induct)
  case (1 m n w v)
  let ?f = "find (\<lambda>i. m (w + of_nat i) \<noteq> m (v + of_nat i)) [0..<8]"
  show ?case
  proof (cases "8 \<le> n")
    case False
    then show ?thesis by (simp add: memcmp_words.simps [of m n])
  next
    case True
    then have split: "block_diff m w v n =
        (case ?f of Some i \<Rightarrow> byte_diff m (w + of_nat i) (v + of_nat i)
         | None \<Rightarrow> block_diff m (w + 8) (v + 8) (n - 8))"
      using block_diff_split [of m w v 8 "n - 8"] by (simp split: option.split)
    show ?thesis
    proof (cases ?f)
      case None
      then have none: "(if load64 m w \<noteq> load64 m v then word_bytes_diff m w v else None) = None"
        by (simp add: word_bytes_diff_def)
      show ?thesis
        using 1 [OF True none] True None none split
        by (simp add: memcmp_words.simps [of m n] split: sum.splits prod.splits)
    next
      case (Some i)
      then have "load64 m w \<noteq> load64 m v" using find_eq_word [of m w v] by auto
      then show ?thesis
        using True Some split by (simp add: memcmp_words.simps [of m n] word_bytes_diff_def)
    qed
  qed
qed

text \<open>\<open>memcmp\<close> returns the difference of the first pair of bytes in which the two blocks
  differ and \<open>0\<close> when there is none, although it compares eight bytes at a time once both
  pointers are aligned.\<close>

theorem memcmp_first_difference:
  "memcmp m s1 s2 n =
     (case find (\<lambda>i. m (s1 + of_nat i) \<noteq> m (s2 + of_nat i)) [0..<unat n] of
        None \<Rightarrow> 0
      | Some i \<Rightarrow> uint (m (s1 + of_nat i)) - uint (m (s2 + of_nat i)))"
proof -
  have "memcmp m s1 s2 n = block_diff m s1 s2 (unat n)"
  proof (cases "memcmp_head m (unat n) s1 s2")
    case (Inl d)
    then show ?thesis
      using memcmp_head_diff(1) [OF Inl] by (auto simp: memcmp_def block_diff_def)
  next
    case (Inr r)
    obtain p q k where r: "r = (p, q, k)" by (cases r)
    have "block_diff m s1 s2 (unat n) = block_diff m p q k"
      using memcmp_head_diff(2) Inr r by blast
    then show ?thesis
      using memcmp_words_diff [where m = m and n = k and w = p and v = q] Inr r
      by (auto simp: memcmp_def memcmp_tail_diff block_diff_def [of _ _ _ 0] split: sum.splits)
  qed
  then show ?thesis by (simp add: block_diff_def byte_diff_def split: option.split)
qed

section \<open>String routines on terminated strings\<close>

text \<open>\<open>cstr m p s\<close>: the bytes \<open>s\<close>, none of them zero, followed by a zero byte, stand at
  \<open>p\<close>.\<close>

fun cstr :: "memory \<Rightarrow> u64 \<Rightarrow> u8 list \<Rightarrow> bool" where
  "cstr m p [] \<longleftrightarrow> m p = 0"
| "cstr m p (c # cs) \<longleftrightarrow> c \<noteq> 0 \<and> m p = c \<and> cstr m (p + 1) cs"

lemma cstr_cong: "(\<And>i. i \<le> length s \<Longrightarrow> m' (p' + of_nat i) = m (p + of_nat i)) \<Longrightarrow> cstr m' p' s = cstr m p s"
proof (induction s arbitrary: p p')
  case Nil
  then show ?case using Nil.prems [of 0] by simp
next
  case (Cons c s)
  have "m' (p' + 1 + of_nat i) = m (p + 1 + of_nat i)" if "i \<le> length s" for i
    using Cons.prems [of "Suc i"] that by (simp add: algebra_simps)
  then have "cstr m' (p' + 1) s = cstr m (p + 1) s" by (rule Cons.IH)
  then show ?case using Cons.prems [of 0] by simp
qed

lemma cstr_append: "cstr m p (s @ t) \<longleftrightarrow> (\<forall>i < length s. m (p + of_nat i) = s ! i \<and> s ! i \<noteq> 0) \<and> cstr m (p + of_nat (length s)) t"
proof (induction s arbitrary: p)
  case (Cons c s)
  show ?case
    by (auto simp: Cons.IH algebra_simps less_Suc_eq_0_disj)
qed simp

lemma cstr_nth: "cstr m p s \<Longrightarrow> i < length s \<Longrightarrow> m (p + of_nat i) = s ! i \<and> s ! i \<noteq> 0"
  using cstr_append [of m p s "[]"] by simp

lemma cstr_end: "cstr m p s \<Longrightarrow> m (p + of_nat (length s)) = 0"
  using cstr_append [of m p s "[]"] by simp

lemma cstr_drop: "cstr m p s \<Longrightarrow> i \<le> length s \<Longrightarrow> cstr m (p + of_nat i) (drop i s)"
  using cstr_append [of m p "take i s" "drop i s"] by simp

lemma cstr_functional: "cstr m p s \<Longrightarrow> cstr m p t \<Longrightarrow> s = t"
proof (induction s arbitrary: p t)
  case Nil
  then show ?case by (cases t) auto
next
  case (Cons c s)
  then show ?case by (cases t) auto
qed

lemma strlen_from_cstr: "cstr m (p + n) s \<Longrightarrow> strlen_from m p n = Some (n + of_nat (length s))"
proof (induction s arbitrary: n)
  case Nil
  then show ?case by (simp add: strlen_from.simps)
next
  case (Cons c s)
  then have "strlen_from m p (n + 1) = Some (n + 1 + of_nat (length s))"
    using Cons.IH [of "n + 1"] by (simp add: algebra_simps)
  then show ?case using Cons.prems by (subst strlen_from.simps) (simp add: algebra_simps)
qed

lemma strlen_cstr [mem_simps]: "cstr m p s \<Longrightarrow> strlen m p = Some (of_nat (length s))"
  using strlen_from_cstr [of m p 0 s] by (simp add: strlen_def)

lemma fun_upd_cstr: "cstr m p s \<Longrightarrow> length s < unat (d - p) \<Longrightarrow> cstr (m(d := v)) p s"
proof (rule cstr_cong [THEN iffD2])
  fix i assume "length s < unat (d - p)" and "i \<le> length s"
  then have "p + of_nat i \<noteq> d" using unat_bound64 [of "d - p"] by (auto simp: unat_of_nat)
  then show "(m(d := v)) (p + of_nat i) = m (p + of_nat i)" by simp
qed

text \<open>\<open>strcpy\<close> of a terminated string returns, writes exactly the string and its
  terminator at the destination, and changes nothing else, provided the destination does not
  start inside the source string.\<close>

theorem strcpy_copies:
  assumes "cstr m src s" and "dest = src \<or> length s < unat (dest - src)"
  shows "strcpy m dest src = Some (copied m dest src (Suc (length s)))"
  using assms
proof (induction s arbitrary: m dest src)
  case Nil
  then show ?case by (simp add: strcpy.simps copied_1 fun_upd_def)
next
  case (Cons c s)
  have succ: "dest + 1 = src + 1 \<or> length s < unat ((dest + 1) - (src + 1))"
    using Cons.prems by auto
  have "cstr (m(dest := m src)) (src + 1) s"
  proof (cases "dest = src")
    case True
    then have "m(dest := m src) = m" by auto
    then show ?thesis using Cons.prems by (simp only: cstr.simps)
  next
    case False
    then have "length s < unat (dest - (src + 1))"
      using Cons.prems unat_Suc_pred [of "dest - src"] by (simp add: algebra_simps)
    then show ?thesis using Cons.prems by (intro fun_upd_cstr) auto
  qed
  then have "strcpy (m(dest := m src)) (dest + 1) (src + 1)
      = Some (copied (m(dest := m src)) (dest + 1) (src + 1) (Suc (length s)))"
    using succ by (rule Cons.IH)
  moreover have "Suc (Suc (length s)) \<le> 2 ^ 64 \<or> dest = src"
  proof (cases "dest = src")
    case False
    then have "Suc (length s) < unat (dest - src)" using Cons.prems by simp
    then have "Suc (length s) < 18446744073709551616" using unat_bound64 [of "dest - src"] by (rule less_trans)
    then show ?thesis by simp
  qed simp
  then have "copied (m(dest := m src)) (dest + 1) (src + 1) (Suc (length s)) = copied m dest src (Suc (Suc (length s)))"
    using copied_forward [of 1 "Suc (length s)" dest src m] Cons.prems by (auto simp: copied_1)
  ultimately show ?case using Cons.prems by (subst strcpy.simps) simp
qed

theorem strcpy_copies_witness:
  "strcpy (\<lambda>a. if a = 16 then 104 else if a = 17 then 105 else 0) 64 16
     = Some (copied (\<lambda>a. if a = 16 then 104 else if a = 17 then 105 else 0) 64 16 (Suc (length [104, 105 :: u8])))"
  using strcpy_copies [of "\<lambda>a. if a = 16 then 104 else if a = 17 then 105 else 0" 16 "[104, 105]" 64]
  by simp

text \<open>On terminated strings \<open>strcmp\<close> returns, and the sign of its result is the order of
  the two strings: zero exactly for equal strings, negative exactly when the first one precedes
  the second in the lexicographic order of unsigned bytes.\<close>

theorem strcmp_orders:
  assumes "cstr m a s" and "cstr m b t"
  shows "\<exists>d. strcmp m a b = Some d \<and> (d = 0 \<longleftrightarrow> s = t) \<and> (d < 0 \<longleftrightarrow> ord_class.lexordp s t)"
  using assms
proof (induction s arbitrary: a b t)
  case Nil
  then show ?case
    by (cases t) (auto simp: strcmp.simps byte_diff_def word_less_def word_neq_0_conv)
next
  case (Cons c s)
  show ?case
  proof (cases t)
    case Nil
    then show ?thesis
      using Cons.prems by (auto simp: strcmp.simps [of m a b] byte_diff_def uint_0_iff)
  next
    case (Cons e t')
    show ?thesis
    proof (cases "c = e")
      case True
      then obtain d where "strcmp m (a + 1) (b + 1) = Some d" "d = 0 \<longleftrightarrow> s = t'" "d < 0 \<longleftrightarrow> ord_class.lexordp s t'"
        using Cons.IH [of "a + 1" "b + 1" t'] Cons.prems Cons by auto
      then show ?thesis
        using True Cons Cons.prems by (auto simp: strcmp.simps [of m a b])
    next
      case False
      then have "m a \<noteq> m b" using Cons Cons.prems by auto
      then show ?thesis
        using False Cons Cons.prems
        by (auto simp: strcmp.simps [of m a b] byte_diff_def word_less_def word_uint_eq_iff)
    qed
  qed
qed

theorem strcmp_orders_witness:
  "\<exists>d. strcmp (\<lambda>a. if a = 16 then 65 else if a = 64 then 66 else 0) 16 64 = Some d \<and> d \<noteq> 0 \<and> d < 0"
  using strcmp_orders [of "\<lambda>a. if a = 16 then 65 else if a = 64 then 66 else 0" 16 "[65]" 64 "[66]"]
  by simp

lemma match_at_prefix:
  "cstr m h hs \<Longrightarrow> cstr m n ns \<Longrightarrow> match_at m h n = Some (take (length ns) hs = ns)"
proof (induction hs arbitrary: h n ns)
  case Nil
  then show ?case by (cases ns) (auto simp: match_at.simps [of m h n])
next
  case (Cons c hs)
  then show ?case by (cases ns) (auto simp: match_at.simps [of m h n])
qed

lemma strstr_from_first:
  assumes "cstr m n ns" and "ns \<noteq> []" and "cstr m h hs"
  shows "strstr_from m h n =
    Some (case find (\<lambda>i. take (length ns) (drop i hs) = ns) [0..<length hs] of
            Some i \<Rightarrow> h + of_nat i | None \<Rightarrow> 0)"
  using assms(3)
proof (induction hs arbitrary: h)
  case Nil
  then show ?case by (simp add: strstr_from.simps [of m h n])
next
  case (Cons c hs)
  let ?P = "\<lambda>hs i. take (length ns) (drop i hs) = ns"
  have upt: "[0..<length (c # hs)] = 0 # map Suc [0..<length hs]"
    using upt_conv_Cons [of 0 "length (c # hs)"] by (simp add: map_Suc_upt)
  have rest: "find (?P (c # hs)) (map Suc [0..<length hs]) = map_option Suc (find (?P hs) [0..<length hs])"
    by (simp add: find_map o_def)
  have "match_at m h n = Some (?P (c # hs) 0)"
    using match_at_prefix [OF Cons.prems assms(1)] by simp
  then have "strstr_from m h n = (if ?P (c # hs) 0 then Some h else strstr_from m (h + 1) n)"
    using Cons.prems by (subst strstr_from.simps) simp
  moreover have "strstr_from m (h + 1) n =
      Some (case find (?P hs) [0..<length hs] of Some i \<Rightarrow> h + 1 + of_nat i | None \<Rightarrow> 0)"
    using Cons by simp
  ultimately show ?case
    unfolding upt find.simps rest by (auto simp: add.assoc split: option.splits)
qed

text \<open>\<open>strstr\<close> on terminated strings returns a pointer to the first position at which the
  needle occurs in the haystack, the haystack itself for an empty needle, and \<open>NULL\<close> when it
  occurs nowhere.\<close>

theorem strstr_first_occurrence:
  assumes "cstr m h hs" and "cstr m n ns"
  shows "strstr m h n =
    Some (case find (\<lambda>i. take (length ns) (drop i hs) = ns) [0..<Suc (length hs)] of
            Some i \<Rightarrow> h + of_nat i | None \<Rightarrow> 0)"
proof (cases ns)
  case Nil
  have "[0..<Suc (length hs)] = 0 # [Suc 0..<Suc (length hs)]"
    using upt_conv_Cons [of 0 "Suc (length hs)"] by simp
  then show ?thesis using Nil assms by (simp add: strstr_def)
next
  case (Cons c cs)
  then have "m n \<noteq> 0" using assms by auto
  moreover have "find (\<lambda>i. take (length ns) (drop i hs) = ns) [0..<Suc (length hs)]
      = find (\<lambda>i. take (length ns) (drop i hs) = ns) [0..<length hs]"
    using Cons by (auto simp: find_append split: option.split)
  ultimately show ?thesis
    using strstr_from_first [OF assms(2) _ assms(1)] Cons by (simp add: strstr_def)
qed

theorem strstr_first_occurrence_witness:
  "strstr (\<lambda>a. if a = 16 then 65 else if a = 17 then 66 else if a = 64 then 66 else 0) 16 64 = Some 17"
  using strstr_first_occurrence
    [of "\<lambda>a. if a = 16 then 65 else if a = 17 then 66 else if a = 64 then 66 else 0" 16 "[65, 66]" 64 "[66]"]
  by simp

end
