(* ===== verification/Pfndb.thy ===== *)
theory Pfndb
  imports KString
begin

text \<open>
  The page frame database, \<open>kernel/src/mm/pfndb.c\<close>, and the page descriptor of
  \<open>kernel/include/mm/page.h\<close>.  \<open>kmem\<close> collects the static variables of the memory
  management files (\<open>pfndb.c\<close>, \<open>pmm.c\<close>, \<open>paging.c\<close>) with the physical memory they
  work on.  A \<open>page_t *\<close> is the address of a descriptor, \<open>pgs\<close> gives the descriptor at
  an address; the union \<open>u2\<close> is one machine word read as \<open>prev\<close> or as
  \<open>sharecount\<close>, as in C.  Physical memory is reached through the higher-half direct map, so
  \<open>ram\<close> is indexed by physical address and \<open>PHYS_TO_VIRT\<close> is the identity on it.
\<close>

record page =
  u1_next :: u64
  u2 :: u64
  flags :: u64
  refcount :: u32

record mmio_region =
  mr_virt :: u64
  mr_phys :: u64
  mr_npages :: u64

record kmem =
  hhdm_offset :: u64
  mem_map :: u64
  max_pfn :: u64
  pfndb_phys :: u64
  pgs :: "u64 \<Rightarrow> page"
  freelist :: u64
  free_pages :: u64
  total_pages :: u64
  ram :: memory
  kernel_ptable :: u64
  mmio_regions :: "mmio_region list"

record memmap_entry =
  me_base :: u64
  me_length :: u64
  me_usable :: bool

abbreviation PAGE_SIZE :: u64 where "PAGE_SIZE \<equiv> 4096"
abbreviation PAGE_T_SIZE :: u64 where "PAGE_T_SIZE \<equiv> 64"

definition PAGE_FREE :: u64 where "PAGE_FREE = push_bit 0 1"
definition PAGE_USED :: u64 where "PAGE_USED = push_bit 1 1"
definition PAGE_RESERVED :: u64 where "PAGE_RESERVED = push_bit 2 1"
definition PAGE_SHARED :: u64 where "PAGE_SHARED = push_bit 3 1"
definition PAGE_COW :: u64 where "PAGE_COW = push_bit 4 1"
definition PAGE_POISON :: u64 where "PAGE_POISON = push_bit 5 1"

text \<open>The flag constants are 32-bit, so \<open>~\<close> complements 32 bits before the result is
  widened to the 64-bit field.\<close>

definition flag_not :: "u64 \<Rightarrow> u64" where "flag_not x = NOT x AND 0xFFFFFFFF"

definition page_is_free :: "page \<Rightarrow> bool" where "page_is_free p \<longleftrightarrow> flags p AND PAGE_FREE \<noteq> 0"
definition page_is_used :: "page \<Rightarrow> bool" where "page_is_used p \<longleftrightarrow> flags p AND PAGE_USED \<noteq> 0"
definition page_is_reserved :: "page \<Rightarrow> bool" where "page_is_reserved p \<longleftrightarrow> flags p AND PAGE_RESERVED \<noteq> 0"
definition page_is_shared :: "page \<Rightarrow> bool" where "page_is_shared p \<longleftrightarrow> flags p AND PAGE_SHARED \<noteq> 0"
definition page_is_cow :: "page \<Rightarrow> bool" where "page_is_cow p \<longleftrightarrow> flags p AND PAGE_COW \<noteq> 0"
definition page_is_poisoned :: "page \<Rightarrow> bool" where "page_is_poisoned p \<longleftrightarrow> flags p AND PAGE_POISON \<noteq> 0"

definition upd_page :: "u64 \<Rightarrow> (page \<Rightarrow> page) \<Rightarrow> kmem \<Rightarrow> kmem" where
  "upd_page p f s = s\<lparr>pgs := (pgs s)(p := f (pgs s p))\<rparr>"

section \<open>Building the database\<close>

fun pfndb_calc_max_pfn_from :: "u64 \<Rightarrow> memmap_entry list \<Rightarrow> u64" where
  "pfndb_calc_max_pfn_from mx [] = mx"
| "pfndb_calc_max_pfn_from mx (e # es) =
     (if \<not> me_usable e then pfndb_calc_max_pfn_from mx es
      else let end_pfn = (me_base e + me_length e + PAGE_SIZE - 1) div PAGE_SIZE
           in pfndb_calc_max_pfn_from (if end_pfn > mx then end_pfn else mx) es)"

definition pfndb_calc_max_pfn :: "memmap_entry list \<Rightarrow> u64" where
  "pfndb_calc_max_pfn mmap = pfndb_calc_max_pfn_from 0 mmap"

definition pfndb_size :: "u64 \<Rightarrow> u64" where
  "pfndb_size mx = ((mx + 1) * PAGE_T_SIZE + PAGE_SIZE - 1) AND NOT (PAGE_SIZE - 1)"

text \<open>The first usable entry large enough gives up its first \<open>need\<close> bytes; \<open>None\<close> is the
  panic.\<close>

fun pfndb_reserve :: "u64 \<Rightarrow> memmap_entry list \<Rightarrow> (u64 \<times> memmap_entry list) option" where
  "pfndb_reserve need [] = None"
| "pfndb_reserve need (e # es) =
     (if \<not> me_usable e \<or> me_length e < need
      then map_option (\<lambda>(phys, es'). (phys, e # es')) (pfndb_reserve need es)
      else Some (me_base e, e\<lparr>me_base := me_base e + need, me_length := me_length e - need\<rparr> # es))"

definition pfndb_reset_page :: "nat \<Rightarrow> kmem \<Rightarrow> kmem" where
  "pfndb_reset_page i s =
     upd_page (mem_map s + of_nat i * PAGE_T_SIZE)
       (\<lambda>p. p\<lparr>flags := PAGE_RESERVED, refcount := 0,
              u1_next := (if i < unat (max_pfn s) then mem_map s + of_nat (i + 1) * PAGE_T_SIZE else 0)\<rparr>) s"

definition pfndb_mark_free :: "nat \<Rightarrow> kmem \<Rightarrow> kmem" where
  "pfndb_mark_free pfn s =
     upd_page (mem_map s + of_nat pfn * PAGE_T_SIZE)
       (\<lambda>p. p\<lparr>flags := (flags p AND flag_not (PAGE_RESERVED OR PAGE_USED)) OR PAGE_FREE\<rparr>) s"

definition pfndb_mark_entry :: "memmap_entry \<Rightarrow> kmem \<Rightarrow> kmem" where
  "pfndb_mark_entry e s =
     (if \<not> me_usable e then s
      else let start = me_base e div PAGE_SIZE; end_pfn = (me_base e + me_length e) div PAGE_SIZE
           in fold pfndb_mark_free [unat start..<min (unat end_pfn) (Suc (unat (max_pfn s)))] s)"

definition pfndb_init :: "memmap_entry list \<Rightarrow> kmem \<Rightarrow> (memmap_entry list \<times> kmem) option" where
  "pfndb_init memmap s =
     (let mx = pfndb_calc_max_pfn memmap in
      case pfndb_reserve (pfndb_size mx) memmap of
        None \<Rightarrow> None
      | Some (phys, memmap') \<Rightarrow>
          (let mm = phys + hhdm_offset s;
               s1 = s\<lparr>max_pfn := mx, pfndb_phys := phys, mem_map := mm\<rparr>
           in if mm = 0 then None
              else
                (let s2 = fold pfndb_reset_page [0..<Suc (unat mx)] s1;
                     s3 = fold pfndb_mark_entry memmap' s2
                 in Some (memmap', upd_page mm (\<lambda>p. p\<lparr>flags := PAGE_RESERVED, refcount := 0\<rparr>) s3))))"

section \<open>Lookups\<close>

definition pfndb_getdb :: "kmem \<Rightarrow> u64" where
  "pfndb_getdb s = mem_map s"

definition pfndb_getmax :: "kmem \<Rightarrow> u64" where
  "pfndb_getmax s = max_pfn s"

definition pfndb_pfnaddr :: "kmem \<Rightarrow> u64 \<Rightarrow> u64" where
  "pfndb_pfnaddr s pfn = (if pfn > max_pfn s then 0 else pfn * PAGE_SIZE)"

definition pfndb_getptr :: "kmem \<Rightarrow> u64 \<Rightarrow> u64" where
  "pfndb_getptr s pfn = (if pfn > max_pfn s then 0 else mem_map s + pfn * PAGE_T_SIZE)"

definition pfndb_getpfn :: "kmem \<Rightarrow> u64 \<Rightarrow> u64" where
  "pfndb_getpfn s page =
     (if page = 0 \<or> mem_map s = 0 then - 1
      else if page < mem_map s \<or> page > mem_map s + max_pfn s * PAGE_T_SIZE then - 1
      else (page - mem_map s) div PAGE_T_SIZE)"

definition pfndb_page_to_phys :: "kmem \<Rightarrow> u64 \<Rightarrow> u64" where
  "pfndb_page_to_phys s page =
     (if page = 0 \<or> mem_map s = 0 then 0
      else if page < mem_map s \<or> page > mem_map s + max_pfn s * PAGE_T_SIZE then 0
      else (page - mem_map s) div PAGE_T_SIZE * PAGE_SIZE)"

definition pfndb_phys_to_page :: "kmem \<Rightarrow> u64 \<Rightarrow> u64" where
  "pfndb_phys_to_page s phys =
     (let pfn = phys div PAGE_SIZE in if pfn > max_pfn s then 0 else mem_map s + pfn * PAGE_T_SIZE)"

section \<open>Descriptor addresses\<close>

definition page_at :: "kmem \<Rightarrow> nat \<Rightarrow> u64" where
  "page_at s i = mem_map s + of_nat i * PAGE_T_SIZE"

text \<open>The database fits into the address space and describes frames below \<open>2\<^sup>6\<^sup>4\<close> bytes.\<close>

definition db_ok :: "kmem \<Rightarrow> bool" where
  "db_ok s \<longleftrightarrow> mem_map s \<noteq> 0 \<and> unat (mem_map s) + 64 * Suc (unat (max_pfn s)) \<le> 2 ^ 64
     \<and> unat (max_pfn s) < 2 ^ 52"

definition page_ptrs :: "kmem \<Rightarrow> u64 set" where
  "page_ptrs s = page_at s ` {..unat (max_pfn s)}"

lemma unat_page_at:
  assumes "db_ok s" and "i \<le> unat (max_pfn s)"
  shows "unat (page_at s i) = unat (mem_map s) + 64 * i"
proof -
  have le: "unat (mem_map s) + 64 * i < 2 ^ 64" and i: "i < 2 ^ 52"
    using assms by (auto simp: db_ok_def)
  have "unat (of_nat i * PAGE_T_SIZE) = 64 * i"
    using i by (simp add: unat_word_ariths)
  then show ?thesis using le by (simp add: page_at_def unat_word_ariths)
qed

lemma page_at_eq_iff [page_simps]:
  "db_ok s \<Longrightarrow> i \<le> unat (max_pfn s) \<Longrightarrow> j \<le> unat (max_pfn s) \<Longrightarrow> page_at s i = page_at s j \<longleftrightarrow> i = j"
  by (auto simp: word_unat_eq_iff unat_page_at)

lemma page_at_nonzero: "db_ok s \<Longrightarrow> i \<le> unat (max_pfn s) \<Longrightarrow> page_at s i \<noteq> 0"
  by (auto simp: word_unat_eq_iff unat_page_at db_ok_def)

lemma page_ptrs_nonzero: "db_ok s \<Longrightarrow> p \<in> page_ptrs s \<Longrightarrow> p \<noteq> 0"
  by (auto simp: page_ptrs_def page_at_nonzero)

lemma card_page_ptrs: "db_ok s \<Longrightarrow> card (page_ptrs s) = Suc (unat (max_pfn s))"
  unfolding page_ptrs_def by (subst card_image) (auto simp: inj_on_def page_at_eq_iff)

lemma finite_page_ptrs [simp]: "finite (page_ptrs s)"
  by (simp add: page_ptrs_def)

lemma pfndb_getptr_at: "i \<le> unat (max_pfn s) \<Longrightarrow> pfndb_getptr s (of_nat i) = page_at s i"
  using le_less_trans [OF _ unat_bound64 [of "max_pfn s"]]
  by (auto simp: pfndb_getptr_def page_at_def word_less_nat_alt)

lemma page_at_offset:
  assumes "db_ok s" and "i \<le> unat (max_pfn s)"
  shows "(page_at s i - mem_map s) div PAGE_T_SIZE = of_nat i"
proof -
  have "i < 2 ^ 52" using assms by (auto simp: db_ok_def)
  then have "unat (of_nat i * PAGE_T_SIZE) = i * 64" by (simp add: unat_word_ariths)
  then have "unat ((of_nat i * PAGE_T_SIZE) div PAGE_T_SIZE) = i" by (simp add: unat_div)
  then show ?thesis
    using \<open>i < 2 ^ 52\<close> by (simp add: page_at_def word_unat_eq_iff)
qed

lemma page_at_in_range:
  assumes "db_ok s" and "i \<le> unat (max_pfn s)"
  shows "\<not> page_at s i < mem_map s \<and> \<not> mem_map s + max_pfn s * PAGE_T_SIZE < page_at s i"
proof -
  have "mem_map s + max_pfn s * PAGE_T_SIZE = page_at s (unat (max_pfn s))"
    by (simp add: page_at_def)
  then show ?thesis
    using unat_page_at [OF assms] unat_page_at [OF assms(1), of "unat (max_pfn s)"] assms(2)
    by (simp add: word_less_nat_alt)
qed

lemma page_to_phys_at [page_simps]:
  "db_ok s \<Longrightarrow> i \<le> unat (max_pfn s) \<Longrightarrow> pfndb_page_to_phys s (page_at s i) = of_nat i * PAGE_SIZE"
  using page_at_in_range [of s i] page_at_nonzero [of s i]
  by (auto simp: pfndb_page_to_phys_def page_at_offset db_ok_def)

lemma phys_to_page_at:
  assumes "db_ok s" and "i \<le> unat (max_pfn s)" and "unat off < 4096"
  shows "pfndb_phys_to_page s (of_nat i * PAGE_SIZE + off) = page_at s i"
proof -
  have i: "i < 2 ^ 52" using assms by (auto simp: db_ok_def)
  have "unat (of_nat i * PAGE_SIZE) = 4096 * i" using i by (simp add: unat_word_ariths)
  then have "unat (of_nat i * PAGE_SIZE + off) = 4096 * i + unat off"
    using i assms(3) by (simp add: unat_word_ariths)
  then have "unat ((of_nat i * PAGE_SIZE + off) div PAGE_SIZE) = i"
    using assms(3) by (simp add: unat_div)
  then have "(of_nat i * PAGE_SIZE + off) div PAGE_SIZE = of_nat i"
    using i by (simp add: word_unat_eq_iff)
  then show ?thesis
    using assms(2) i by (simp add: pfndb_phys_to_page_def page_at_def word_less_nat_alt)
qed

text \<open>The translations between frame numbers, descriptors and physical addresses are mutually
  inverse on the frames of the database, and any address inside a frame finds that frame's
  descriptor.\<close>

theorem pfndb_translations_inverse:
  assumes "db_ok s" and "pfn \<le> max_pfn s" and "off < PAGE_SIZE"
  shows "pfndb_getpfn s (pfndb_getptr s pfn) = pfn
    \<and> pfndb_page_to_phys s (pfndb_getptr s pfn) = pfndb_pfnaddr s pfn
    \<and> pfndb_phys_to_page s (pfndb_pfnaddr s pfn + off) = pfndb_getptr s pfn"
proof -
  let ?i = "unat pfn"
  have i: "?i \<le> unat (max_pfn s)" using assms(2) by (simp add: word_le_nat_alt)
  have ptr: "pfndb_getptr s pfn = page_at s ?i" using pfndb_getptr_at [OF i] by simp
  have addr: "pfndb_pfnaddr s pfn = of_nat ?i * PAGE_SIZE"
    using leD [OF assms(2)] by (simp add: pfndb_pfnaddr_def)
  have "pfndb_getpfn s (page_at s ?i) = of_nat ?i"
    using page_at_in_range [OF assms(1) i] page_at_nonzero [OF assms(1) i] assms(1)
    by (auto simp: pfndb_getpfn_def page_at_offset [OF assms(1) i] db_ok_def)
  then show ?thesis
    using page_to_phys_at [OF assms(1) i] phys_to_page_at [OF assms(1) i, of off] assms(3)
    by (simp add: ptr addr word_less_nat_alt)
qed

theorem pfndb_translations_inverse_witness:
  "\<exists>s. db_ok s \<and> pfndb_getpfn s (pfndb_getptr s 5) = 5
    \<and> pfndb_phys_to_page s (pfndb_pfnaddr s 5 + 17) = pfndb_getptr s 5"
proof -
  define s where "s = (undefined :: kmem)\<lparr>mem_map := 8192, max_pfn := 9\<rparr>"
  have "db_ok s" by (simp add: db_ok_def s_def)
  moreover have "5 \<le> max_pfn s" by (simp add: s_def)
  ultimately show ?thesis using pfndb_translations_inverse [of s 5 17] by auto
qed

section \<open>What initialisation leaves\<close>

text \<open>The frames an entry of the memory map contributes.\<close>

definition entry_frames :: "memmap_entry \<Rightarrow> nat set" where
  "entry_frames e =
     (if me_usable e
      then {unat (me_base e div PAGE_SIZE)..<unat ((me_base e + me_length e) div PAGE_SIZE)} else {})"

definition db_flags :: "kmem \<Rightarrow> nat set \<Rightarrow> bool" where
  "db_flags s F \<longleftrightarrow> (\<forall>i \<le> unat (max_pfn s).
     flags (pgs s (page_at s i)) = (if i \<in> F then PAGE_FREE else PAGE_RESERVED)
     \<and> refcount (pgs s (page_at s i)) = 0)"

lemma upd_page_fields [simp]:
  "mem_map (upd_page p f s) = mem_map s" "max_pfn (upd_page p f s) = max_pfn s"
  "hhdm_offset (upd_page p f s) = hhdm_offset s" "pfndb_phys (upd_page p f s) = pfndb_phys s"
  "freelist (upd_page p f s) = freelist s" "free_pages (upd_page p f s) = free_pages s"
  "total_pages (upd_page p f s) = total_pages s" "ram (upd_page p f s) = ram s"
  "kernel_ptable (upd_page p f s) = kernel_ptable s" "mmio_regions (upd_page p f s) = mmio_regions s"
  "pgs (upd_page p f s) = (pgs s)(p := f (pgs s p))"
  by (simp_all add: upd_page_def)

lemma upd_page_geometry [simp]:
  "page_at (upd_page p f s) = page_at s" "db_ok (upd_page p f s) = db_ok s"
  "page_ptrs (upd_page p f s) = page_ptrs s"
  by (simp_all add: page_at_def db_ok_def page_ptrs_def fun_eq_iff)

lemma flag_words:
  "(PAGE_RESERVED AND flag_not (PAGE_RESERVED OR PAGE_USED)) OR PAGE_FREE = PAGE_FREE"
  "(PAGE_FREE AND flag_not (PAGE_RESERVED OR PAGE_USED)) OR PAGE_FREE = PAGE_FREE"
  "PAGE_FREE AND PAGE_FREE \<noteq> 0" "PAGE_RESERVED AND PAGE_FREE = 0"
  "PAGE_RESERVED AND PAGE_RESERVED \<noteq> 0" "PAGE_FREE AND PAGE_RESERVED = 0"
  by (simp_all add: flag_not_def PAGE_FREE_def PAGE_RESERVED_def PAGE_USED_def)

lemma pfndb_mark_free_flags:
  assumes "db_ok s" and "i \<le> unat (max_pfn s)" and "db_flags s F"
  shows "db_flags (pfndb_mark_free i s) (insert i F)"
  using assms
  by (auto simp: db_flags_def pfndb_mark_free_def page_at_def [symmetric] page_at_eq_iff flag_words
      simp del: bit.de_Morgan_disj)

lemma pfndb_mark_free_frame [simp]:
  "mem_map (pfndb_mark_free i s) = mem_map s" "max_pfn (pfndb_mark_free i s) = max_pfn s"
  "pfndb_phys (pfndb_mark_free i s) = pfndb_phys s" "db_ok (pfndb_mark_free i s) = db_ok s"
  "kernel_ptable (pfndb_mark_free i s) = kernel_ptable s" "mmio_regions (pfndb_mark_free i s) = mmio_regions s"
  by (simp_all add: pfndb_mark_free_def)

lemma fold_mark_free_flags:
  "db_ok s \<Longrightarrow> \<forall>i \<in> set xs. i \<le> unat (max_pfn s) \<Longrightarrow> db_flags s F \<Longrightarrow>
   db_flags (fold pfndb_mark_free xs s) (F \<union> set xs)
   \<and> mem_map (fold pfndb_mark_free xs s) = mem_map s \<and> max_pfn (fold pfndb_mark_free xs s) = max_pfn s
   \<and> pfndb_phys (fold pfndb_mark_free xs s) = pfndb_phys s"
proof (induction xs arbitrary: s F)
  case (Cons i xs)
  then have "db_flags (pfndb_mark_free i s) (insert i F)" by (simp add: pfndb_mark_free_flags)
  then show ?case using Cons.IH [of "pfndb_mark_free i s" "insert i F"] Cons.prems by simp
qed simp

lemma pfndb_mark_entry_flags:
  assumes "db_ok s" and "db_flags s F"
  shows "db_flags (pfndb_mark_entry e s) (F \<union> entry_frames e)
    \<and> mem_map (pfndb_mark_entry e s) = mem_map s \<and> max_pfn (pfndb_mark_entry e s) = max_pfn s
    \<and> pfndb_phys (pfndb_mark_entry e s) = pfndb_phys s"
proof (cases "me_usable e")
  case True
  let ?xs = "[unat (me_base e div PAGE_SIZE)..<min (unat ((me_base e + me_length e) div PAGE_SIZE)) (Suc (unat (max_pfn s)))]"
  have "\<forall>i \<in> set ?xs. i \<le> unat (max_pfn s)" by auto
  note fold_mark_free_flags [OF assms(1) this assms(2)]
  moreover have eq: "pfndb_mark_entry e s = fold pfndb_mark_free ?xs s"
    using True by (simp add: pfndb_mark_entry_def Let_def)
  moreover have "db_flags s' (F \<union> set ?xs) \<longleftrightarrow> db_flags s' (F \<union> entry_frames e)"
    if "max_pfn s' = max_pfn s" for s'
    using True that by (auto simp: db_flags_def entry_frames_def)
  ultimately show ?thesis unfolding eq by blast
qed (use assms in \<open>simp add: pfndb_mark_entry_def entry_frames_def\<close>)

lemma fold_mark_entry_flags:
  "db_ok s \<Longrightarrow> db_flags s F \<Longrightarrow>
   db_flags (fold pfndb_mark_entry es s) (F \<union> \<Union> (entry_frames ` set es))
   \<and> mem_map (fold pfndb_mark_entry es s) = mem_map s \<and> max_pfn (fold pfndb_mark_entry es s) = max_pfn s
   \<and> pfndb_phys (fold pfndb_mark_entry es s) = pfndb_phys s"
proof (induction es arbitrary: s F)
  case (Cons e es)
  let ?s = "pfndb_mark_entry e s"
  have e: "db_flags ?s (F \<union> entry_frames e)" "mem_map ?s = mem_map s" "max_pfn ?s = max_pfn s"
    "pfndb_phys ?s = pfndb_phys s"
    using pfndb_mark_entry_flags [OF Cons.prems] by auto
  then have "db_ok ?s" using Cons.prems by (simp add: db_ok_def)
  then show ?case using Cons.IH [of ?s "F \<union> entry_frames e"] e by (simp add: Un_assoc)
qed simp

lemma fold_reset_pages:
  "db_ok s \<Longrightarrow> n \<le> Suc (unat (max_pfn s)) \<Longrightarrow>
   let s' = fold pfndb_reset_page [0..<n] s in
   mem_map s' = mem_map s \<and> max_pfn s' = max_pfn s \<and> pfndb_phys s' = pfndb_phys s
   \<and> (\<forall>i < n. flags (pgs s' (page_at s i)) = PAGE_RESERVED \<and> refcount (pgs s' (page_at s i)) = 0)"
proof (induction n)
  case (Suc n)
  define r where "r = fold pfndb_reset_page [0..<n] s"
  have IH: "mem_map r = mem_map s" "max_pfn r = max_pfn s" "pfndb_phys r = pfndb_phys s"
    "\<forall>i < n. flags (pgs r (page_at s i)) = PAGE_RESERVED \<and> refcount (pgs r (page_at s i)) = 0"
    using Suc by (simp_all add: Let_def r_def)
  have "mem_map r + of_nat n * PAGE_T_SIZE = page_at s n" using IH by (simp add: page_at_def)
  moreover have eq: "fold pfndb_reset_page [0..<Suc n] s = pfndb_reset_page n r" by (simp add: r_def)
  ultimately show ?case
    using IH Suc.prems unfolding Let_def eq
    by (auto simp: pfndb_reset_page_def less_Suc_eq page_at_eq_iff)
qed simp

lemma fold_frame:
  assumes "\<And>x s. x \<in> set xs \<Longrightarrow> g (f x s) = g s"
  shows "g (fold f xs s) = g s"
  using assms by (induction xs arbitrary: s) auto

lemma pfndb_init_geometry [simp]:
  "mem_map (pfndb_reset_page i s) = mem_map s" "max_pfn (pfndb_reset_page i s) = max_pfn s"
  "pfndb_phys (pfndb_reset_page i s) = pfndb_phys s"
  "mem_map (pfndb_mark_entry e s) = mem_map s" "max_pfn (pfndb_mark_entry e s) = max_pfn s"
  "pfndb_phys (pfndb_mark_entry e s) = pfndb_phys s"
  "kernel_ptable (pfndb_reset_page i s) = kernel_ptable s" "kernel_ptable (pfndb_mark_entry e s) = kernel_ptable s"
  "mmio_regions (pfndb_reset_page i s) = mmio_regions s" "mmio_regions (pfndb_mark_entry e s) = mmio_regions s"
  by (simp_all add: pfndb_reset_page_def pfndb_mark_entry_def Let_def fold_frame)

lemma pfndb_init_flags:
  assumes "pfndb_init memmap s = Some (memmap', s')" and "db_ok s'"
  shows "db_flags s' (\<Union> (entry_frames ` set memmap') - {0})
    \<and> pfndb_reserve (pfndb_size (max_pfn s')) memmap = Some (pfndb_phys s', memmap')
    \<and> max_pfn s' = pfndb_calc_max_pfn memmap"
proof -
  define mx where "mx = pfndb_calc_max_pfn memmap"
  obtain phys where res: "pfndb_reserve (pfndb_size mx) memmap = Some (phys, memmap')"
    using assms(1) by (auto simp: pfndb_init_def mx_def Let_def split: option.splits if_splits)
  define s1 where "s1 = s\<lparr>max_pfn := mx, pfndb_phys := phys, mem_map := phys + hhdm_offset s\<rparr>"
  define s2 where "s2 = fold pfndb_reset_page [0..<Suc (unat mx)] s1"
  define s3 where "s3 = fold pfndb_mark_entry memmap' s2"
  have s': "s' = upd_page (mem_map s1) (\<lambda>p. p\<lparr>flags := PAGE_RESERVED, refcount := 0\<rparr>) s3"
    using assms(1) res
    by (auto simp: pfndb_init_def mx_def [symmetric] s1_def s2_def s3_def Let_def
        simp del: upt_Suc split: if_splits)
  have m1: "max_pfn s1 = mx" "pfndb_phys s1 = phys" by (simp_all add: s1_def)
  have m2: "mem_map s2 = mem_map s1" "max_pfn s2 = mx" "pfndb_phys s2 = phys"
    unfolding s2_def using m1 by (simp_all add: fold_frame del: upt_Suc)
  have m3: "mem_map s3 = mem_map s1" "max_pfn s3 = mx" "pfndb_phys s3 = phys"
    unfolding s3_def using m2 by (simp_all add: fold_frame)
  have ok: "db_ok s1" "db_ok s2" "db_ok s3"
    using assms(2) m1 m2 m3 by (simp_all add: s' db_ok_def)
  have "db_flags s2 {}"
    using fold_reset_pages [OF ok(1), of "Suc (unat mx)"] m1 m2
    by (simp add: Let_def s2_def [symmetric] db_flags_def page_at_def less_Suc_eq_le del: upt_Suc)
  then have "db_flags s3 (\<Union> (entry_frames ` set memmap'))"
    using fold_mark_entry_flags [OF ok(2), of "{}" memmap'] by (simp add: s3_def)
  moreover have "mem_map s1 = page_at s3 0" using m3 by (simp add: page_at_def)
  ultimately have "db_flags s' (\<Union> (entry_frames ` set memmap') - {0})"
    using ok(3) by (auto simp: s' db_flags_def page_at_eq_iff)
  then show ?thesis using res m3 by (simp add: s' mx_def)
qed

text \<open>After initialisation a frame is free exactly when it lies in a usable entry of the memory
  map that is left (the first frame excepted); every other frame is reserved, and no frame is
  referenced.\<close>

theorem pfndb_init_free_frames:
  assumes "pfndb_init memmap s = Some (memmap', s')" and "db_ok s'" and "i \<le> unat (max_pfn s')"
  shows "(page_is_free (pgs s' (page_at s' i)) \<longleftrightarrow> i \<noteq> 0 \<and> (\<exists>e \<in> set memmap'. i \<in> entry_frames e))
    \<and> (page_is_reserved (pgs s' (page_at s' i)) \<longleftrightarrow> \<not> page_is_free (pgs s' (page_at s' i)))
    \<and> refcount (pgs s' (page_at s' i)) = 0"
  unfolding page_is_free_def page_is_reserved_def
  using pfndb_init_flags [OF assms(1,2)] assms(3)
  by (auto simp: db_flags_def flag_words simp del: and.idem)

text \<open>A machine with eight usable frames from frame 1 on, and the database at frame 1.\<close>

definition small_map :: "memmap_entry list" where
  "small_map = [\<lparr>me_base = 4096, me_length = 32768, me_usable = True\<rparr>]"

definition boot_mem :: kmem where
  "boot_mem = \<lparr>hhdm_offset = 65536, mem_map = 0, max_pfn = 0, pfndb_phys = 0,
     pgs = (\<lambda>_. \<lparr>u1_next = 0, u2 = 0, flags = 0, refcount = 0\<rparr>), freelist = 0, free_pages = 0,
     total_pages = 0, ram = (\<lambda>_. 0), kernel_ptable = 0, mmio_regions = []\<rparr>"

lemma pfndb_init_small:
  "\<exists>s'. pfndb_init small_map boot_mem
      = Some ([\<lparr>me_base = 8192, me_length = 28672, me_usable = True\<rparr>], s')
    \<and> mem_map s' = 69632 \<and> max_pfn s' = 9 \<and> pfndb_phys s' = 4096 \<and> db_ok s'
    \<and> kernel_ptable s' = 0 \<and> mmio_regions s' = []"
  by (simp add: pfndb_init_def pfndb_calc_max_pfn_def small_map_def boot_mem_def pfndb_size_def
      Let_def fold_frame db_ok_def)

theorem pfndb_init_free_frames_witness:
  "\<exists>memmap' s'. pfndb_init small_map boot_mem = Some (memmap', s')
    \<and> \<not> page_is_free (pgs s' (page_at s' 1)) \<and> page_is_free (pgs s' (page_at s' 2))"
proof -
  obtain s' where s': "pfndb_init small_map boot_mem
      = Some ([\<lparr>me_base = 8192, me_length = 28672, me_usable = True\<rparr>], s')"
    "max_pfn s' = 9" "db_ok s'"
    using pfndb_init_small by blast
  then have "\<not> page_is_free (pgs s' (page_at s' 1)) \<and> page_is_free (pgs s' (page_at s' 2))"
    using pfndb_init_free_frames [OF s'(1,3), of 1] pfndb_init_free_frames [OF s'(1,3), of 2]
    by (simp add: entry_frames_def)
  then show ?thesis using s'(1) by blast
qed

section \<open>The database is not handed out\<close>

definition memmap_ok :: "memmap_entry list \<Rightarrow> bool" where
  "memmap_ok memmap \<longleftrightarrow> (\<forall>e \<in> set memmap. unat (me_base e) + unat (me_length e) < 2 ^ 64)
     \<and> sorted_wrt (\<lambda>d e. entry_frames d \<inter> entry_frames e = {}) memmap"

lemma pfndb_reserve_split:
  "pfndb_reserve need memmap = Some (phys, memmap') \<Longrightarrow>
   \<exists>pre e post. memmap = pre @ e # post \<and> me_usable e \<and> need \<le> me_length e \<and> phys = me_base e
     \<and> memmap' = pre @ e\<lparr>me_base := me_base e + need, me_length := me_length e - need\<rparr> # post"
proof (induction memmap arbitrary: memmap')
  case (Cons e es)
  show ?case
  proof (cases "\<not> me_usable e \<or> me_length e < need")
    case True
    then obtain es' where "pfndb_reserve need es = Some (phys, es')" "memmap' = e # es'"
      using Cons.prems by auto
    with Cons.IH [OF this(1)] show ?thesis by (metis append_Cons)
  next
    case False
    then show ?thesis using Cons.prems by (intro exI [of _ "[]"]) auto
  qed
qed simp

lemma entry_frames_carved:
  assumes "unat (me_base e) + unat (me_length e) < 2 ^ 64" and "need \<le> me_length e" and "me_usable e"
  shows "{unat (me_base e) div 4096 ..< (unat (me_base e) + unat need) div 4096} \<subseteq> entry_frames e"
    and "{unat (me_base e) div 4096 ..< (unat (me_base e) + unat need) div 4096}
      \<inter> entry_frames (e\<lparr>me_base := me_base e + need, me_length := me_length e - need\<rparr>) = {}"
proof -
  have need: "unat need \<le> unat (me_length e)" using assms(2) by (simp add: word_le_nat_alt)
  then have "unat (me_base e + need) = unat (me_base e) + unat need"
    "unat (me_base e + me_length e) = unat (me_base e) + unat (me_length e)"
    using assms(1) by (simp_all add: unat_word_ariths)
  then show "{unat (me_base e) div 4096 ..< (unat (me_base e) + unat need) div 4096} \<subseteq> entry_frames e"
    "{unat (me_base e) div 4096 ..< (unat (me_base e) + unat need) div 4096}
      \<inter> entry_frames (e\<lparr>me_base := me_base e + need, me_length := me_length e - need\<rparr>) = {}"
    using need assms(3)
    by (auto simp: entry_frames_def unat_div div_le_mono intro: less_le_trans)
qed

text \<open>The frames the database itself occupies are reserved after initialisation, so the
  allocator never hands them out: on a memory map whose entries do not wrap around and share no
  frame, none of the frames from \<open>pfndb_phys\<close> up to the end of the reservation is free.\<close>

theorem pfndb_init_keeps_database:
  assumes "pfndb_init memmap s = Some (memmap', s')" and "db_ok s'" and "memmap_ok memmap"
    and "i \<in> {unat (pfndb_phys s') div 4096
      ..< (unat (pfndb_phys s') + unat (pfndb_size (max_pfn s'))) div 4096}"
    and "i \<le> unat (max_pfn s')"
  shows "page_is_reserved (pgs s' (page_at s' i)) \<and> \<not> page_is_free (pgs s' (page_at s' i))"
proof -
  let ?need = "pfndb_size (max_pfn s')"
  obtain pre e post where e: "memmap = pre @ e # post" "me_usable e" "?need \<le> me_length e"
      "pfndb_phys s' = me_base e"
      "memmap' = pre @ e\<lparr>me_base := me_base e + ?need, me_length := me_length e - ?need\<rparr> # post"
    using pfndb_init_flags [OF assms(1,2)] pfndb_reserve_split by blast
  have "unat (me_base e) + unat (me_length e) < 2 ^ 64"
    and disj: "d \<in> set pre \<or> d \<in> set post \<Longrightarrow> entry_frames d \<inter> entry_frames e = {}" for d
    using assms(3) by (auto simp: memmap_ok_def e(1) sorted_wrt_append)
  note carved = entry_frames_carved [OF this(1) e(3,2)]
  then have "i \<in> entry_frames e"
      "i \<notin> entry_frames (e\<lparr>me_base := me_base e + ?need, me_length := me_length e - ?need\<rparr>)"
    using assms(4) unfolding e(4) by blast+
  then have "i \<notin> \<Union> (entry_frames ` set memmap')"
    using disj unfolding e(5) by (force simp: disjoint_iff)
  then show ?thesis
    unfolding page_is_free_def page_is_reserved_def
    using pfndb_init_flags [OF assms(1,2)] assms(5)
    by (auto simp: db_flags_def flag_words simp del: and.idem)
qed

theorem pfndb_init_keeps_database_witness:
  "\<exists>memmap' s'. pfndb_init small_map boot_mem = Some (memmap', s')
    \<and> pfndb_phys s' = 4096 \<and> page_is_reserved (pgs s' (page_at s' 1))"
proof -
  obtain s' where s': "pfndb_init small_map boot_mem
      = Some ([\<lparr>me_base = 8192, me_length = 28672, me_usable = True\<rparr>], s')"
    "max_pfn s' = 9" "db_ok s'" "pfndb_phys s' = 4096"
    using pfndb_init_small by blast
  moreover have "memmap_ok small_map" by (simp add: memmap_ok_def small_map_def)
  ultimately have "page_is_reserved (pgs s' (page_at s' 1))"
    using pfndb_init_keeps_database [OF s'(1,3), of 1] by (simp add: pfndb_size_def)
  then show ?thesis using s'(1,4) by blast
qed

end
