(* ===== verification/Pmm.thy ===== *)
theory Pmm
  imports Pfndb
begin

text \<open>
  The physical page allocator, \<open>kernel/src/mm/pmm.c\<close>: a doubly linked list of free page
  descriptors threaded through \<open>u1.next\<close> and \<open>u2.prev\<close>, with reference and share counts
  on the pages that are in use.  Each operation holds \<open>pmm_lock\<close> with interrupts off from its
  first to its last access, so it is one state transformation.  The lemmas show that the list, the
  flag words and the counters agree after every operation, and that the allocator meets the
  interface \<open>frame_allocator\<close>.
\<close>

section \<open>Checks\<close>

definition page_validate_free :: "u64 \<Rightarrow> kmem \<Rightarrow> unit option" where
  "page_validate_free page s =
     (if page = 0 then None
      else let p = pgs s page in
        if page_is_poisoned p then Some ()
        else if \<not> page_is_free p then None
        else if refcount p \<noteq> 0 then None
        else if u2 p \<noteq> 0 then None
        else Some ())"

definition page_validate_used :: "u64 \<Rightarrow> kmem \<Rightarrow> unit option" where
  "page_validate_used page s =
     (if page = 0 then None
      else let p = pgs s page in
        if page_is_poisoned p then None
        else if \<not> page_is_used p then None
        else if refcount p = 0 then None
        else Some ())"

definition push_asserts :: "u64 \<Rightarrow> kmem \<Rightarrow> unit option" where
  "push_asserts page s =
     require (page \<noteq> 0 \<and> refcount (pgs s page) = 0 \<and> u2 (pgs s page) = 0
       \<and> flags (pgs s page) AND PAGE_FREE = 0 \<and> flags (pgs s page) AND PAGE_RESERVED = 0
       \<and> flags (pgs s page) AND PAGE_POISON = 0)"

section \<open>The free list\<close>

definition push_head :: "u64 \<Rightarrow> kmem \<Rightarrow> kmem" where
  "push_head page s =
     (let s1 = upd_page page (\<lambda>p. p\<lparr>flags := PAGE_FREE, u1_next := freelist s, u2 := 0\<rparr>) s;
          s2 = (if freelist s1 \<noteq> 0 then upd_page (freelist s1) (\<lambda>p. p\<lparr>u2 := page\<rparr>) s1 else s1)
      in s2\<lparr>freelist := page, free_pages := free_pages s2 + 1\<rparr>)"

definition pmm_push_noscrub :: "u64 \<Rightarrow> kmem \<Rightarrow> kmem option" where
  "pmm_push_noscrub page s = do { push_asserts page s; Some (push_head page s) }"

definition pmm_push :: "u64 \<Rightarrow> kmem \<Rightarrow> kmem option" where
  "pmm_push page s = do {
     push_asserts page s;
     let phys = pfndb_page_to_phys s page;
     Some (push_head page (s\<lparr>ram := memset (ram s) phys 0 PAGE_SIZE\<rparr>)) }"

text \<open>A NULL page is returned as \<open>0\<close>, with the state unchanged.\<close>

definition pmm_pop :: "kmem \<Rightarrow> (u64 \<times> kmem) option" where
  "pmm_pop s =
     (if freelist s = 0 then Some (0, s)
      else do {
        let page = freelist s;
        page_validate_free page s;
        let s1 = s\<lparr>freelist := u1_next (pgs s page)\<rparr>;
        let s2 = (if freelist s1 \<noteq> 0 then upd_page (freelist s1) (\<lambda>p. p\<lparr>u2 := 0\<rparr>) s1 else s1);
        let s3 = upd_page page (\<lambda>p. p\<lparr>u1_next := 0, u2 := 0,
                   flags := (flags p AND flag_not PAGE_FREE) OR PAGE_USED\<rparr>) s2;
        Some (page, s3\<lparr>free_pages := free_pages s3 - 1\<rparr>) })"

definition pmm_init_page :: "nat \<Rightarrow> kmem \<Rightarrow> kmem option" where
  "pmm_init_page i s =
     (let page = pfndb_getptr s (of_nat i); p = pgs s page in
      if flags p AND PAGE_FREE = 0 then Some s
      else if flags p AND PAGE_RESERVED \<noteq> 0 then Some s
      else pmm_push_noscrub page
        (upd_page page (\<lambda>p. p\<lparr>refcount := 0, u1_next := 0, u2 := 0, flags := flags p AND flag_not PAGE_FREE\<rparr>) s))"

text \<open>The loop of \<open>pmm_init\<close> runs downwards from \<open>max_pfn\<close> to \<open>0\<close>: the argument counts
  the frames still to visit.\<close>

primrec pmm_init_loop :: "nat \<Rightarrow> kmem \<Rightarrow> kmem option" where
  "pmm_init_loop 0 s = Some s"
| "pmm_init_loop (Suc i) s = do { s' \<leftarrow> pmm_init_page i s; pmm_init_loop i s' }"

definition pmm_init :: "kmem \<Rightarrow> kmem option" where
  "pmm_init s = do {
     require (pfndb_getdb s \<noteq> 0);
     let mx = pfndb_getmax s;
     pmm_init_loop (Suc (unat mx)) (s\<lparr>freelist := 0, free_pages := 0, total_pages := mx + 1\<rparr>) }"

section \<open>Operations\<close>

definition palloc_page :: "kmem \<Rightarrow> (u64 \<times> kmem) option" where
  "palloc_page s = do {
     (page, s1) \<leftarrow> pmm_pop s;
     require (page \<noteq> 0);
     Some (page, upd_page page (\<lambda>p. p\<lparr>refcount := 1\<rparr>) s1) }"

definition palloc_single :: "kmem \<Rightarrow> (u64 \<times> kmem) option" where
  "palloc_single s = do {
     (page, s1) \<leftarrow> pmm_pop s;
     require (page \<noteq> 0);
     let s2 = upd_page page (\<lambda>p. p\<lparr>refcount := 1\<rparr>) s1;
     Some (pfndb_page_to_phys s2 page, s2) }"

definition page_ref :: "u64 \<Rightarrow> kmem \<Rightarrow> kmem option" where
  "page_ref page s = do {
     page_validate_used page s;
     Some (upd_page page (\<lambda>p. p\<lparr>refcount := refcount p + 1\<rparr>) s) }"

definition page_unref :: "u64 \<Rightarrow> kmem \<Rightarrow> kmem option" where
  "page_unref page s =
     (if page = 0 then Some s
      else do {
        require (page_is_used (pgs s page));
        page_validate_used page s;
        if refcount (pgs s page) = 0 then Some s
        else let s1 = upd_page page (\<lambda>p. p\<lparr>refcount := refcount p - 1\<rparr>) s in
          if refcount (pgs s1 page) = 0
          then do { require (u2 (pgs s1 page) = 0); pmm_push page s1 }
          else Some s1 })"

definition page_share :: "u64 \<Rightarrow> kmem \<Rightarrow> kmem option" where
  "page_share page s = do {
     page_validate_used page s;
     let s1 = upd_page page (\<lambda>p. p\<lparr>u2 := u2 p + 1\<rparr>) s;
     Some (if u2 (pgs s1 page) > 1 then upd_page page (\<lambda>p. p\<lparr>flags := flags p OR PAGE_SHARED\<rparr>) s1
           else s1) }"

definition page_unshare :: "u64 \<Rightarrow> kmem \<Rightarrow> kmem option" where
  "page_unshare page s = do {
     page_validate_used page s;
     if u2 (pgs s page) = 0 then Some s
     else let s1 = upd_page page (\<lambda>p. p\<lparr>u2 := u2 p - 1\<rparr>) s in
       Some (if u2 (pgs s1 page) \<le> 1
             then upd_page page (\<lambda>p. p\<lparr>flags := flags p AND flag_not PAGE_SHARED\<rparr>) s1 else s1) }"

definition page_mark_cow :: "u64 \<Rightarrow> kmem \<Rightarrow> kmem option" where
  "page_mark_cow page s =
     (if page = 0 then Some s
      else do {
        page_validate_used page s;
        Some (upd_page page (\<lambda>p. p\<lparr>flags := flags p OR PAGE_COW\<rparr>) s) })"

definition page_clear_cow :: "u64 \<Rightarrow> kmem \<Rightarrow> kmem option" where
  "page_clear_cow page s =
     (if page = 0 then Some s
      else do {
        page_validate_used page s;
        Some (upd_page page (\<lambda>p. p\<lparr>flags := flags p AND flag_not PAGE_COW\<rparr>) s) })"

definition pmm_free_pages :: "kmem \<Rightarrow> u64" where
  "pmm_free_pages s = free_pages s"

definition pmm_total_pages :: "kmem \<Rightarrow> u64" where
  "pmm_total_pages s = total_pages s"

section \<open>Invariant\<close>

text \<open>\<open>fl_chain pg prv p xs\<close>: starting at \<open>p\<close>, whose predecessor is \<open>prv\<close>, the links run
  through exactly the descriptors \<open>xs\<close> and end in NULL.\<close>

fun fl_chain :: "(u64 \<Rightarrow> page) \<Rightarrow> u64 \<Rightarrow> u64 \<Rightarrow> u64 list \<Rightarrow> bool" where
  "fl_chain pg prv p [] \<longleftrightarrow> p = 0"
| "fl_chain pg prv p (x # xs) \<longleftrightarrow> p = x \<and> x \<noteq> 0 \<and> u2 (pg x) = prv \<and> fl_chain pg x (u1_next (pg x)) xs"

definition used_page :: "page \<Rightarrow> bool" where
  "used_page p \<longleftrightarrow> page_is_used p \<and> \<not> page_is_free p \<and> \<not> page_is_reserved p \<and> \<not> page_is_poisoned p
     \<and> refcount p \<noteq> 0 \<and> (page_is_shared p \<longleftrightarrow> u2 p > 1)"

definition idle_page :: "page \<Rightarrow> bool" where
  "idle_page p \<longleftrightarrow> (flags p = PAGE_FREE \<or> flags p = PAGE_RESERVED) \<and> refcount p = 0"

definition free_set :: "kmem \<Rightarrow> u64 set" where
  "free_set s = {p \<in> page_ptrs s. page_is_free (pgs s p)}"

definition freelist_is :: "kmem \<Rightarrow> u64 list \<Rightarrow> bool" where
  "freelist_is s xs \<longleftrightarrow> fl_chain (pgs s) 0 (freelist s) xs \<and> distinct xs \<and> set xs = free_set s
     \<and> unat (free_pages s) = length xs"

definition pages_ok :: "kmem \<Rightarrow> bool" where
  "pages_ok s \<longleftrightarrow> db_ok s \<and> (\<forall>p \<in> page_ptrs s. used_page (pgs s p) \<or> idle_page (pgs s p))"

definition pmm_inv :: "kmem \<Rightarrow> bool" where
  "pmm_inv s \<longleftrightarrow> pages_ok s \<and> (\<exists>xs. freelist_is s xs)"

section \<open>Flag words\<close>

lemma page_flag_bits [page_simps]:
  "page_is_free p \<longleftrightarrow> bit (flags p) 0" "page_is_used p \<longleftrightarrow> bit (flags p) 1"
  "page_is_reserved p \<longleftrightarrow> bit (flags p) 2" "page_is_shared p \<longleftrightarrow> bit (flags p) 3"
  "page_is_cow p \<longleftrightarrow> bit (flags p) 4" "page_is_poisoned p \<longleftrightarrow> bit (flags p) 5"
  unfolding page_is_free_def page_is_used_def page_is_reserved_def page_is_shared_def page_is_cow_def
    page_is_poisoned_def PAGE_FREE_def PAGE_USED_def PAGE_RESERVED_def PAGE_SHARED_def PAGE_COW_def
    PAGE_POISON_def
  by (simp_all only: bit_iff_and_push_bit_not_eq_0)

lemma flag_and_eq_0 [page_simps]:
  "f AND PAGE_FREE = 0 \<longleftrightarrow> \<not> bit f 0" "f AND PAGE_RESERVED = 0 \<longleftrightarrow> \<not> bit f 2"
  "f AND PAGE_POISON = 0 \<longleftrightarrow> \<not> bit f 5"
  unfolding PAGE_FREE_def PAGE_RESERVED_def PAGE_POISON_def
  by (simp_all only: bit_iff_and_push_bit_not_eq_0 not_not)

lemma bit_flag: "k < 64 \<Longrightarrow> bit (push_bit k (1 :: u64)) n \<longleftrightarrow> n = k"
  by (auto simp: bit_simps)

lemma bit_flag_consts [page_simps]:
  "bit PAGE_FREE n \<longleftrightarrow> n = 0" "bit PAGE_USED n \<longleftrightarrow> n = 1" "bit PAGE_RESERVED n \<longleftrightarrow> n = 2"
  "bit PAGE_SHARED n \<longleftrightarrow> n = 3" "bit PAGE_COW n \<longleftrightarrow> n = 4" "bit PAGE_POISON n \<longleftrightarrow> n = 5"
  unfolding PAGE_FREE_def PAGE_USED_def PAGE_RESERVED_def PAGE_SHARED_def PAGE_COW_def PAGE_POISON_def
  by (subst bit_flag, simp, rule refl)+

lemma bit_flag_not [page_simps]: "bit (flag_not f) n \<longleftrightarrow> n < 32 \<and> \<not> bit f n"
proof -
  have eq: "flag_not f = take_bit 32 (NOT f)" by (simp add: flag_not_def take_bit_eq_mask mask_eq_exp_minus_1)
  show ?thesis unfolding eq by (auto simp: bit_take_bit_iff bit_not_iff)
qed

lemma free_to_used: "(PAGE_FREE AND flag_not PAGE_FREE) OR PAGE_USED = PAGE_USED"
  by (simp add: PAGE_FREE_def PAGE_USED_def flag_not_def)

lemma free_cleared: "PAGE_FREE AND flag_not PAGE_FREE = 0"
  by (simp add: PAGE_FREE_def flag_not_def)

lemma used_not_idle: "used_page p \<Longrightarrow> \<not> idle_page p"
  by (auto simp: used_page_def idle_page_def)

section \<open>Frames\<close>

text \<open>What no operation of the allocator changes.\<close>

definition geom :: "kmem \<Rightarrow> u64 \<times> u64 \<times> u64 \<times> u64 \<times> u64 \<times> u64 \<times> mmio_region list" where
  "geom s = (hhdm_offset s, mem_map s, max_pfn s, pfndb_phys s, total_pages s, kernel_ptable s, mmio_regions s)"

lemma geom_upd [simp]:
  "geom (upd_page p f s) = geom s" "geom (s\<lparr>freelist := h\<rparr>) = geom s"
  "geom (s\<lparr>free_pages := n\<rparr>) = geom s" "geom (s\<lparr>ram := m\<rparr>) = geom s" "geom (s\<lparr>pgs := g\<rparr>) = geom s"
  by (simp_all add: geom_def)

lemma geom_eqD:
  assumes "geom s' = geom s"
  shows "page_at s' = page_at s" "page_ptrs s' = page_ptrs s" "db_ok s' = db_ok s"
    "pfndb_page_to_phys s' = pfndb_page_to_phys s" "pfndb_phys_to_page s' = pfndb_phys_to_page s"
    "mem_map s' = mem_map s" "max_pfn s' = max_pfn s"
  using assms
  by (auto simp: geom_def page_at_def page_ptrs_def db_ok_def fun_eq_iff pfndb_page_to_phys_def
      pfndb_phys_to_page_def Let_def)

lemma page_ptrs_upd [simp]:
  "page_ptrs (s\<lparr>freelist := h\<rparr>) = page_ptrs s" "page_ptrs (s\<lparr>free_pages := n\<rparr>) = page_ptrs s"
  "page_ptrs (s\<lparr>ram := m\<rparr>) = page_ptrs s" "db_ok (s\<lparr>freelist := h\<rparr>) = db_ok s"
  "db_ok (s\<lparr>free_pages := n\<rparr>) = db_ok s" "db_ok (s\<lparr>ram := m\<rparr>) = db_ok s"
  by (simp_all add: geom_def page_ptrs_def page_at_def db_ok_def)

section \<open>The list of free pages\<close>

lemma fl_chain_upd_other:
  "q \<notin> set xs \<Longrightarrow> fl_chain (pg(q := v)) prv p xs = fl_chain pg prv p xs"
  by (induction xs arbitrary: prv p) auto

lemma fl_chain_unique: "fl_chain pg prv p xs \<Longrightarrow> fl_chain pg prv p ys \<Longrightarrow> xs = ys"
proof (induction xs arbitrary: prv p ys)
  case Nil
  then show ?case by (cases ys) auto
next
  case (Cons x xs)
  then show ?case by (cases ys) auto
qed

lemma fl_chain_head:
  "fl_chain pg prv p (x # xs) \<Longrightarrow> x \<notin> set xs \<Longrightarrow> u1_next v = u1_next (pg x) \<Longrightarrow>
   fl_chain (pg(x := v)) (u2 v) x (x # xs)"
  by (simp add: fl_chain_upd_other)

lemma freelist_is_unique: "freelist_is s xs \<Longrightarrow> freelist_is s ys \<Longrightarrow> xs = ys"
  by (auto simp: freelist_is_def intro: fl_chain_unique)

lemma free_set_sub: "free_set s \<subseteq> page_ptrs s"
  by (auto simp: free_set_def)

lemma free_set_change:
  assumes "geom s' = geom s" and "\<And>q. q \<noteq> x \<Longrightarrow> flags (pgs s' q) = flags (pgs s q)"
  shows "free_set s'
    = (if x \<in> page_ptrs s \<and> page_is_free (pgs s' x) then insert x (free_set s) else free_set s - {x})"
proof (rule set_eqI)
  fix q
  show "q \<in> free_set s' \<longleftrightarrow> q \<in> (if x \<in> page_ptrs s \<and> page_is_free (pgs s' x)
      then insert x (free_set s) else free_set s - {x})"
    using geom_eqD(2) [OF assms(1)] assms(2) [of q]
    by (cases "q = x") (auto simp: free_set_def page_simps)
qed

lemma free_page_idle:
  assumes "pages_ok s" and "x \<in> free_set s"
  shows "flags (pgs s x) = PAGE_FREE" "refcount (pgs s x) = 0"
proof -
  have "used_page (pgs s x) \<or> idle_page (pgs s x)" "page_is_free (pgs s x)"
    using assms by (simp_all add: pages_ok_def free_set_def)
  then show "flags (pgs s x) = PAGE_FREE" "refcount (pgs s x) = 0"
    by (auto simp: used_page_def idle_page_def page_simps)
qed

lemma freelist_length:
  assumes "db_ok s" and "freelist_is s xs"
  shows "length xs \<le> 2 ^ 52"
proof -
  have "length xs = card (set xs)" using assms(2) distinct_card [of xs] by (simp add: freelist_is_def)
  also have "\<dots> \<le> card (page_ptrs s)"
    using assms(2) free_set_sub by (intro card_mono) (auto simp: freelist_is_def)
  also have "\<dots> \<le> 2 ^ 52" using assms(1) by (simp add: card_page_ptrs) (simp add: db_ok_def)
  finally show ?thesis .
qed

lemma push_head_chain:
  assumes "fl_chain (pgs s) 0 (freelist s) xs" and "distinct xs" and "page \<noteq> 0" and "page \<notin> set xs"
  shows "fl_chain (pgs (push_head page s)) 0 (freelist (push_head page s)) (page # xs)"
    and "pgs (push_head page s) page = (pgs s page)\<lparr>flags := PAGE_FREE, u1_next := freelist s, u2 := 0\<rparr>"
    and "q \<noteq> page \<Longrightarrow> flags (pgs (push_head page s) q) = flags (pgs s q)
      \<and> refcount (pgs (push_head page s) q) = refcount (pgs s q)
      \<and> (q \<notin> set xs \<longrightarrow> pgs (push_head page s) q = pgs s q)"
  using assms by (cases xs; auto simp: push_head_def Let_def fl_chain_upd_other)+

lemma push_head_fields [simp]:
  "geom (push_head page s) = geom s" "ram (push_head page s) = ram s"
  "free_pages (push_head page s) = free_pages s + 1"
  by (simp_all add: push_head_def Let_def)

lemma push_head_spec:
  assumes "db_ok s" and "freelist_is s xs" and "page \<in> page_ptrs s" and "page \<notin> set xs"
  shows "freelist_is (push_head page s) (page # xs)"
    and "pgs (push_head page s) page = (pgs s page)\<lparr>flags := PAGE_FREE, u1_next := freelist s, u2 := 0\<rparr>"
    and "q \<noteq> page \<Longrightarrow> flags (pgs (push_head page s) q) = flags (pgs s q)
      \<and> refcount (pgs (push_head page s) q) = refcount (pgs s q)
      \<and> (q \<notin> set xs \<longrightarrow> pgs (push_head page s) q = pgs s q)"
proof -
  have page: "page \<noteq> 0" using page_ptrs_nonzero assms by blast
  have xs: "fl_chain (pgs s) 0 (freelist s) xs" "distinct xs" "set xs = free_set s"
    "unat (free_pages s) = length xs"
    using assms(2) by (simp_all add: freelist_is_def)
  note chain = push_head_chain [OF xs(1,2) page assms(4)]
  have "Suc (unat (free_pages s)) < 2 ^ 64" using freelist_length [OF assms(1,2)] xs(4) by simp
  then have len: "unat (free_pages s + 1) = Suc (length xs)"
    using xs(4) by (simp add: unat_word_ariths)
  have "free_set (push_head page s) = insert page (free_set s)"
    using free_set_change [OF push_head_fields(1), of page] chain assms(3) by (simp add: page_simps)
  then show "freelist_is (push_head page s) (page # xs)"
    using xs assms(4) len chain(1) by (simp add: freelist_is_def)
qed (use push_head_chain assms page_ptrs_nonzero in \<open>auto simp: freelist_is_def\<close>)

lemma pmm_pop_spec:
  assumes "pages_ok s" and "freelist_is s (x # xs)"
  shows "\<exists>s'. pmm_pop s = Some (x, s') \<and> freelist_is s' xs \<and> geom s' = geom s \<and> ram s' = ram s
    \<and> pgs s' x = \<lparr>u1_next = 0, u2 = 0, flags = PAGE_USED, refcount = 0\<rparr>
    \<and> (\<forall>q. q \<noteq> x \<longrightarrow> flags (pgs s' q) = flags (pgs s q) \<and> refcount (pgs s' q) = refcount (pgs s q)
         \<and> (q \<notin> set xs \<longrightarrow> pgs s' q = pgs s q))"
proof -
  have xs: "freelist s = x" "x \<noteq> 0" "u2 (pgs s x) = 0" "fl_chain (pgs s) x (u1_next (pgs s x)) xs"
    "distinct (x # xs)" "set (x # xs) = free_set s" "unat (free_pages s) = Suc (length xs)"
    using assms(2) by (auto simp: freelist_is_def)
  then have "x \<in> free_set s" by auto
  note idle = free_page_idle [OF assms(1) this]
  have len: "unat (free_pages s - 1) = length xs"
    using unat_Suc_pred [of "free_pages s"] xs(7) by fastforce
  have valid: "page_validate_free x s = Some ()"
    using idle xs by (simp add: page_validate_free_def page_simps)
  define s' where "s' = snd (the (pmm_pop s))"
  have s': "pmm_pop s = Some (x, s')"
    by (simp add: s'_def pmm_pop_def Let_def xs(1,2) valid)
  have g: "geom s' = geom s" "ram s' = ram s" "free_pages s' = free_pages s - 1"
      "freelist s' = u1_next (pgs s x)"
    by (simp_all add: s'_def pmm_pop_def Let_def xs(1,2) valid)
  have px: "pgs s' x = \<lparr>u1_next = 0, u2 = 0, flags = PAGE_USED, refcount = 0\<rparr>"
    using xs idle by (cases xs) (auto simp: s'_def pmm_pop_def Let_def valid free_to_used)
  have other: "flags (pgs s' q) = flags (pgs s q) \<and> refcount (pgs s' q) = refcount (pgs s q)
      \<and> (q \<notin> set xs \<longrightarrow> pgs s' q = pgs s q)" if "q \<noteq> x" for q
    using that xs by (cases xs) (auto simp: s'_def pmm_pop_def Let_def valid)
  have "fl_chain (pgs s') 0 (u1_next (pgs s x)) xs"
    using xs by (cases xs) (auto simp: s'_def pmm_pop_def Let_def valid fl_chain_upd_other)
  moreover have "free_set s' = free_set s - {x}"
    using free_set_change [OF g(1), of x] px other by (simp add: page_simps)
  ultimately have "freelist_is s' xs"
    using xs len g by (auto simp: freelist_is_def)
  then show ?thesis using s' g px other by blast
qed

section \<open>Operations keep the invariant\<close>

text \<open>\<open>only_page x s s'\<close>: between \<open>s\<close> and \<open>s'\<close> only the descriptor \<open>x\<close> and the
  links of free descriptors have changed.\<close>

definition only_page :: "u64 \<Rightarrow> kmem \<Rightarrow> kmem \<Rightarrow> bool" where
  "only_page x s s' \<longleftrightarrow> geom s' = geom s
     \<and> (\<forall>q. q \<noteq> x \<longrightarrow> flags (pgs s' q) = flags (pgs s q) \<and> refcount (pgs s' q) = refcount (pgs s q)
          \<and> (q \<notin> free_set s \<longrightarrow> pgs s' q = pgs s q))"

lemma only_page_upd: "only_page x s (upd_page x f s)"
  by (simp add: only_page_def)

lemma only_page_free_set:
  "only_page x s s' \<Longrightarrow> free_set s'
    = (if x \<in> page_ptrs s \<and> page_is_free (pgs s' x) then insert x (free_set s) else free_set s - {x})"
  by (rule free_set_change) (simp_all add: only_page_def)

lemma only_page_pages_ok:
  assumes "only_page x s s'" and "pages_ok s" and "used_page (pgs s' x) \<or> idle_page (pgs s' x)"
  shows "pages_ok s'"
proof -
  have "used_page (pgs s' q) \<or> idle_page (pgs s' q)" if "q \<in> page_ptrs s" "q \<noteq> x" for q
  proof (cases "q \<in> free_set s")
    case True
    then have "idle_page (pgs s' q)"
      using free_page_idle [OF assms(2) True] that assms(1) by (simp add: only_page_def idle_page_def)
    then show ?thesis ..
  next
    case False
    then have "pgs s' q = pgs s q" using assms(1) that(2) by (simp add: only_page_def)
    then show ?thesis using assms(2) that(1) by (simp add: pages_ok_def)
  qed
  moreover have "page_ptrs s' = page_ptrs s" "db_ok s' = db_ok s"
    using assms(1) geom_eqD unfolding only_page_def by blast+
  ultimately show ?thesis using assms(2,3) by (auto simp: pages_ok_def)
qed

lemma upd_used_page:
  assumes "pages_ok s" and "freelist_is s xs" and "q \<in> page_ptrs s"
    and "used_page (pgs s q)" and "used_page (f (pgs s q))"
  shows "pages_ok (upd_page q f s)" "freelist_is (upd_page q f s) xs" "free_set (upd_page q f s) = free_set s"
proof -
  have q: "q \<notin> free_set s" using assms(4) by (auto simp: free_set_def used_page_def)
  show fs: "free_set (upd_page q f s) = free_set s"
    using only_page_free_set [OF only_page_upd [where x = q and s = s and f = f]] q assms(5) by (simp add: used_page_def)
  show "pages_ok (upd_page q f s)"
    using only_page_pages_ok [OF only_page_upd [where x = q and f = f] assms(1)] assms(5) by simp
  have "q \<notin> set xs" using q assms(2) by (simp add: freelist_is_def)
  then show "freelist_is (upd_page q f s) xs"
    using assms(2) fs by (simp add: freelist_is_def fl_chain_upd_other)
qed

lemma used_page_valid: "used_page (pgs s q) \<Longrightarrow> q \<noteq> 0 \<Longrightarrow> page_validate_used q s = Some ()"
  by (simp add: page_validate_used_def used_page_def Let_def)

lemma not_used_invalid:
  "pages_ok s \<Longrightarrow> q \<in> page_ptrs s \<Longrightarrow> \<not> used_page (pgs s q) \<Longrightarrow> page_validate_used q s = None"
  by (auto simp: page_validate_used_def idle_page_def pages_ok_def Let_def page_simps)

lemma palloc_page_step:
  assumes "pages_ok s" and "freelist_is s (x # xs)"
  shows "\<exists>s'. palloc_page s = Some (x, s') \<and> only_page x s s' \<and> ram s' = ram s \<and> pages_ok s'
    \<and> freelist_is s' xs \<and> pgs s' x = \<lparr>u1_next = 0, u2 = 0, flags = PAGE_USED, refcount = 1\<rparr>"
proof -
  obtain r where r: "pmm_pop s = Some (x, r)" "freelist_is r xs" "geom r = geom s" "ram r = ram s"
    "pgs r x = \<lparr>u1_next = 0, u2 = 0, flags = PAGE_USED, refcount = 0\<rparr>"
    "\<And>q. q \<noteq> x \<Longrightarrow> flags (pgs r q) = flags (pgs s q) \<and> refcount (pgs r q) = refcount (pgs s q)
         \<and> (q \<notin> set xs \<longrightarrow> pgs r q = pgs s q)"
    using pmm_pop_spec [OF assms] by auto
  define s' where "s' = upd_page x (\<lambda>p. p\<lparr>refcount := 1\<rparr>) r"
  have xs: "x \<noteq> 0" "x \<notin> set xs" "set xs \<subseteq> free_set s" "x \<in> free_set s"
    using assms(2) by (auto simp: freelist_is_def)
  have px: "pgs s' x = \<lparr>u1_next = 0, u2 = 0, flags = PAGE_USED, refcount = 1\<rparr>"
    by (simp add: s'_def r(5))
  have only: "only_page x s s'" using r(3,6) xs(3) by (auto simp: s'_def only_page_def)
  have "free_set s' = free_set r"
    using only_page_free_set [OF only] px xs assms(2) r(2)
    by (simp add: page_simps) (auto simp: freelist_is_def)
  then have "freelist_is s' xs"
    using r(2) xs(2) by (simp add: s'_def freelist_is_def fl_chain_upd_other)
  moreover have "pages_ok s'"
    using only_page_pages_ok [OF only assms(1)] px by (simp add: used_page_def page_simps)
  moreover have "palloc_page s = Some (x, s')" using r(1) xs(1) by (simp add: palloc_page_def s'_def)
  ultimately show ?thesis using only px r(4) by (auto simp: s'_def)
qed

lemma palloc_page_exhausted:
  assumes "freelist_is s []"
  shows "palloc_page s = None"
  using assms by (simp add: freelist_is_def palloc_page_def pmm_pop_def)

lemma palloc_single_page:
  "palloc_single s = map_option (\<lambda>(page, s'). (pfndb_page_to_phys s' page, s')) (palloc_page s)"
  by (cases "pmm_pop s") (auto simp: palloc_single_def palloc_page_def Let_def)

text \<open>The three outcomes of \<open>page_unref\<close> on a page in use.\<close>

lemma page_unref_keep:
  assumes "used_page (pgs s q)" and "q \<noteq> 0" and "refcount (pgs s q) \<noteq> 1"
  shows "page_unref q s = Some (upd_page q (\<lambda>p. p\<lparr>refcount := refcount p - 1\<rparr>) s)"
  using assms by (simp add: page_unref_def used_page_valid used_page_def Let_def)

lemma page_unref_busy:
  assumes "used_page (pgs s q)" and "q \<noteq> 0" and "refcount (pgs s q) = 1" and "u2 (pgs s q) \<noteq> 0"
  shows "page_unref q s = None"
  using assms by (simp add: page_unref_def used_page_valid used_page_def Let_def)

lemma page_unref_last:
  assumes "pages_ok s" and "freelist_is s xs" and "q \<in> page_ptrs s" and "used_page (pgs s q)"
    and "refcount (pgs s q) = 1" and "u2 (pgs s q) = 0"
  shows "\<exists>s'. page_unref q s = Some s' \<and> only_page q s s' \<and> pages_ok s' \<and> freelist_is s' (q # xs)
    \<and> ram s' = filled (ram s) (pfndb_page_to_phys s q) 0 4096"
proof -
  define r where "r = (upd_page q (\<lambda>p. p\<lparr>refcount := 0\<rparr>) s)
    \<lparr>ram := memset (ram s) (pfndb_page_to_phys s q) 0 PAGE_SIZE\<rparr>"
  define s' where "s' = push_head q r"
  have q0: "q \<noteq> 0" using page_ptrs_nonzero assms by (auto simp: pages_ok_def)
  have qxs: "q \<notin> set xs" "q \<notin> free_set s"
    using assms(2,4) by (auto simp: freelist_is_def free_set_def used_page_def)
  have g: "geom r = geom s" "db_ok r" "page_ptrs r = page_ptrs s"
    using assms(1) by (simp_all add: r_def pages_ok_def)
  have "free_set r = free_set s"
    using free_set_change [OF g(1), of q] qxs(2) assms(4) by (simp add: r_def used_page_def page_simps)
  then have "freelist_is r xs"
    using assms(2) qxs(1) by (simp add: r_def freelist_is_def fl_chain_upd_other)
  note push = push_head_spec [OF g(2) this _ qxs(1), unfolded g(3), OF assms(3), folded s'_def]
  have "set xs = free_set s" using assms(2) by (simp add: freelist_is_def)
  then have only: "only_page q s s'"
    using push(3) g(1) by (auto simp: only_page_def r_def s'_def split: if_splits)
  have "idle_page (pgs s' q)" using push(2) by (simp add: idle_page_def r_def)
  then have "pages_ok s'" using only_page_pages_ok [OF only assms(1)] by simp
  moreover have "page_unref q s = Some s'"
  proof -
    let ?s1 = "upd_page q (\<lambda>p. p\<lparr>refcount := refcount p - 1\<rparr>) s"
    have s1: "?s1 = upd_page q (\<lambda>p. p\<lparr>refcount := 0\<rparr>) s" using assms(5) by (simp add: upd_page_def)
    have "geom ?s1 = geom s" by simp
    then have "pmm_push q ?s1 = Some s'"
      using assms(4,5,6) q0 geom_eqD(4) [of ?s1 s] unfolding s1
      by (simp add: pmm_push_def push_asserts_def s'_def r_def used_page_def page_simps)
    then show ?thesis using assms q0 by (simp add: page_unref_def used_page_valid used_page_def Let_def)
  qed
  ultimately show ?thesis
    using only push(1) by (auto simp: s'_def r_def memset_filled)
qed

section \<open>Counts\<close>

lemma used_page_updates:
  "used_page p \<Longrightarrow> refcount p + 1 \<noteq> 0 \<Longrightarrow> used_page (p\<lparr>refcount := refcount p + 1\<rparr>)"
  "used_page p \<Longrightarrow> refcount p \<noteq> 1 \<Longrightarrow> used_page (p\<lparr>refcount := refcount p - 1\<rparr>)"
  "used_page p \<Longrightarrow> used_page (p\<lparr>flags := flags p OR PAGE_COW\<rparr>)"
  "used_page p \<Longrightarrow> used_page (p\<lparr>flags := flags p AND flag_not PAGE_COW\<rparr>)"
  by (simp_all add: used_page_def page_simps bit_and_iff bit_or_iff)

definition share_page :: "page \<Rightarrow> page" where
  "share_page p = (let q = p\<lparr>u2 := u2 p + 1\<rparr> in if u2 q > 1 then q\<lparr>flags := flags q OR PAGE_SHARED\<rparr> else q)"

definition unshare_page :: "page \<Rightarrow> page" where
  "unshare_page p =
     (if u2 p = 0 then p
      else let q = p\<lparr>u2 := u2 p - 1\<rparr> in if u2 q \<le> 1 then q\<lparr>flags := flags q AND flag_not PAGE_SHARED\<rparr> else q)"

lemma share_step:
  assumes "used_page p" and "u2 p + 1 \<noteq> 0"
  shows "used_page (share_page p)"
proof -
  have "u2 p > 1 \<Longrightarrow> u2 p + 1 > 1"
    using unat_add1 [OF assms(2)] by (simp add: word_less_nat_alt)
  then show ?thesis using assms
    by (auto simp: used_page_def share_page_def Let_def page_simps bit_or_iff)
qed

lemma unshare_step:
  assumes "used_page p"
  shows "used_page (unshare_page p)"
proof -
  have "u2 p - 1 > 1 \<Longrightarrow> u2 p > 1" if "u2 p \<noteq> 0"
    using unat_Suc_pred [OF that] by (simp add: word_less_nat_alt)
  then show ?thesis using assms
    by (auto simp: used_page_def unshare_page_def Let_def page_simps bit_and_iff not_le)
qed

lemma page_share_eq:
  "page_share q s = (if page_validate_used q s = None then None else Some (upd_page q share_page s))"
  by (cases "page_validate_used q s") (auto simp: page_share_def share_page_def Let_def upd_page_def)

lemma page_unshare_eq:
  "page_unshare q s = (if page_validate_used q s = None then None else Some (upd_page q unshare_page s))"
  by (cases "page_validate_used q s") (auto simp: page_unshare_def unshare_page_def Let_def upd_page_def)

section \<open>Every operation, one after the other\<close>

text \<open>The operations as steps.  A page argument is a descriptor of the database; the reference
  count of a page is incremented only while it fits its 32 bits, the share count only while it
  fits its 64.\<close>

inductive pmm_step :: "kmem \<Rightarrow> kmem \<Rightarrow> bool" where
  alloc: "palloc_page s = Some (p, s') \<Longrightarrow> pmm_step s s'"
| alloc_phys: "palloc_single s = Some (a, s') \<Longrightarrow> pmm_step s s'"
| ref: "p \<in> page_ptrs s \<Longrightarrow> refcount (pgs s p) + 1 \<noteq> 0 \<Longrightarrow> page_ref p s = Some s' \<Longrightarrow> pmm_step s s'"
| unref: "p \<in> page_ptrs s \<Longrightarrow> page_unref p s = Some s' \<Longrightarrow> pmm_step s s'"
| share: "p \<in> page_ptrs s \<Longrightarrow> u2 (pgs s p) + 1 \<noteq> 0 \<Longrightarrow> page_share p s = Some s' \<Longrightarrow> pmm_step s s'"
| unshare: "p \<in> page_ptrs s \<Longrightarrow> page_unshare p s = Some s' \<Longrightarrow> pmm_step s s'"
| mark_cow: "p \<in> page_ptrs s \<Longrightarrow> page_mark_cow p s = Some s' \<Longrightarrow> pmm_step s s'"
| clear_cow: "p \<in> page_ptrs s \<Longrightarrow> page_clear_cow p s = Some s' \<Longrightarrow> pmm_step s s'"

lemma palloc_page_inv:
  assumes "pmm_inv s" and "palloc_page s = Some (p, s')"
  shows "pmm_inv s' \<and> only_page p s s' \<and> p \<in> free_set s \<and> free_set s' = free_set s - {p} \<and> ram s' = ram s
    \<and> pgs s' p = \<lparr>u1_next = 0, u2 = 0, flags = PAGE_USED, refcount = 1\<rparr>"
proof -
  obtain xs where xs: "pages_ok s" "freelist_is s xs" using assms(1) by (auto simp: pmm_inv_def)
  show ?thesis
  proof (cases xs)
    case Nil
    then show ?thesis using palloc_page_exhausted xs(2) assms(2) by simp
  next
    case (Cons x ys)
    note step = palloc_page_step [OF xs(1) xs(2) [unfolded Cons]]
    have only: "only_page p s s'" and px: "pgs s' p = \<lparr>u1_next = 0, u2 = 0, flags = PAGE_USED, refcount = 1\<rparr>"
      using step assms(2) by auto
    have "free_set s' = free_set s - {p}" using only_page_free_set [OF only] px by (simp add: page_simps)
    moreover have "p \<in> free_set s" using xs(2) Cons step assms(2) by (auto simp: freelist_is_def)
    ultimately show ?thesis using step assms(2) only px unfolding pmm_inv_def by auto
  qed
qed

lemma upd_used_inv:
  assumes "pmm_inv s" and "q \<in> page_ptrs s" and "used_page (pgs s q)" and "used_page (f (pgs s q))"
  shows "pmm_inv (upd_page q f s)"
  using assms upd_used_page unfolding pmm_inv_def by blast

lemma validated_used:
  "pmm_inv s \<Longrightarrow> q \<in> page_ptrs s \<Longrightarrow> page_validate_used q s \<noteq> None \<Longrightarrow> used_page (pgs s q) \<and> q \<noteq> 0"
  using not_used_invalid [of s q] page_ptrs_nonzero [of s q] by (auto simp: pmm_inv_def pages_ok_def)

lemma page_unref_inv:
  assumes "pmm_inv s" and "q \<in> page_ptrs s" and "page_unref q s = Some s'"
  shows "pmm_inv s'"
proof -
  have q0: "q \<noteq> 0" using assms page_ptrs_nonzero by (auto simp: pmm_inv_def pages_ok_def)
  then have "page_validate_used q s \<noteq> None"
    using assms(3) by (auto simp: page_unref_def bind_eq_Some_conv split: if_splits)
  then have used: "used_page (pgs s q)" using validated_used [OF assms(1,2)] by simp
  obtain xs where xs: "pages_ok s" "freelist_is s xs" using assms(1) by (auto simp: pmm_inv_def)
  consider "refcount (pgs s q) \<noteq> 1" | "refcount (pgs s q) = 1" "u2 (pgs s q) = 0"
    using page_unref_busy [OF used q0] assms(3) by fastforce
  then show ?thesis
  proof cases
    case 1
    then show ?thesis
      using page_unref_keep [OF used q0] assms(3) upd_used_inv [OF assms(1,2) used] used_page_updates(2) [OF used]
      by auto
  next
    case 2
    then show ?thesis
      using page_unref_last [OF xs assms(2) used] assms(3) by (auto simp: pmm_inv_def)
  qed
qed

lemma pmm_step_inv: "pmm_step s s' \<Longrightarrow> pmm_inv s \<Longrightarrow> pmm_inv s'"
proof (induction rule: pmm_step.induct)
  case (alloc s p s')
  then show ?case using palloc_page_inv by blast
next
  case (alloc_phys s a s')
  then show ?case using palloc_page_inv by (auto simp: palloc_single_page)
next
  case (ref p s s')
  then have "page_validate_used p s \<noteq> None" by (auto simp: page_ref_def bind_eq_Some_conv)
  then show ?case using ref validated_used [of s p]
    by (auto simp: page_ref_def bind_eq_Some_conv intro!: upd_used_inv used_page_updates)
next
  case (unref p s s')
  then show ?case using page_unref_inv by blast
next
  case (share p s s')
  then show ?case using validated_used [of s p]
    by (auto simp: page_share_eq intro!: upd_used_inv share_step split: if_splits)
next
  case (unshare p s s')
  then show ?case using validated_used [of s p]
    by (auto simp: page_unshare_eq intro!: upd_used_inv unshare_step split: if_splits)
next
  case (mark_cow p s s')
  then have "page_validate_used p s \<noteq> None \<or> s' = s" by (auto simp: page_mark_cow_def bind_eq_Some_conv split: if_splits)
  then show ?case using mark_cow validated_used [of s p]
    by (auto simp: page_mark_cow_def bind_eq_Some_conv intro!: upd_used_inv used_page_updates split: if_splits)
next
  case (clear_cow p s s')
  then have "page_validate_used p s \<noteq> None \<or> s' = s" by (auto simp: page_clear_cow_def bind_eq_Some_conv split: if_splits)
  then show ?case using clear_cow validated_used [of s p]
    by (auto simp: page_clear_cow_def bind_eq_Some_conv intro!: upd_used_inv used_page_updates split: if_splits)
qed

section \<open>Initialisation\<close>

text \<open>What the loop has done when the frames from \<open>i\<close> on are behind it; \<open>F\<close> is the set of
  frames the database lists as free.\<close>

definition free_from :: "kmem \<Rightarrow> nat set \<Rightarrow> nat \<Rightarrow> u64 list" where
  "free_from s F i = map (page_at s) (filter (\<lambda>j. j \<in> F) [i..<Suc (unat (max_pfn s))])"

definition init_done :: "kmem \<Rightarrow> nat set \<Rightarrow> nat \<Rightarrow> kmem \<Rightarrow> bool" where
  "init_done s F i r \<longleftrightarrow> geom r = geom s \<and> ram r = ram s \<and> db_flags r F
     \<and> fl_chain (pgs r) 0 (freelist r) (free_from s F i) \<and> unat (free_pages r) = length (free_from s F i)"

lemma free_from_Suc:
  "i \<le> unat (max_pfn s) \<Longrightarrow>
   free_from s F i = (if i \<in> F then page_at s i # free_from s F (Suc i) else free_from s F (Suc i))"
  by (simp add: free_from_def upt_conv_Cons del: upt_Suc)

lemma free_from_distinct:
  assumes "db_ok s"
  shows "distinct (free_from s F i)" and "length (free_from s F i) \<le> 2 ^ 52"
    and "k \<le> unat (max_pfn s) \<Longrightarrow> page_at s k \<in> set (free_from s F i) \<longleftrightarrow> i \<le> k \<and> k \<in> F"
proof -
  show "distinct (free_from s F i)"
    using assms by (auto simp: free_from_def distinct_map inj_on_def page_at_eq_iff simp del: upt_Suc)
  have "length (free_from s F i) \<le> Suc (unat (max_pfn s))"
    using length_filter_le [of "\<lambda>j. j \<in> F" "[i..<Suc (unat (max_pfn s))]"]
    by (simp add: free_from_def del: upt_Suc)
  also have "\<dots> \<le> 2 ^ 52" using assms by (simp add: db_ok_def)
  finally show "length (free_from s F i) \<le> 2 ^ 52" .
  show "k \<le> unat (max_pfn s) \<Longrightarrow> page_at s k \<in> set (free_from s F i) \<longleftrightarrow> i \<le> k \<and> k \<in> F"
    using assms by (auto simp: free_from_def page_at_eq_iff simp del: upt_Suc)
qed

lemma pmm_init_page_step:
  assumes "db_ok s" and "init_done s F (Suc i) r" and "i \<le> unat (max_pfn s)"
  shows "\<exists>r'. pmm_init_page i r = Some r' \<and> init_done s F i r'"
proof -
  let ?p = "page_at s i" and ?xs = "free_from s F (Suc i)"
  have r: "geom r = geom s" "db_flags r F" "fl_chain (pgs r) 0 (freelist r) ?xs"
      "unat (free_pages r) = length ?xs" "ram r = ram s"
    using assms(2) by (simp_all add: init_done_def)
  note g = geom_eqD [OF r(1)]
  have ptr: "pfndb_getptr r (of_nat i) = ?p" using pfndb_getptr_at [of i r] assms(3) g by simp
  have fl: "flags (pgs r ?p) = (if i \<in> F then PAGE_FREE else PAGE_RESERVED)"
    using r(2) assms(3) g by (simp add: db_flags_def)
  show ?thesis
  proof (cases "i \<in> F")
    case False
    then show ?thesis
      using assms(2,3) fl ptr by (simp add: pmm_init_page_def init_done_def free_from_Suc page_simps)
  next
    case True
    define q where "q = upd_page ?p (\<lambda>p. p\<lparr>refcount := 0, u1_next := 0, u2 := 0, flags := 0\<rparr>) r"
    have nin: "?p \<notin> set ?xs" using free_from_distinct(3) [OF assms(1,3)] by simp
    have p0: "?p \<noteq> 0" using page_at_nonzero assms(1,3) by blast
    have "fl_chain (pgs q) 0 (freelist q) ?xs" using r(3) nin by (simp add: q_def fl_chain_upd_other)
    note push = push_head_chain [OF this free_from_distinct(1) [OF assms(1)] p0 nin]
    have "pmm_init_page i r = Some (push_head ?p q)"
      using True fl ptr p0
      by (simp add: pmm_init_page_def pmm_push_noscrub_def push_asserts_def page_simps q_def
          upd_page_def free_cleared Let_def)
    moreover have "unat (free_pages q + 1) = Suc (length ?xs)"
      using r(4) free_from_distinct(2) [OF assms(1), of F "Suc i"]
      by (simp add: q_def unat_word_ariths)
    moreover have "db_flags (push_head ?p q) F"
    proof -
      have "flags (pgs (push_head ?p q) (page_at s k)) = (if k \<in> F then PAGE_FREE else PAGE_RESERVED)
          \<and> refcount (pgs (push_head ?p q) (page_at s k)) = 0" if "k \<le> unat (max_pfn s)" for k
      proof (cases "k = i")
        case True
        then show ?thesis using push(2) \<open>i \<in> F\<close> by (simp add: q_def)
      next
        case False
        then have "page_at s k \<noteq> ?p" using page_at_eq_iff [OF assms(1) that assms(3)] by simp
        moreover have "flags (pgs r (page_at s k)) = (if k \<in> F then PAGE_FREE else PAGE_RESERVED)
            \<and> refcount (pgs r (page_at s k)) = 0"
          using r(2) that g(1,7) by (simp add: db_flags_def)
        ultimately show ?thesis using push(3) [of "page_at s k"] by (simp add: q_def)
      qed
      moreover have "geom (push_head ?p q) = geom s" using r(1) by (simp add: q_def)
      ultimately show ?thesis using geom_eqD(1,7) [of "push_head ?p q" s] by (simp add: db_flags_def)
    qed
    ultimately show ?thesis
      using push(1) r(1,5) True assms(3) by (simp add: init_done_def free_from_Suc q_def)
  qed
qed

lemma pmm_init_loop_done:
  "db_ok s \<Longrightarrow> init_done s F i r \<Longrightarrow> i \<le> Suc (unat (max_pfn s)) \<Longrightarrow>
   \<exists>r'. pmm_init_loop i r = Some r' \<and> init_done s F 0 r'"
proof (induction i arbitrary: r)
  case (Suc i)
  then obtain r' where "pmm_init_page i r = Some r'" "init_done s F i r'"
    using pmm_init_page_step [of s F i r] by auto
  then show ?case using Suc.IH [of r'] Suc.prems by simp
qed simp

lemma pmm_init_loop_geometry:
  "pmm_init_loop i r = Some r' \<Longrightarrow> geom r' = geom r"
proof (induction i arbitrary: r)
  case (Suc i)
  then obtain r1 where r1: "pmm_init_page i r = Some r1" "pmm_init_loop i r1 = Some r'"
    by (auto simp: bind_eq_Some_conv)
  have "geom r1 = geom r"
    using r1(1) by (auto simp: pmm_init_page_def pmm_push_noscrub_def push_asserts_def Let_def split: if_splits)
  then show ?case using Suc.IH [OF r1(2)] by simp
qed simp

lemma pmm_init_geometry:
  "pmm_init s = Some s' \<Longrightarrow> mem_map s' = mem_map s \<and> max_pfn s' = max_pfn s
    \<and> kernel_ptable s' = kernel_ptable s \<and> mmio_regions s' = mmio_regions s"
  by (auto simp: pmm_init_def geom_def Let_def simp del: pmm_init_loop.simps dest!: pmm_init_loop_geometry
      split: if_splits)

lemma pmm_init_inv:
  assumes "db_ok s" and "db_flags s F"
  shows "\<exists>s'. pmm_init s = Some s' \<and> pages_ok s' \<and> freelist_is s' (free_from s F 0)
    \<and> total_pages s' = max_pfn s + 1 \<and> db_flags s' F"
proof -
  define r where "r = s\<lparr>freelist := 0, free_pages := 0, total_pages := max_pfn s + 1\<rparr>"
  have r: "db_ok r" "db_flags r F" "max_pfn r = max_pfn s" "page_at r = page_at s"
    using assms by (simp_all add: r_def db_ok_def db_flags_def page_at_def fun_eq_iff)
  have "init_done r F (Suc (unat (max_pfn r))) r"
    using r by (simp add: init_done_def free_from_def) (simp add: r_def)
  then obtain s' where s': "pmm_init_loop (Suc (unat (max_pfn r))) r = Some s'" "init_done r F 0 s'"
    using pmm_init_loop_done [OF r(1)] by blast
  have g: "geom s' = geom r" using s'(2) by (simp add: init_done_def)
  have ff: "free_from r F 0 = free_from s F 0" using r by (simp add: free_from_def)
  have fl: "\<forall>i \<le> unat (max_pfn r). flags (pgs s' (page_at r i)) = (if i \<in> F then PAGE_FREE else PAGE_RESERVED)
      \<and> refcount (pgs s' (page_at r i)) = 0"
    using s'(2) geom_eqD [OF g] by (simp add: init_done_def db_flags_def)
  then have ok: "pages_ok s'"
    using r(1) geom_eqD [OF g] by (auto simp: pages_ok_def idle_page_def page_ptrs_def)
  have free: "free_set s' = set (free_from r F 0)"
    using fl geom_eqD(2) [OF g]
    by (auto simp: free_set_def page_ptrs_def free_from_def page_simps less_Suc_eq_le simp del: upt_Suc
        split: if_splits)
  have "freelist_is s' (free_from r F 0)"
    using s'(2) free free_from_distinct(1) [OF r(1)] by (simp add: freelist_is_def init_done_def)
  moreover have "pmm_init s = Some s'"
    using s'(1) assms(1) r(3) by (simp add: pmm_init_def pfndb_getdb_def pfndb_getmax_def r_def db_ok_def Let_def)
  moreover have "total_pages s' = max_pfn s + 1" using g by (simp add: geom_def r_def)
  moreover have "db_flags s' F" using s'(2) by (simp add: init_done_def)
  ultimately show ?thesis using ok ff by auto
qed

section \<open>The interface of the allocator\<close>

text \<open>What the users of the allocator rely on: a pool of available units, handed out one at a time
  with one reference, and a release that puts a unit back when its only reference goes.\<close>

locale frame_allocator =
  fixes inv :: "'s \<Rightarrow> bool"
    and alloc :: "'s \<Rightarrow> ('p \<times> 's) option"
    and release :: "'p \<Rightarrow> 's \<Rightarrow> 's option"
    and avail :: "'s \<Rightarrow> 'p set"
    and refs :: "'s \<Rightarrow> 'p \<Rightarrow> nat"
  assumes finite_avail: "inv s \<Longrightarrow> finite (avail s)"
    and alloc_none: "inv s \<Longrightarrow> avail s = {} \<Longrightarrow> alloc s = None"
    and alloc_some: "inv s \<Longrightarrow> avail s \<noteq> {} \<Longrightarrow> \<exists>p s'. alloc s = Some (p, s') \<and> inv s' \<and> p \<in> avail s
          \<and> avail s' = avail s - {p} \<and> refs s' = (refs s)(p := 1)"
    and release_last: "inv s \<Longrightarrow> refs s p = 1 \<Longrightarrow> release p s = Some s' \<Longrightarrow>
          inv s' \<and> avail s' = insert p (avail s) \<and> refs s' = (refs s)(p := 0)"

primrec alloc_n :: "('s \<Rightarrow> ('p \<times> 's) option) \<Rightarrow> nat \<Rightarrow> 's \<Rightarrow> ('p list \<times> 's) option" where
  "alloc_n alloc 0 s = Some ([], s)"
| "alloc_n alloc (Suc n) s = do {
     (p, s1) \<leftarrow> alloc s;
     (ps, s2) \<leftarrow> alloc_n alloc n s1;
     Some (p # ps, s2) }"

context frame_allocator begin

lemma alloc_n_enough:
  "inv s \<Longrightarrow> n \<le> card (avail s) \<Longrightarrow>
   \<exists>ps s'. alloc_n alloc n s = Some (ps, s') \<and> inv s' \<and> length ps = n \<and> distinct ps \<and> set ps \<subseteq> avail s
     \<and> avail s' = avail s - set ps \<and> refs s' = (\<lambda>p. if p \<in> set ps then 1 else refs s p)"
proof (induction n arbitrary: s)
  case (Suc n)
  then have "avail s \<noteq> {}" by auto
  then obtain p s1 where p: "alloc s = Some (p, s1)" "inv s1" "p \<in> avail s" "avail s1 = avail s - {p}"
    "refs s1 = (refs s)(p := 1)"
    using alloc_some Suc.prems(1) by blast
  have "n \<le> card (avail s1)" using p Suc.prems finite_avail by simp
  then obtain ps s2 where "alloc_n alloc n s1 = Some (ps, s2)" "inv s2" "length ps = n" "distinct ps"
    "set ps \<subseteq> avail s1" "avail s2 = avail s1 - set ps" "refs s2 = (\<lambda>q. if q \<in> set ps then 1 else refs s1 q)"
    using Suc.IH [OF p(2)] by blast
  then show ?case using p by (auto simp: fun_eq_iff)
qed simp

lemma alloc_n_short: "inv s \<Longrightarrow> card (avail s) < n \<Longrightarrow> alloc_n alloc n s = None"
proof (induction n arbitrary: s)
  case (Suc n)
  show ?case
  proof (cases "avail s = {}")
    case True
    then show ?thesis using alloc_none Suc.prems by simp
  next
    case False
    then obtain p s1 where p: "alloc s = Some (p, s1)" "inv s1" "p \<in> avail s" "avail s1 = avail s - {p}"
      using alloc_some Suc.prems(1) by blast
    have "Suc (card (avail s1)) = card (avail s)"
      using card_Suc_Diff1 [OF finite_avail [OF Suc.prems(1)] p(3)] p(4) by simp
    then have "card (avail s1) < n" using Suc.prems(2) by simp
    then show ?thesis using Suc.IH p by simp
  qed
qed simp

lemma alloc_release:
  assumes "inv s" and "alloc s = Some (p, s1)" and "release p s1 = Some s2"
  shows "inv s2 \<and> avail s2 = avail s"
proof -
  have "avail s \<noteq> {}" using alloc_none assms by fastforce
  then have "inv s1" "p \<in> avail s" "avail s1 = avail s - {p}" "refs s1 p = 1"
    using alloc_some [OF assms(1)] assms(2) by auto
  then show ?thesis using release_last [OF _ _ assms(3)] by auto
qed

end

definition page_refs :: "kmem \<Rightarrow> u64 \<Rightarrow> nat" where
  "page_refs s p = (if p \<in> page_ptrs s then unat (refcount (pgs s p)) else 0)"

lemma freelist_nonempty: "pmm_inv s \<Longrightarrow> free_set s = {} \<longleftrightarrow> freelist_is s []"
  by (auto simp: pmm_inv_def freelist_is_def)

lemma only_page_refs:
  assumes "only_page p s s'" and "p \<in> page_ptrs s"
  shows "page_refs s' = (page_refs s)(p := unat (refcount (pgs s' p)))"
  using assms geom_eqD(2) [of s' s] by (auto simp: only_page_def page_refs_def fun_eq_iff)

lemma palloc_page_some:
  assumes "pmm_inv s" and "free_set s \<noteq> {}"
  shows "\<exists>p s'. palloc_page s = Some (p, s') \<and> p = freelist s"
proof -
  obtain xs where xs: "pages_ok s" "freelist_is s xs" using assms(1) by (auto simp: pmm_inv_def)
  then obtain y ys where ys: "xs = y # ys" using assms(2) by (cases xs) (auto simp: freelist_is_def)
  then have "freelist s = y" using xs(2) by (simp add: freelist_is_def)
  then show ?thesis using palloc_page_step [OF xs(1) xs(2) [unfolded ys]] by auto
qed

interpretation pmm: frame_allocator pmm_inv palloc_page page_unref free_set page_refs
proof unfold_locales
  fix s :: kmem and p :: u64 and s' :: kmem
  show "finite (free_set s)" using free_set_sub finite_page_ptrs finite_subset by blast
  show "palloc_page s = None" if "pmm_inv s" "free_set s = {}"
    using that freelist_nonempty palloc_page_exhausted by blast
  show "\<exists>p s'. palloc_page s = Some (p, s') \<and> pmm_inv s' \<and> p \<in> free_set s
      \<and> free_set s' = free_set s - {p} \<and> page_refs s' = (page_refs s)(p := 1)"
    if i: "pmm_inv s" and ne: "free_set s \<noteq> {}"
  proof -
    obtain p s' where p: "palloc_page s = Some (p, s')" using palloc_page_some [OF i ne] by blast
    note inv = palloc_page_inv [OF i p]
    then have "p \<in> page_ptrs s" using free_set_sub by blast
    then show ?thesis using p inv only_page_refs [of p s s'] by auto
  qed
  show "pmm_inv s' \<and> free_set s' = insert p (free_set s) \<and> page_refs s' = (page_refs s)(p := 0)"
    if i: "pmm_inv s" and "page_refs s p = 1" "page_unref p s = Some s'"
  proof -
    obtain xs where xs: "pages_ok s" "freelist_is s xs" using i by (auto simp: pmm_inv_def)
    have p: "p \<in> page_ptrs s" "refcount (pgs s p) = 1"
      using that(2) by (auto simp: page_refs_def word_unat_eq_iff split: if_splits)
    have p0: "p \<noteq> 0" using p(1) xs(1) page_ptrs_nonzero by (auto simp: pages_ok_def)
    have used: "used_page (pgs s p)" using p xs(1) by (auto simp: pages_ok_def idle_page_def)
    have "u2 (pgs s p) = 0" using page_unref_busy [OF used p0 p(2)] that(3) by fastforce
    note last = page_unref_last [OF xs p(1) used p(2) this]
    then have only: "only_page p s s'" and fl: "freelist_is s' (p # xs)" and ok: "pages_ok s'"
      using that(3) by auto
    then have "free_set s' = insert p (free_set s)" using xs(2) by (auto simp: freelist_is_def)
    moreover have "refcount (pgs s' p) = 0" using free_page_idle(2) [OF ok, of p] calculation by simp
    ultimately show ?thesis
      using only_page_refs [OF only p(1)] ok fl by (auto simp: pmm_inv_def)
  qed
qed

section \<open>Properties of the allocator\<close>

text \<open>The machine of \<open>small_map\<close> after both initialisations: frames 2 to 8 are free.\<close>

definition booted :: kmem where
  "booted = the (pmm_init (snd (the (pfndb_init small_map boot_mem))))"

lemma pfndb_init_db_flags:
  assumes "pfndb_init memmap s = Some (memmap', s1)" and "db_ok s1"
  shows "db_flags s1 {i. page_is_free (pgs s1 (page_at s1 i))}"
  using pfndb_init_flags [OF assms] by (auto simp: db_flags_def page_simps)

lemma booted_state:
  "\<exists>s1 memmap'. pfndb_init small_map boot_mem = Some (memmap', s1) \<and> db_ok s1
    \<and> pmm_init s1 = Some booted"
  "pmm_inv booted" "freelist_is booted (map (page_at booted) [2..<9])" "mem_map booted = 69632" "max_pfn booted = 9"
  "db_flags booted {2..<9}" "kernel_ptable booted = 0" "mmio_regions booted = []"
proof -
  let ?e = "\<lparr>me_base = 8192, me_length = 28672, me_usable = True\<rparr> :: memmap_entry"
  obtain s1 where s1: "pfndb_init small_map boot_mem = Some ([?e], s1)" "db_ok s1" "mem_map s1 = 69632" "max_pfn s1 = 9"
      "kernel_ptable s1 = 0" "mmio_regions s1 = []"
    using pfndb_init_small by auto
  have F: "\<Union> (entry_frames ` set [?e]) - {0} = {2..<9}" by (auto simp: entry_frames_def)
  have "db_flags s1 {2..<9}" using pfndb_init_flags [OF s1(1,2)] F by simp
  from pmm_init_inv [OF s1(2) this] obtain s' where s': "pmm_init s1 = Some s'" "pages_ok s'"
    "freelist_is s' (free_from s1 {2..<9} 0)" "db_flags s' {2..<9}" by auto
  have b: "booted = s'" using s1(1) s'(1) by (simp add: booted_def)
  have "filter (\<lambda>j. j \<in> {2..<9}) [0..<10] = [2..<9]" by (simp add: numeral_eq_Suc)
  then have fl: "free_from s1 {2..<9} 0 = map (page_at s1) [2..<9]"
    using s1(4) by (simp add: free_from_def del: upt_Suc)
  show "\<exists>s1 memmap'. pfndb_init small_map boot_mem = Some (memmap', s1) \<and> db_ok s1
    \<and> pmm_init s1 = Some booted"
    using s1 s' b by blast
  show "pmm_inv booted" using s' b by (auto simp: pmm_inv_def)
  have geo: "mem_map s' = mem_map s1 \<and> max_pfn s' = max_pfn s1 \<and> kernel_ptable s' = kernel_ptable s1
      \<and> mmio_regions s' = mmio_regions s1"
    using pmm_init_geometry s'(1) by blast
  then show "mem_map booted = 69632" "max_pfn booted = 9" "kernel_ptable booted = 0" "mmio_regions booted = []"
    using b s1 by simp_all
  show "db_flags booted {2..<9}" using s'(4) b by simp
  have "page_at s' = page_at s1" using geo by (simp add: page_at_def fun_eq_iff)
  then show "freelist_is booted (map (page_at booted) [2..<9])" using s'(3) fl b by simp
qed

text \<open>C9.  After the page frame database is built, \<open>pmm_init\<close> returns: the free list then holds
  exactly the frames the database marks free, in ascending order, and \<open>pmm_inv\<close> holds (the links,
  the flag words and the counter agree).\<close>

theorem pmm_init_establishes:
  assumes "pfndb_init memmap s = Some (memmap', s1)" and "db_ok s1"
  shows "\<exists>s2. pmm_init s1 = Some s2 \<and> pmm_inv s2 \<and> pmm_total_pages s2 = pfndb_getmax s1 + 1
    \<and> freelist_is s2 (map (page_at s1)
        (filter (\<lambda>i. page_is_free (pgs s1 (page_at s1 i))) [0..<Suc (unat (max_pfn s1))]))"
  using pmm_init_inv [OF assms(2) pfndb_init_db_flags [OF assms]]
  by (auto simp: free_from_def pmm_inv_def pmm_total_pages_def pfndb_getmax_def simp del: upt_Suc)

theorem pmm_init_establishes_witness:
  "\<exists>memmap' s1 s2. pfndb_init small_map boot_mem = Some (memmap', s1) \<and> pmm_init s1 = Some s2 \<and> pmm_inv s2"
  using booted_state(1) pmm_init_establishes by blast

text \<open>C10.  \<open>palloc_page\<close> panics only when no page is free.  Otherwise it takes the head of the
  free list, which becomes a page in use with one reference and no mapping; the descriptor of every
  other page in use and the contents of memory stay as they are.\<close>

theorem palloc_page_takes_head:
  assumes "pmm_inv s"
  shows "(palloc_page s = None \<longleftrightarrow> free_set s = {})
    \<and> (\<forall>p s'. palloc_page s = Some (p, s') \<longrightarrow>
         p = freelist s \<and> p \<in> free_set s \<and> free_set s' = free_set s - {p}
         \<and> pmm_free_pages s' = pmm_free_pages s - 1
         \<and> pgs s' p = \<lparr>u1_next = 0, u2 = 0, flags = PAGE_USED, refcount = 1\<rparr>
         \<and> (\<forall>q \<in> page_ptrs s - free_set s. pgs s' q = pgs s q) \<and> ram s' = ram s)"
proof -
  have "palloc_page s = None \<longleftrightarrow> free_set s = {}"
    using palloc_page_some [OF assms] pmm.alloc_none [OF assms] by fastforce
  moreover have "p = freelist s \<and> p \<in> free_set s \<and> free_set s' = free_set s - {p}
      \<and> pmm_free_pages s' = pmm_free_pages s - 1
      \<and> pgs s' p = \<lparr>u1_next = 0, u2 = 0, flags = PAGE_USED, refcount = 1\<rparr>
      \<and> (\<forall>q \<in> page_ptrs s - free_set s. pgs s' q = pgs s q) \<and> ram s' = ram s"
    if p: "palloc_page s = Some (p, s')" for p s'
  proof -
    note inv = palloc_page_inv [OF assms p]
    have "p = freelist s" "free_pages s' = free_pages s - 1"
      using p by (auto simp: palloc_page_def pmm_pop_def bind_eq_Some_conv Let_def split: if_splits)
    moreover have "\<forall>q \<in> page_ptrs s - free_set s. pgs s' q = pgs s q"
      using inv unfolding only_page_def by (metis DiffD2)
    ultimately show ?thesis using inv by (auto simp: pmm_free_pages_def)
  qed
  ultimately show ?thesis by blast
qed

theorem palloc_page_takes_head_witness:
  "\<exists>s'. palloc_page booted = Some (page_at booted 2, s')
    \<and> pgs s' (page_at booted 2) = \<lparr>u1_next = 0, u2 = 0, flags = PAGE_USED, refcount = 1\<rparr>"
proof -
  have "free_set booted \<noteq> {}" "freelist booted = page_at booted 2"
    using booted_state(3) by (auto simp: freelist_is_def upt_conv_Cons)
  then show ?thesis
    using palloc_page_takes_head [OF booted_state(2)] by (cases "palloc_page booted") auto
qed

text \<open>C11.  \<open>page_unref\<close> on a page in use: while other references remain it only decrements the
  count; dropping the last reference of an unmapped page zeroes the page's frame and nothing else in
  memory, and puts the page at the head of the free list; dropping the last reference of a page that
  is still mapped panics.\<close>

theorem page_unref_cases:
  assumes "pmm_inv s" and "q \<in> page_ptrs s" and "page_is_used (pgs s q)"
  shows "if refcount (pgs s q) \<noteq> 1
     then page_unref q s = Some (upd_page q (\<lambda>p. p\<lparr>refcount := refcount p - 1\<rparr>) s)
     else if u2 (pgs s q) \<noteq> 0 then page_unref q s = None
     else \<exists>s'. page_unref q s = Some s' \<and> pmm_inv s' \<and> freelist s' = q \<and> free_set s' = insert q (free_set s)
       \<and> (\<forall>p \<in> page_ptrs s - free_set s - {q}. pgs s' p = pgs s p)
       \<and> ram s' = filled (ram s) (pfndb_page_to_phys s q) 0 4096"
proof -
  obtain xs where xs: "pages_ok s" "freelist_is s xs" using assms(1) by (auto simp: pmm_inv_def)
  have used: "used_page (pgs s q)"
    using xs(1) assms(2,3) by (auto simp: pages_ok_def idle_page_def page_simps)
  have q0: "q \<noteq> 0" using xs(1) assms(2) page_ptrs_nonzero by (auto simp: pages_ok_def)
  have "\<exists>s'. page_unref q s = Some s' \<and> pmm_inv s' \<and> freelist s' = q \<and> free_set s' = insert q (free_set s)
       \<and> (\<forall>p \<in> page_ptrs s - free_set s - {q}. pgs s' p = pgs s p)
       \<and> ram s' = filled (ram s) (pfndb_page_to_phys s q) 0 4096"
    if c: "refcount (pgs s q) = 1" "u2 (pgs s q) = 0"
  proof -
    obtain s' where s': "page_unref q s = Some s'" "only_page q s s'" "pages_ok s'" "freelist_is s' (q # xs)"
      "ram s' = filled (ram s) (pfndb_page_to_phys s q) 0 4096"
      using page_unref_last [OF xs assms(2) used c] by blast
    then have "freelist s' = q" "free_set s' = insert q (free_set s)" using xs(2) by (auto simp: freelist_is_def)
    then show ?thesis using s' by (auto simp: pmm_inv_def only_page_def)
  qed
  then show ?thesis
    using page_unref_keep [OF used q0] page_unref_busy [OF used q0] by simp
qed

theorem page_unref_cases_witness:
  "\<exists>s s'. palloc_page booted = Some (page_at booted 2, s) \<and> page_unref (page_at booted 2) s = Some s'
    \<and> freelist s' = page_at booted 2"
proof -
  let ?p = "page_at booted 2"
  obtain s where s: "palloc_page booted = Some (?p, s)"
    using palloc_page_some [OF booted_state(2)] booted_state(3)
    by (fastforce simp: freelist_is_def upt_conv_Cons)
  note inv = palloc_page_inv [OF booted_state(2) s]
  then have "?p \<in> page_ptrs s" using geom_eqD(2) [of s booted] free_set_sub by (auto simp: only_page_def)
  then show ?thesis
    using page_unref_cases [of s ?p] inv s by (auto simp: page_simps)
qed

text \<open>C12.  No sequence of operations breaks the allocator: from a state that satisfies \<open>pmm_inv\<close>
  every reachable state satisfies it.\<close>

theorem pmm_reachable_inv: "pmm_step\<^sup>*\<^sup>* s s' \<Longrightarrow> pmm_inv s \<Longrightarrow> pmm_inv s'"
  by (induction rule: rtranclp_induct) (auto intro: pmm_step_inv)

theorem pmm_reachable_inv_witness:
  "\<exists>s. pmm_step\<^sup>*\<^sup>* booted s \<and> booted \<noteq> s \<and> pmm_inv s"
proof -
  obtain p s where s: "palloc_page booted = Some (p, s)"
    using palloc_page_some [OF booted_state(2)] booted_state(3)
    by (fastforce simp: freelist_is_def upt_conv_Cons)
  then have "pmm_step\<^sup>*\<^sup>* booted s" by (blast intro: pmm_step.alloc)
  moreover have "booted \<noteq> s" using palloc_page_inv [OF booted_state(2) s] by auto
  ultimately show ?thesis using pmm_reachable_inv [OF _ booted_state(2)] by blast
qed

text \<open>Allocating \<open>n\<close> pages one after the other succeeds exactly when \<open>n\<close> pages are free,
  and then gives \<open>n\<close> different pages that were free, each with one reference, leaving the
  references of all other pages unchanged.\<close>

theorem palloc_page_repeated:
  assumes "pmm_inv s"
  shows "if n \<le> card (free_set s)
    then \<exists>ps s'. alloc_n palloc_page n s = Some (ps, s') \<and> length ps = n \<and> distinct ps \<and> set ps \<subseteq> free_set s
      \<and> free_set s' = free_set s - set ps \<and> page_refs s' = (\<lambda>p. if p \<in> set ps then 1 else page_refs s p)
    else alloc_n palloc_page n s = None"
  using pmm.alloc_n_enough [OF assms, of n] pmm.alloc_n_short [OF assms, of n] by auto

theorem palloc_page_repeated_witness:
  "(\<exists>ps s'. alloc_n palloc_page 7 booted = Some (ps, s') \<and> distinct ps) \<and> alloc_n palloc_page 8 booted = None"
proof -
  have "card (free_set booted) = length (map (page_at booted) [2..<9])"
    using booted_state(3) distinct_card unfolding freelist_is_def by metis
  then show ?thesis
    using palloc_page_repeated [OF booted_state(2), of 7] palloc_page_repeated [OF booted_state(2), of 8]
    by auto
qed

end
