(* ===== verification/Paging.thy ===== *)
theory Paging
  imports Pmm "HOL-Library.Sublist"
begin

text \<open>
  The four-level page tables of \<open>kernel/src/mm/paging.c\<close>.  A table is a frame of 512 eight-byte
  entries in \<open>ram\<close>, named by its physical address (the C code adds the direct-map offset to reach
  it); the NULL that \<open>_table_next\<close> and \<open>_leaf_entry\<close> return for a missing table is the inner
  \<open>None\<close>, a panic the outer one.  Each operation holds \<open>paging_lock\<close> throughout.  The lemmas show
  that the tables implement a map from page numbers to entries.
\<close>

section \<open>Entries\<close>

definition VMM_PRESENT :: u64 where "VMM_PRESENT = push_bit 0 1"
definition VMM_WRITABLE :: u64 where "VMM_WRITABLE = push_bit 1 1"
definition VMM_USER :: u64 where "VMM_USER = push_bit 2 1"
definition VMM_PWT :: u64 where "VMM_PWT = push_bit 3 1"
definition VMM_PCD :: u64 where "VMM_PCD = push_bit 4 1"
definition VMM_HUGE :: u64 where "VMM_HUGE = push_bit 7 1"
definition VMM_NX :: u64 where "VMM_NX = push_bit 63 1"

definition VMM_FLAGS_MMIO :: u64 where
  "VMM_FLAGS_MMIO = VMM_PRESENT OR VMM_WRITABLE OR VMM_PCD OR VMM_PWT OR VMM_NX"

definition PAGE_FRAME_MASK :: u64 where "PAGE_FRAME_MASK = 0x000FFFFFFFFFF000"

definition pml1_idx :: "u64 \<Rightarrow> u64" where "pml1_idx v = drop_bit 12 v AND 0x1ff"
definition pml2_idx :: "u64 \<Rightarrow> u64" where "pml2_idx v = drop_bit 21 v AND 0x1ff"
definition pml3_idx :: "u64 \<Rightarrow> u64" where "pml3_idx v = drop_bit 30 v AND 0x1ff"
definition pml4_idx :: "u64 \<Rightarrow> u64" where "pml4_idx v = drop_bit 39 v AND 0x1ff"

definition slot :: "u64 \<Rightarrow> u64 \<Rightarrow> u64" where
  "slot tbl i = tbl + i * 8"

definition get_ent :: "kmem \<Rightarrow> u64 \<Rightarrow> u64 \<Rightarrow> u64" where
  "get_ent s tbl i = load64 (ram s) (slot tbl i)"

definition put_ent :: "u64 \<Rightarrow> u64 \<Rightarrow> u64 \<Rightarrow> kmem \<Rightarrow> kmem" where
  "put_ent tbl i e s = s\<lparr>ram := store64 (ram s) (slot tbl i) e\<rparr>"

section \<open>Tables\<close>

definition alloc_pt :: "kmem \<Rightarrow> (u64 \<times> kmem) option" where
  "alloc_pt s = do {
     (page, s1) \<leftarrow> palloc_page s;
     if page = 0 then Some (0, s1)
     else let phys = pfndb_page_to_phys s1 page
       in Some (phys, s1\<lparr>ram := memset (ram s1) phys 0 PAGE_SIZE\<rparr>) }"

definition free_pt :: "u64 \<Rightarrow> kmem \<Rightarrow> kmem option" where
  "free_pt phys s = do {
     let page = pfndb_phys_to_page s phys;
     require (page \<noteq> 0);
     page_unref page s }"

definition table_next :: "u64 \<Rightarrow> u64 \<Rightarrow> u64 \<Rightarrow> kmem \<Rightarrow> (u64 option \<times> kmem) option" where
  "table_next tbl idx create_flags s =
     (let e = get_ent s tbl idx in
      if e AND VMM_PRESENT \<noteq> 0 then Some (Some (e AND PAGE_FRAME_MASK), s)
      else if create_flags = 0 then Some (None, s)
      else do {
        (phys, s1) \<leftarrow> alloc_pt s;
        if phys = 0 then Some (None, s1)
        else Some (Some phys, put_ent tbl idx (phys OR create_flags) s1) })"

text \<open>The address of the leaf entry is given as its table and its index.\<close>

definition leaf_entry :: "u64 \<Rightarrow> u64 \<Rightarrow> u64 \<Rightarrow> kmem \<Rightarrow> ((u64 \<times> u64) option \<times> kmem) option" where
  "leaf_entry pml4 virt create_flags s = do {
     (pml3, s) \<leftarrow> table_next pml4 (pml4_idx virt) create_flags s;
     case pml3 of None \<Rightarrow> Some (None, s) | Some pml3 \<Rightarrow> do {
       (pml2, s) \<leftarrow> table_next pml3 (pml3_idx virt) create_flags s;
       case pml2 of None \<Rightarrow> Some (None, s) | Some pml2 \<Rightarrow> do {
         (pml1, s) \<leftarrow> table_next pml2 (pml2_idx virt) create_flags s;
         case pml1 of None \<Rightarrow> Some (None, s) | Some pml1 \<Rightarrow> Some (Some (pml1, pml1_idx virt), s) } } }"

definition release_mapping :: "u64 \<Rightarrow> kmem \<Rightarrow> kmem option" where
  "release_mapping phys s =
     (let page = pfndb_phys_to_page s phys in
      if page = 0 then Some s else do { s1 \<leftarrow> page_unshare page s; page_unref page s1 })"

text \<open>The argument is one less than the \<open>depth\<close> of the C function: \<open>0\<close> is the leaf level.\<close>

primrec ptable_free_level :: "nat \<Rightarrow> u64 \<Rightarrow> kmem \<Rightarrow> kmem option" where
  "ptable_free_level 0 tbl s = do {
     s1 \<leftarrow> foldM (\<lambda>i s.
             let e = get_ent s tbl (of_nat i) in
             if e AND VMM_PRESENT = 0 then Some s else release_mapping (e AND PAGE_FRAME_MASK) s)
           [0..<512] s;
     free_pt tbl s1 }"
| "ptable_free_level (Suc d) tbl s = do {
     s1 \<leftarrow> foldM (\<lambda>i s.
             let e = get_ent s tbl (of_nat i) in
             if e AND VMM_PRESENT = 0 then Some s
             else if e AND VMM_HUGE \<noteq> 0 then Some s
             else ptable_free_level d (e AND PAGE_FRAME_MASK) s)
           [0..<512] s;
     free_pt tbl s1 }"

definition table_empty :: "kmem \<Rightarrow> u64 \<Rightarrow> bool" where
  "table_empty s tbl \<longleftrightarrow> (\<forall>i \<in> set [0..<512]. get_ent s tbl (of_nat i) AND VMM_PRESENT = 0)"

definition ptable_free_empty :: "u64 \<Rightarrow> u64 \<Rightarrow> kmem \<Rightarrow> kmem option" where
  "ptable_free_empty pt virt s =
     (let pml4 = pt; i4 = pml4_idx virt in
      if get_ent s pml4 i4 AND VMM_PRESENT = 0 then Some s
      else let pml3 = get_ent s pml4 i4 AND PAGE_FRAME_MASK; i3 = pml3_idx virt in
      if get_ent s pml3 i3 AND VMM_PRESENT = 0 then Some s
      else let pml2 = get_ent s pml3 i3 AND PAGE_FRAME_MASK; i2 = pml2_idx virt in
      if get_ent s pml2 i2 AND VMM_PRESENT = 0 then Some s
      else let pml1 = get_ent s pml2 i2 AND PAGE_FRAME_MASK in
      if \<not> table_empty s pml1 then Some s
      else do {
        s \<leftarrow> free_pt (get_ent s pml2 i2 AND PAGE_FRAME_MASK) s;
        let s = put_ent pml2 i2 0 s;
        if \<not> table_empty s pml2 then Some s
        else do {
          s \<leftarrow> free_pt (get_ent s pml3 i3 AND PAGE_FRAME_MASK) s;
          let s = put_ent pml3 i3 0 s;
          if \<not> table_empty s pml3 then Some s
          else do {
            s \<leftarrow> free_pt (get_ent s pml4 i4 AND PAGE_FRAME_MASK) s;
            Some (put_ent pml4 i4 0 s) } } })"

section \<open>Mapping\<close>

definition table_flags :: "u64 \<Rightarrow> u64" where
  "table_flags fl = (if fl AND VMM_USER \<noteq> 0 then (VMM_PRESENT OR VMM_WRITABLE) OR VMM_USER
     else VMM_PRESENT OR VMM_WRITABLE)"

definition leaf_value :: "u64 \<Rightarrow> u64 \<Rightarrow> u64" where
  "leaf_value phys fl = phys OR (fl AND NOT PAGE_FRAME_MASK) OR VMM_PRESENT"

definition map_page :: "u64 \<Rightarrow> u64 \<Rightarrow> u64 \<Rightarrow> u64 \<Rightarrow> kmem \<Rightarrow> kmem option" where
  "map_page pt virt page fl s = do {
     require (pt \<noteq> 0);
     require (page \<noteq> 0);
     let virt = ALIGN_DOWN virt PAGE_SIZE;
     let phys = pfndb_page_to_phys s page;
     (pte, s) \<leftarrow> leaf_entry pt virt (table_flags fl) s;
     (tbl, i) \<leftarrow> pte;
     s \<leftarrow> (if get_ent s tbl i AND VMM_PRESENT \<noteq> 0
           then release_mapping (get_ent s tbl i AND PAGE_FRAME_MASK) s else Some s);
     let s = put_ent tbl i (leaf_value phys fl) s;
     s \<leftarrow> page_share page s;
     page_ref page s }"

definition map_page_phys :: "u64 \<Rightarrow> u64 \<Rightarrow> u64 \<Rightarrow> u64 \<Rightarrow> kmem \<Rightarrow> kmem option" where
  "map_page_phys pt virt phys fl s = do {
     require (pt \<noteq> 0);
     let virt = ALIGN_DOWN virt PAGE_SIZE;
     let phys = ALIGN_DOWN phys PAGE_SIZE;
     (pte, s) \<leftarrow> leaf_entry pt virt (table_flags fl) s;
     (tbl, i) \<leftarrow> pte;
     if get_ent s tbl i AND VMM_PRESENT \<noteq> 0 then Some s
     else do {
       let page = pfndb_phys_to_page s phys;
       s \<leftarrow> (if page \<noteq> 0 \<and> page_is_used (pgs s page)
             then do { s \<leftarrow> page_share page s; page_ref page s } else Some s);
       Some (put_ent tbl i (leaf_value phys fl) s) } }"

definition unmap_page :: "u64 \<Rightarrow> u64 \<Rightarrow> kmem \<Rightarrow> kmem option" where
  "unmap_page pt virt s = do {
     require (pt \<noteq> 0);
     let virt = ALIGN_DOWN virt PAGE_SIZE;
     (pte, s) \<leftarrow> leaf_entry pt virt 0 s;
     case pte of
       None \<Rightarrow> Some s
     | Some (tbl, i) \<Rightarrow>
         if get_ent s tbl i AND VMM_PRESENT = 0 then Some s
         else do {
           let phys = get_ent s tbl i AND PAGE_FRAME_MASK;
           s \<leftarrow> release_mapping phys (put_ent tbl i 0 s);
           ptable_free_empty pt virt s } }"

definition get_phys :: "u64 \<Rightarrow> u64 \<Rightarrow> kmem \<Rightarrow> u64 option" where
  "get_phys pt virt s = do {
     require (pt \<noteq> 0);
     (pte, s) \<leftarrow> leaf_entry pt (ALIGN_DOWN virt PAGE_SIZE) 0 s;
     Some (case pte of
       None \<Rightarrow> 0
     | Some (tbl, i) \<Rightarrow>
         if get_ent s tbl i AND VMM_PRESENT = 0 then 0
         else (get_ent s tbl i AND PAGE_FRAME_MASK) + (virt AND (PAGE_SIZE - 1))) }"

definition get_mapping_flags :: "u64 \<Rightarrow> u64 \<Rightarrow> kmem \<Rightarrow> u64 option" where
  "get_mapping_flags pt virt s = do {
     require (pt \<noteq> 0);
     (pte, s) \<leftarrow> leaf_entry pt (ALIGN_DOWN virt PAGE_SIZE) 0 s;
     Some (case pte of
       None \<Rightarrow> 0
     | Some (tbl, i) \<Rightarrow>
         if get_ent s tbl i AND VMM_PRESENT = 0 then 0 else get_ent s tbl i AND NOT PAGE_FRAME_MASK) }"

section \<open>Device memory and address spaces\<close>

definition map_mmio_page :: "u64 \<Rightarrow> u64 \<Rightarrow> u64 \<Rightarrow> nat \<Rightarrow> kmem \<Rightarrow> kmem option" where
  "map_mmio_page pml4 virt phys i s = do {
     let v = virt + of_nat i * PAGE_SIZE;
     let p = phys + of_nat i * PAGE_SIZE;
     (pte, s) \<leftarrow> leaf_entry pml4 v (VMM_PRESENT OR VMM_WRITABLE) s;
     (tbl, j) \<leftarrow> pte;
     Some (put_ent tbl j (p OR VMM_FLAGS_MMIO) s) }"

definition map_mmio :: "u64 \<Rightarrow> u64 \<Rightarrow> u64 \<Rightarrow> u64 \<Rightarrow> kmem \<Rightarrow> kmem option" where
  "map_mmio pt virt phys npages s = do {
     require (pt \<noteq> 0);
     foldM (map_mmio_page pt (ALIGN_DOWN virt PAGE_SIZE) (ALIGN_DOWN phys PAGE_SIZE)) [0..<unat npages] s }"

text \<open>\<open>allocated\<close> is whether \<open>kzalloc\<close> returned memory for the list node.\<close>

definition paging_register_kernel_mmio :: "bool \<Rightarrow> u64 \<Rightarrow> u64 \<Rightarrow> u64 \<Rightarrow> kmem \<Rightarrow> kmem option" where
  "paging_register_kernel_mmio allocated virt phys npages s =
     (if npages = 0 then Some s
      else do {
        require allocated;
        Some (s\<lparr>mmio_regions := \<lparr>mr_virt = ALIGN_DOWN virt PAGE_SIZE, mr_phys = ALIGN_DOWN phys PAGE_SIZE,
                               mr_npages = npages\<rparr> # mmio_regions s\<rparr>) })"

definition copy_upper_half :: "u64 \<Rightarrow> u64 \<Rightarrow> kmem \<Rightarrow> kmem" where
  "copy_upper_half dst src s =
     fold (\<lambda>i s. put_ent dst (of_nat i) (get_ent s src (of_nat i)) s) [256..<512] s"

definition ptable_create :: "kmem \<Rightarrow> (u64 \<times> kmem) option" where
  "ptable_create s = do {
     (page, s) \<leftarrow> palloc_page s;
     require (page \<noteq> 0);
     let phys = pfndb_page_to_phys s page;
     let s = s\<lparr>ram := memset (ram s) phys 0 PAGE_SIZE\<rparr>;
     let s = (if kernel_ptable s \<noteq> 0 then copy_upper_half phys (kernel_ptable s) s else s);
     s \<leftarrow> foldM (\<lambda>r. map_mmio phys (mr_virt r) (mr_phys r) (mr_npages r)) (mmio_regions s) s;
     Some (phys, s) }"

definition ptable_destroy :: "u64 \<Rightarrow> kmem \<Rightarrow> kmem option" where
  "ptable_destroy pt s = do {
     require (pt \<noteq> 0);
     if pt = kernel_ptable s then ptable_free_level 3 pt s
     else do {
       s \<leftarrow> foldM (\<lambda>i s.
              let e = get_ent s pt (of_nat i) in
              if e AND VMM_PRESENT = 0 then Some s
              else if e AND VMM_HUGE \<noteq> 0 then Some s
              else ptable_free_level 2 (e AND PAGE_FRAME_MASK) s)
            [0..<256] s;
       free_pt pt s } }"

text \<open>\<open>paging_init\<close>: the bounds of the sections and of the stack come from the linker, the physical
  base from the boot loader and the boot page table from \<open>cr3\<close>, so they are arguments.\<close>

partial_function (option) map_section :: "u64 \<Rightarrow> u64 \<Rightarrow> u64 \<Rightarrow> u64 \<Rightarrow> u64 \<Rightarrow> u64 \<Rightarrow> kmem \<Rightarrow> kmem option" where
  "map_section kt kvirt kphys v e fl s =
     (if v < e
      then Option.bind (map_page_phys kt v (v - kvirt + kphys) fl s)
             (map_section kt kvirt kphys (v + PAGE_SIZE) e fl)
      else Some s)"

record kernel_image =
  img_kvirt :: u64
  img_kphys :: u64
  img_limine :: "u64 \<times> u64"
  img_text :: "u64 \<times> u64"
  img_rodata :: "u64 \<times> u64"
  img_data :: "u64 \<times> u64"
  img_stack_top :: u64
  img_boot_cr3 :: u64

definition map_image_section :: "kernel_image \<Rightarrow> u64 \<Rightarrow> u64 \<times> u64 \<Rightarrow> u64 \<Rightarrow> kmem \<Rightarrow> kmem option" where
  "map_image_section img kt sec fl =
     map_section kt (img_kvirt img) (img_kphys img) (ALIGN_DOWN (fst sec) PAGE_SIZE) (ALIGN_UP (snd sec) PAGE_SIZE) fl"

definition paging_init :: "kernel_image \<Rightarrow> kmem \<Rightarrow> kmem option" where
  "paging_init img s = do {
     (kt, s) \<leftarrow> ptable_create s;
     let s = s\<lparr>kernel_ptable := kt\<rparr>;
     require (kt \<noteq> 0);
     s \<leftarrow> map_image_section img kt (img_limine img) (VMM_PRESENT OR VMM_NX) s;
     s \<leftarrow> map_image_section img kt (img_text img) VMM_PRESENT s;
     s \<leftarrow> map_image_section img kt (img_rodata img) (VMM_PRESENT OR VMM_NX) s;
     s \<leftarrow> map_image_section img kt (img_data img) (VMM_PRESENT OR VMM_WRITABLE OR VMM_NX) s;
     let top = ALIGN_UP (img_stack_top img) PAGE_SIZE;
     s \<leftarrow> map_section kt (img_kvirt img) (img_kphys img) (top - 65536) top
            (VMM_PRESENT OR VMM_WRITABLE OR VMM_NX) s;
     Some (copy_upper_half kt (img_boot_cr3 img) s) }"

section \<open>Frames and slots\<close>

definition frame :: "u64 \<Rightarrow> bool" where
  "frame t \<longleftrightarrow> t AND PAGE_FRAME_MASK = t"

lemma frame_mask_bits: "PAGE_FRAME_MASK = push_bit 12 (mask 40)"
  by (simp add: PAGE_FRAME_MASK_def mask_eq_exp_minus_1)

lemma bit_frame_mask: "bit PAGE_FRAME_MASK n \<longleftrightarrow> 12 \<le> n \<and> n < 52"
  unfolding frame_mask_bits bit_push_bit_iff bit_mask_iff by auto

lemma frame_masked [simp]: "frame (e AND PAGE_FRAME_MASK)"
  by (simp add: frame_def and.assoc)

lemma frame_iff: "frame t \<longleftrightarrow> unat t < 2 ^ 52 \<and> unat t mod 4096 = 0"
proof -
  have hi: "unat t < 2 ^ 52 \<longleftrightarrow> take_bit 52 t = t"
    by (metis take_bit_nat_eq_self_iff unsigned_take_bit_eq word_unat_eq_iff)
  have "unat t mod 4096 = unat (take_bit 12 t)"
    by (simp add: take_bit_eq_mod unat_mod)
  then have lo: "unat t mod 4096 = 0 \<longleftrightarrow> take_bit 12 t = 0" by (simp add: unat_eq_zero)
  have "frame t \<longleftrightarrow> (\<forall>n. bit t n \<longrightarrow> 12 \<le> n \<and> n < 52)"
    unfolding frame_def using bit_imp_le_length [of t] by (auto simp: bit_eq_iff bit_and_iff bit_frame_mask)
  also have "\<dots> \<longleftrightarrow> take_bit 52 t = t \<and> take_bit 12 t = 0"
    unfolding bit_eq_iff bit_take_bit_iff using bit_imp_le_length [of t] by (fastforce simp: not_less)
  finally show ?thesis using hi lo by simp
qed

lemma unat_slot:
  assumes "frame t" and "i < 512"
  shows "unat (slot t i) = unat t + 8 * unat i"
proof -
  have "unat i < 512" using assms(2) by (simp add: word_less_nat_alt)
  moreover from this have "unat (i * 8) = unat i * 8" by (simp add: unat_word_ariths)
  ultimately show ?thesis using assms(1) by (simp add: slot_def frame_iff unat_word_ariths)
qed

lemma frames_apart:
  assumes "frame t" and "frame t'" and "t \<noteq> t'"
  shows "unat t + 4096 \<le> unat t' \<or> unat t' + 4096 \<le> unat t"
proof -
  obtain a b where "unat t = 4096 * a" "unat t' = 4096 * b"
    using assms(1,2) unfolding frame_iff by (metis dvd_def mod_0_imp_dvd)
  moreover have "unat t \<noteq> unat t'" using assms(3) by (simp add: word_unat_eq_iff)
  ultimately have "a < b \<or> b < a" by auto
  then have "Suc a \<le> b \<or> Suc b \<le> a" by auto
  then show ?thesis using \<open>unat t = _\<close> \<open>unat t' = _\<close> by auto
qed

lemma slots_apart:
  assumes "frame t" "frame t'" "i < 512" "i' < 512" "t \<noteq> t' \<or> i \<noteq> i'"
  shows "8 \<le> unat (slot t i - slot t' i')"
proof -
  have i: "unat i < 512" "unat i' < 512" using assms(3,4) by (simp_all add: word_less_nat_alt)
  have "unat t + 8 * unat i + 8 \<le> unat t' + 8 * unat i' \<or> unat t' + 8 * unat i' + 8 \<le> unat t + 8 * unat i"
  proof (cases "t = t'")
    case True
    then have "unat i \<noteq> unat i'" using assms(5) by (simp add: word_unat_eq_iff)
    then show ?thesis using True by auto
  next
    case False
    then show ?thesis using frames_apart [OF assms(1,2)] i by auto
  qed
  then show ?thesis
    using i assms(1,2) unat_slot [OF assms(1,3)] unat_slot [OF assms(2,4)]
    by (auto simp: unat_sub_if' frame_iff)
qed

lemma get_put_ent:
  assumes "frame t" "frame t'" "i < 512" "i' < 512"
  shows "get_ent (put_ent t i e s) t' i' = (if t' = t \<and> i' = i then e else get_ent s t' i')"
  using slots_apart [of t' t i' i] slots_apart [of t t' i i'] assms
  by (auto simp: get_ent_def put_ent_def load64_store64_same load64_store64_other)

lemma slot_in_frame:
  assumes "frame t" "frame t'" "i < 512"
  shows "if t = t' then unat (slot t i - t') + 8 \<le> 4096 else (\<forall>k < 8. 4096 \<le> unat (slot t i + of_nat k - t'))"
proof -
  have i: "unat i < 512" using assms(3) by (simp add: word_less_nat_alt)
  have u: "unat (slot t i) = unat t + 8 * unat i" by (rule unat_slot [OF assms(1,3)])
  have uk: "unat (slot t i + of_nat k) = unat t + 8 * unat i + k" if "k < 8" for k
    using unat_add_le [of "slot t i" 8 k] that u assms(1) i by (simp add: frame_iff)
  show ?thesis
  proof (cases "t = t'")
    case True
    then show ?thesis using u i by (simp add: unat_sub_if')
  next
    case False
    then show ?thesis using frames_apart [OF assms(1,2)] uk i assms(1,2)
      by (auto simp: unat_sub_if' frame_iff)
  qed
qed

definition zero_frame :: "u64 \<Rightarrow> kmem \<Rightarrow> kmem" where
  "zero_frame t s = s\<lparr>ram := filled (ram s) t 0 4096\<rparr>"

lemma get_ent_zero_frame:
  assumes "frame t" "frame t'" "i < 512"
  shows "get_ent (zero_frame t' s) t i = (if t = t' then 0 else get_ent s t i)"
  using slot_in_frame [OF assms]
  by (auto simp: get_ent_def zero_frame_def load64_filled_inside load64_filled_outside split: if_splits)

section \<open>Walks\<close>

text \<open>\<open>node s t p\<close> is the table reached from table \<open>t\<close> along the indices \<open>p\<close>; \<open>pte s r p\<close> the
  present entry reached from the root \<open>r\<close> along \<open>p\<close>, or \<open>0\<close>.\<close>

primrec node :: "kmem \<Rightarrow> u64 \<Rightarrow> u64 list \<Rightarrow> u64 option" where
  "node s t [] = Some t"
| "node s t (i # p) =
     (if get_ent s t i AND VMM_PRESENT \<noteq> 0 then node s (get_ent s t i AND PAGE_FRAME_MASK) p else None)"

definition pte :: "kmem \<Rightarrow> u64 \<Rightarrow> u64 list \<Rightarrow> u64" where
  "pte s r p =
     (case node s r (butlast p) of
        None \<Rightarrow> 0
      | Some t \<Rightarrow> if get_ent s t (last p) AND VMM_PRESENT = 0 then 0 else get_ent s t (last p))"

lemma node_append: "node s t (p @ q) = Option.bind (node s t p) (\<lambda>t'. node s t' q)"
  by (induction p arbitrary: t) auto

lemma node_snoc:
  "node s t (p @ [i]) = Option.bind (node s t p)
     (\<lambda>t'. if get_ent s t' i AND VMM_PRESENT \<noteq> 0 then Some (get_ent s t' i AND PAGE_FRAME_MASK) else None)"
  by (cases "node s t p") (simp_all add: node_append)

lemma pte_snoc:
  "pte s r (p @ [i]) = (case node s r p of None \<Rightarrow> 0
     | Some t \<Rightarrow> if get_ent s t i AND VMM_PRESENT = 0 then 0 else get_ent s t i)"
  by (cases "node s r p") (simp_all add: pte_def)

definition same_link :: "u64 \<Rightarrow> u64 \<Rightarrow> bool" where
  "same_link e e' \<longleftrightarrow> e = e' \<or> e AND VMM_PRESENT = 0 \<and> e' AND VMM_PRESENT = 0"

lemma node_cong:
  "(\<And>q i z t. p = q @ i # z \<Longrightarrow> node s r q = Some t \<Longrightarrow> same_link (get_ent s t i) (get_ent s' t i)) \<Longrightarrow>
   node s' r p = node s r p"
proof (induction p rule: rev_induct)
  case (snoc i p)
  have "node s' r p = node s r p" using snoc.prems by (intro snoc.IH) auto
  moreover have "same_link (get_ent s t i) (get_ent s' t i)" if "node s r p = Some t" for t
    using snoc.prems [of p i "[]" t] that by simp
  ultimately show ?case by (auto simp: node_snoc same_link_def split: bind_splits)
qed simp

lemma pte_cong:
  assumes "p \<noteq> []"
    and "\<And>q i z t. p = q @ i # z \<Longrightarrow> node s r q = Some t \<Longrightarrow> same_link (get_ent s t i) (get_ent s' t i)"
  shows "pte s' r p = pte s r p"
proof -
  obtain q i where p: "p = q @ [i]" using assms(1) by (metis rev_exhaust)
  have "node s' r q = node s r q" using assms(2) p by (intro node_cong) auto
  moreover have "same_link (get_ent s t i) (get_ent s' t i)" if "node s r q = Some t" for t
    using assms(2) [of q i "[]" t] that p by simp
  ultimately show ?thesis by (auto simp: p pte_snoc same_link_def split: option.splits)
qed

section \<open>Descriptors and frames\<close>

text \<open>Physical addresses have 52 bits, so frame numbers have 40; frame 0 is never handed out.\<close>

definition mem_ok :: "kmem \<Rightarrow> bool" where
  "mem_ok s \<longleftrightarrow> pmm_inv s \<and> unat (max_pfn s) < 2 ^ 40 \<and> page_is_reserved (pgs s (page_at s 0))"

lemma mem_ok_db: "mem_ok s \<Longrightarrow> db_ok s"
  by (simp add: mem_ok_def pmm_inv_def pages_ok_def)

lemma page_phys:
  assumes "mem_ok s" and "q \<in> page_ptrs s"
  shows "frame (pfndb_page_to_phys s q)" "pfndb_phys_to_page s (pfndb_page_to_phys s q) = q"
proof -
  obtain k where k: "q = page_at s k" "k \<le> unat (max_pfn s)" using assms(2) by (auto simp: page_ptrs_def)
  have phys: "pfndb_page_to_phys s q = of_nat k * PAGE_SIZE"
    using page_to_phys_at [OF mem_ok_db [OF assms(1)] k(2)] k(1) by simp
  have "k < 2 ^ 40" using k(2) assms(1) by (simp add: mem_ok_def)
  then show "frame (pfndb_page_to_phys s q)" by (simp add: phys frame_iff unat_word_ariths)
  show "pfndb_phys_to_page s (pfndb_page_to_phys s q) = q"
    using phys_to_page_at [OF mem_ok_db [OF assms(1)] k(2), of 0] k(1) phys by simp
qed

lemma phys_page:
  assumes "mem_ok s" and "frame f" and "pfndb_phys_to_page s f \<noteq> 0"
  shows "pfndb_phys_to_page s f \<in> page_ptrs s" "pfndb_page_to_phys s (pfndb_phys_to_page s f) = f"
proof -
  have le: "unat (f div PAGE_SIZE) \<le> unat (max_pfn s)"
    using assms(3) by (auto simp: pfndb_phys_to_page_def Let_def word_less_nat_alt split: if_splits)
  have eq: "pfndb_phys_to_page s f = page_at s (unat (f div PAGE_SIZE))"
    using assms(3) by (auto simp: pfndb_phys_to_page_def page_at_def Let_def split: if_splits)
  show "pfndb_phys_to_page s f \<in> page_ptrs s" using le eq by (auto simp: page_ptrs_def)
  have "f div PAGE_SIZE * PAGE_SIZE = f"
    using assms(2) by (simp add: frame_iff word_unat_eq_iff unat_word_ariths unat_div) auto
  then show "pfndb_page_to_phys s (pfndb_phys_to_page s f) = f"
    using page_to_phys_at [OF mem_ok_db [OF assms(1)] le] eq by simp
qed

lemma page_phys_inj:
  "mem_ok s \<Longrightarrow> q \<in> page_ptrs s \<Longrightarrow> q' \<in> page_ptrs s \<Longrightarrow>
   pfndb_page_to_phys s q = pfndb_page_to_phys s q' \<longleftrightarrow> q = q'"
  by (metis page_phys(2))

section \<open>Trees of tables\<close>

text \<open>\<open>W\<close> is the set of top-level slots (root table, index) whose subtrees belong to exactly one
  root.  Paths below other slots, such as the kernel half that every root copies from the kernel's
  table, are not followed.\<close>

definition valid :: "(u64 \<times> u64) set \<Rightarrow> u64 \<Rightarrow> u64 list \<Rightarrow> bool" where
  "valid W r p \<longleftrightarrow> (\<exists>i. (r, i) \<in> W \<and> (p \<noteq> [] \<longrightarrow> hd p = i)) \<and> (\<forall>j \<in> set p. j < 512)"

definition table_page :: "kmem \<Rightarrow> u64 \<Rightarrow> bool" where
  "table_page s t \<longleftrightarrow> (\<exists>q \<in> page_ptrs s. pfndb_page_to_phys s q = t \<and> used_page (pgs s q)
     \<and> refcount (pgs s q) = 1 \<and> u2 (pgs s q) = 0)"

definition tree_ok :: "kmem \<Rightarrow> (u64 \<times> u64) set \<Rightarrow> bool" where
  "tree_ok s W \<longleftrightarrow>
     (\<forall>r p t. valid W r p \<and> length p \<le> 3 \<and> node s r p = Some t \<longrightarrow> table_page s t)
   \<and> (\<forall>r p r' p' t. valid W r p \<and> length p \<le> 3 \<and> node s r p = Some t
        \<and> valid W r' p' \<and> length p' \<le> 3 \<and> node s r' p' = Some t \<longrightarrow> r' = r \<and> p' = p)"

definition mapset :: "kmem \<Rightarrow> (u64 \<times> u64) set \<Rightarrow> u64 \<Rightarrow> (u64 \<times> u64 list) set" where
  "mapset s W q = {(r, p). valid W r p \<and> length p = 4 \<and> pte s r p \<noteq> 0
     \<and> pfndb_phys_to_page s (pte s r p AND PAGE_FRAME_MASK) = q}"

definition count_ok :: "kmem \<Rightarrow> (u64 \<times> u64) set \<Rightarrow> bool" where
  "count_ok s W \<longleftrightarrow> (\<forall>q \<in> page_ptrs s.
     if used_page (pgs s q)
     then card (mapset s W q) \<le> unat (u2 (pgs s q)) \<and> unat (u2 (pgs s q)) \<le> unat (refcount (pgs s q))
     else mapset s W q = {})"

definition vm_ok :: "kmem \<Rightarrow> (u64 \<times> u64) set \<Rightarrow> bool" where
  "vm_ok s W \<longleftrightarrow> finite W \<and> mem_ok s \<and> tree_ok s W \<and> count_ok s W"

lemma valid_prefix: "valid W r (p @ q) \<Longrightarrow> valid W r p"
  by (auto simp: valid_def hd_append)

lemma valid_idx: "valid W r (p @ i # q) \<Longrightarrow> i < 512"
  by (auto simp: valid_def)

lemma finite_mapset:
  assumes "finite W"
  shows "finite (mapset s W q)"
proof -
  have "mapset s W q \<subseteq> fst ` W \<times> {p. set p \<subseteq> UNIV \<and> length p = 4}"
    by (force simp: mapset_def valid_def)
  moreover have "finite {p :: u64 list. set p \<subseteq> UNIV \<and> length p = 4}" by (rule finite_lists_length_eq) simp
  ultimately show ?thesis using assms by (meson finite_SigmaI finite_imageI finite_subset)
qed

lemma table_page_frame: "mem_ok s \<Longrightarrow> table_page s t \<Longrightarrow> frame t"
  using page_phys(1) by (auto simp: table_page_def)

lemma tree_node:
  assumes "tree_ok s W" and "valid W r p" and "length p \<le> 3" and "node s r p = Some t"
  shows "table_page s t" and "valid W r' p' \<Longrightarrow> length p' \<le> 3 \<Longrightarrow> node s r' p' = Some t \<Longrightarrow> r' = r \<and> p' = p"
  using assms unfolding tree_ok_def by blast+

lemma table_page_not_free:
  assumes "mem_ok s" and "table_page s (pfndb_page_to_phys s x)" and "x \<in> page_ptrs s"
  shows "x \<notin> free_set s \<and> used_page (pgs s x) \<and> refcount (pgs s x) = 1 \<and> u2 (pgs s x) = 0"
  using assms page_phys_inj [OF assms(1)]
  by (auto simp: table_page_def free_set_def used_page_def)

lemma node_other:
  assumes "tree_ok s W" and "valid W r0 q0" and "length q0 \<le> 3" and "node s r0 q0 = Some t0"
    and "\<And>t1 i. table_page s t1 \<Longrightarrow> i < 512 \<Longrightarrow> t1 \<noteq> t0 \<or> i \<noteq> i0 \<Longrightarrow> same_link (get_ent s t1 i) (get_ent s' t1 i)"
    and "valid W r p" and "length p \<le> 4" and "\<not> (r = r0 \<and> prefix (q0 @ [i0]) p)"
  shows "node s' r p = node s r p" and "p \<noteq> [] \<Longrightarrow> pte s' r p = pte s r p"
proof -
  have link: "same_link (get_ent s t i) (get_ent s' t i)" if p: "p = q @ i # z" and t: "node s r q = Some t" for q i z t
  proof -
    have q: "valid W r q" "length q \<le> 3" "i < 512" using assms(6,7) p valid_prefix valid_idx by auto
    have "t \<noteq> t0 \<or> i \<noteq> i0"
    proof (rule ccontr)
      assume "\<not> (t \<noteq> t0 \<or> i \<noteq> i0)"
      then have "r = r0 \<and> q = q0" using tree_node(2) [OF assms(1-4) q(1,2)] t by simp
      then show False using assms(8) p \<open>\<not> (t \<noteq> t0 \<or> i \<noteq> i0)\<close> by auto
    qed
    then show ?thesis using assms(5) tree_node(1) [OF assms(1) q(1,2) t] q(3) by blast
  qed
  show "node s' r p = node s r p" by (rule node_cong) (rule link)
  show "p \<noteq> [] \<Longrightarrow> pte s' r p = pte s r p" by (rule pte_cong) (auto intro: link)
qed

lemma mem_ok_step:
  assumes "mem_ok s" and "pmm_inv s'" and "geom s' = geom s"
    and "flags (pgs s' (page_at s 0)) = flags (pgs s (page_at s 0))"
  shows "mem_ok s'"
  using assms geom_eqD [OF assms(3)] by (simp add: mem_ok_def page_simps)

lemma mem_ok_page0: "mem_ok s \<Longrightarrow> page_at s 0 \<notin> free_set s \<and> \<not> used_page (pgs s (page_at s 0))"
  using free_page_idle(1) [of s "page_at s 0"]
  by (auto simp: mem_ok_def pmm_inv_def used_page_def page_simps)

lemma pmm_inv_ram [simp]: "pmm_inv (s\<lparr>ram := m\<rparr>) = pmm_inv s"
  by (simp add: pmm_inv_def pages_ok_def freelist_is_def free_set_def)

lemma zero_frame_fields [simp]:
  "geom (zero_frame t s) = geom s" "pgs (zero_frame t s) = pgs s" "pmm_inv (zero_frame t s) = pmm_inv s"
  "free_set (zero_frame t s) = free_set s"
  by (simp_all add: zero_frame_def free_set_def)

lemma put_ent_fields [simp]:
  "geom (put_ent t i e s) = geom s" "pgs (put_ent t i e s) = pgs s" "pmm_inv (put_ent t i e s) = pmm_inv s"
  "free_set (put_ent t i e s) = free_set s"
  by (simp_all add: put_ent_def free_set_def)

lemma alloc_pt_spec:
  assumes "mem_ok s" and "free_set s \<noteq> {}"
  shows "\<exists>q s1. palloc_page s = Some (q, s1) \<and> alloc_pt s = Some (pfndb_page_to_phys s q, zero_frame (pfndb_page_to_phys s q) s1)
    \<and> pfndb_page_to_phys s q \<noteq> 0 \<and> q \<in> free_set s \<and> mem_ok s1"
proof -
  have inv: "pmm_inv s" using assms(1) by (simp add: mem_ok_def)
  obtain q s1 where q: "palloc_page s = Some (q, s1)" using palloc_page_some [OF inv assms(2)] by blast
  note p = palloc_page_inv [OF inv q]
  then have qs: "q \<in> free_set s" "q \<in> page_ptrs s" "geom s1 = geom s" using free_set_sub by (auto simp: only_page_def)
  have q0: "q \<noteq> 0" using qs(2) page_ptrs_nonzero mem_ok_db [OF assms(1)] by blast
  have ne: "q \<noteq> page_at s 0" using qs(1) mem_ok_page0 [OF assms(1)] by auto
  then have "mem_ok s1" using p by (intro mem_ok_step [OF assms(1)]) (auto simp: only_page_def)
  moreover have "pfndb_page_to_phys s q \<noteq> 0"
  proof
    assume "pfndb_page_to_phys s q = 0"
    moreover have "page_at s 0 \<in> page_ptrs s" by (auto simp: page_ptrs_def)
    moreover have "pfndb_page_to_phys s (page_at s 0) = 0"
      using page_to_phys_at [OF mem_ok_db [OF assms(1)], of 0] by simp
    ultimately show False using page_phys_inj [OF assms(1) qs(2)] ne by metis
  qed
  ultimately show ?thesis
    using q q0 qs geom_eqD(4) [OF qs(3)] by (auto simp: alloc_pt_def zero_frame_def memset_filled Let_def)
qed

section \<open>Adding a table\<close>

lemma present_bit: "e AND VMM_PRESENT = 0 \<longleftrightarrow> \<not> bit e 0"
  unfolding VMM_PRESENT_def by (simp only: bit_iff_and_push_bit_not_eq_0 not_not)

definition link_flags :: "u64 \<Rightarrow> bool" where
  "link_flags cf \<longleftrightarrow> cf AND PAGE_FRAME_MASK = 0 \<and> cf AND VMM_PRESENT \<noteq> 0"

lemma link_entry:
  assumes "frame t" and "link_flags cf"
  shows "(t OR cf) AND VMM_PRESENT \<noteq> 0" and "(t OR cf) AND PAGE_FRAME_MASK = t"
proof -
  show "(t OR cf) AND VMM_PRESENT \<noteq> 0" using assms(2) by (simp add: link_flags_def present_bit bit_or_iff)
  show "(t OR cf) AND PAGE_FRAME_MASK = t"
    using assms by (simp add: link_flags_def frame_def bit.conj_disj_distrib2)
qed

text \<open>What a sequence of allocations changes: free pages may have been taken, every other page is as
  before.\<close>

definition grown :: "nat \<Rightarrow> kmem \<Rightarrow> kmem \<Rightarrow> bool" where
  "grown k s s' \<longleftrightarrow> geom s' = geom s \<and> (\<forall>q \<in> page_ptrs s - free_set s. pgs s' q = pgs s q)
     \<and> free_set s' \<subseteq> free_set s \<and> card (free_set s) \<le> card (free_set s') + k
     \<and> (\<forall>q \<in> free_set s - free_set s'. used_page (pgs s' q) \<and> u2 (pgs s' q) = 0)"

lemma grown_refl: "grown 0 s s"
  by (simp add: grown_def)

lemma grown_trans:
  assumes "grown k s s'" and "grown l s' s''"
  shows "grown (k + l) s s''"
proof -
  have g: "geom s' = geom s" "geom s'' = geom s'" using assms by (simp_all add: grown_def)
  note ptrs = geom_eqD(2) [OF g(1)]
  have "pgs s'' q = pgs s q" if "q \<in> page_ptrs s - free_set s" for q
  proof -
    have "q \<notin> free_set s'" using that assms(1) by (auto simp: grown_def)
    then show ?thesis using that assms ptrs by (simp add: grown_def)
  qed
  moreover have "used_page (pgs s'' q) \<and> u2 (pgs s'' q) = 0" if q: "q \<in> free_set s - free_set s''" for q
  proof (cases "q \<in> free_set s'")
    case True
    then show ?thesis using q assms(2) by (simp add: grown_def)
  next
    case False
    then have "used_page (pgs s' q) \<and> u2 (pgs s' q) = 0" using q assms(1) by (simp add: grown_def)
    moreover have "q \<in> page_ptrs s'" using q free_set_sub ptrs by blast
    ultimately show ?thesis using False assms(2) by (simp add: grown_def)
  qed
  ultimately show ?thesis using assms g by (auto simp: grown_def)
qed

lemma grown_palloc:
  assumes "pmm_inv s" and "palloc_page s = Some (x, s1)"
  shows "grown 1 s s1"
proof -
  note p = palloc_page_inv [OF assms]
  have "finite (free_set s)" using free_set_sub finite_page_ptrs finite_subset by blast
  then have "card (free_set s) = Suc (card (free_set s1))" using p card_Suc_Diff1 by metis
  moreover have "used_page (pgs s1 x) \<and> u2 (pgs s1 x) = 0" using p by (simp add: used_page_def page_simps)
  moreover have "\<forall>q \<in> page_ptrs s - free_set s. pgs s1 q = pgs s q"
    using p unfolding only_page_def by (metis DiffD2)
  ultimately show ?thesis using p by (auto simp: grown_def only_page_def)
qed

lemma grown_cong: "grown k s s1 \<Longrightarrow> geom s' = geom s1 \<Longrightarrow> pgs s' = pgs s1 \<Longrightarrow> grown k s s'"
  using geom_eqD(2) [of s' s1] by (simp add: grown_def free_set_def)

lemma grown_table_page:
  assumes "grown k s s'" and "table_page s t"
  shows "table_page s' t"
proof -
  have g: "geom s' = geom s" using assms(1) by (simp add: grown_def)
  obtain q where q: "q \<in> page_ptrs s" "pfndb_page_to_phys s q = t" "used_page (pgs s q)"
      "refcount (pgs s q) = 1" "u2 (pgs s q) = 0"
    using assms(2) by (auto simp: table_page_def)
  then have "q \<notin> free_set s" by (simp add: free_set_def used_page_def)
  then have "pgs s' q = pgs s q" using assms(1) q(1) by (simp add: grown_def)
  then show ?thesis using q geom_eqD(2,4) [OF g] by (auto simp: table_page_def)
qed

lemma tree_okI:
  assumes "\<And>r p t. valid W r p \<Longrightarrow> length p \<le> 3 \<Longrightarrow> node s r p = Some t \<Longrightarrow> table_page s t"
    and "\<And>r p r' p' t. valid W r p \<Longrightarrow> length p \<le> 3 \<Longrightarrow> node s r p = Some t \<Longrightarrow>
      valid W r' p' \<Longrightarrow> length p' \<le> 3 \<Longrightarrow> node s r' p' = Some t \<Longrightarrow> r' = r \<and> p' = p"
  shows "tree_ok s W"
  using assms unfolding tree_ok_def by blast

definition tables :: "kmem \<Rightarrow> (u64 \<times> u64) set \<Rightarrow> u64 set" where
  "tables s W = {t. \<exists>r p. valid W r p \<and> length p \<le> 3 \<and> node s r p = Some t}"

lemma link_nodes:
  assumes mem: "mem_ok s" and tree: "tree_ok s W"
    and path: "valid W rt (q @ [i])" "length q \<le> 2" "node s rt q = Some t0"
    and absent: "get_ent s t0 i AND VMM_PRESENT = 0" and ft: "frame t" "\<not> table_page s t" and cf: "link_flags cf"
    and ge: "\<And>t1 j. frame t1 \<Longrightarrow> j < 512 \<Longrightarrow>
      get_ent s' t1 j = (if t1 = t0 \<and> j = i then t OR cf else if t1 = t then 0 else get_ent s t1 j)"
  shows "node s' rt (q @ [i]) = Some t"
    and "valid W r p \<Longrightarrow> length p \<le> 3 \<Longrightarrow> node s' r p = Some t1 \<Longrightarrow> node s r p = Some t1 \<or> r = rt \<and> p = q @ [i] \<and> t1 = t"
    and "valid W r p \<Longrightarrow> length p = 4 \<Longrightarrow> pte s' r p = pte s r p"
proof -
  have q: "valid W rt q" "length q \<le> 3" "i < 512" using path valid_prefix valid_idx by auto
  have t0: "table_page s t0" using tree_node(1) [OF tree q(1,2) path(3)] .
  have ne: "t \<noteq> t0" using ft(2) t0 by auto
  have other: "same_link (get_ent s t1 j) (get_ent s' t1 j)" if "table_page s t1" "j < 512" "t1 \<noteq> t0 \<or> j \<noteq> i" for t1 j
    using ge [OF table_page_frame [OF mem that(1)] that(2)] that ft(2) by (auto simp: same_link_def)
  note node_o = node_other [OF tree q(1,2) path(3) other]
  have new: "node s' rt (q @ i # z) = (if z = [] then Some t else None)" "node s rt (q @ i # z) = None"
    if "valid W rt (q @ i # z)" for z
  proof -
    have "node s' rt q = Some t0" using node_o(1) [OF _ _ _ q(1)] q(2) path(3) by auto
    then have "node s' rt (q @ i # z) = node s' t z"
      using ge [OF table_page_frame [OF mem t0] q(3)] link_entry [OF ft(1) cf] by (simp add: node_append)
    moreover have "node s' t z = None" if z: "z = j # z'" for j z'
    proof -
      have "j < 512" using \<open>valid W rt (q @ i # z)\<close> z valid_idx [of W rt "q @ [i]" j z'] by simp
      then show ?thesis using ge [OF ft(1), of j] z ne by simp
    qed
    ultimately show "node s' rt (q @ i # z) = (if z = [] then Some t else None)" by (cases z) simp_all
    show "node s rt (q @ i # z) = None" using path(3) absent by (simp add: node_append)
  qed
  show "node s' rt (q @ [i]) = Some t" using new(1) [of "[]"] path(1) by simp
  show "node s r p = Some t1 \<or> r = rt \<and> p = q @ [i] \<and> t1 = t" if "valid W r p" "length p \<le> 3" "node s' r p = Some t1"
  proof (cases "r = rt \<and> prefix (q @ [i]) p")
    case True
    then obtain z where "p = q @ i # z" by (auto elim: prefixE)
    then show ?thesis using new(1) [of z] True that by (auto split: if_splits)
  next
    case False
    then show ?thesis using node_o(1) [OF _ _ _ that(1)] that by auto
  qed
  show "pte s' r p = pte s r p" if "valid W r p" "length p = 4"
  proof (cases "r = rt \<and> prefix (q @ [i]) p")
    case True
    then obtain z where z: "p = q @ i # z" by (auto elim: prefixE)
    then have "z \<noteq> []" using path(2) that(2) by auto
    then obtain y j where y: "z = y @ [j]" by (metis rev_exhaust)
    have v: "valid W rt (q @ i # y)" "j < 512"
      using that(1) True z y valid_prefix [of W rt "q @ i # y" "[j]"] valid_idx [of W rt "q @ i # y" j "[]"] by auto
    have "get_ent s' t j = 0" using ge [OF ft(1) v(2)] ne by simp
    moreover have "p = (q @ i # y) @ [j]" using z y by simp
    ultimately show ?thesis using new [OF v(1)] True by (simp only: pte_snoc) (auto split: if_splits)
  next
    case False
    then show ?thesis using node_o(2) [OF _ _ _ that(1)] that(2) by force
  qed
qed

lemma tree_add:
  assumes mem: "mem_ok s" and tree: "tree_ok s W"
    and path: "valid W rt (q @ [i])" "length q \<le> 2" "node s rt q = Some t0"
    and absent: "get_ent s t0 i AND VMM_PRESENT = 0"
    and x: "palloc_page s = Some (x, s1)" and t: "t = pfndb_page_to_phys s x" and cf: "link_flags cf"
    and s': "s' = put_ent t0 i (t OR cf) (zero_frame t s1)"
  shows "node s' rt (q @ [i]) = Some t" and "tree_ok s' W" and "tables s' W \<subseteq> insert t (tables s W)"
    and "valid W r p \<Longrightarrow> length p = 4 \<Longrightarrow> pte s' r p = pte s r p"
proof -
  have inv: "pmm_inv s" using mem by (simp add: mem_ok_def)
  note px = palloc_page_inv [OF inv x]
  have xs: "x \<in> page_ptrs s" "x \<in> free_set s" "geom s1 = geom s" using px free_set_sub by (auto simp: only_page_def)
  have ft: "frame t" using page_phys(1) [OF mem xs(1)] t by simp
  have q: "valid W rt q" "length q \<le> 3" "i < 512" using path valid_prefix valid_idx by auto
  have t0: "table_page s t0" using tree_node(1) [OF tree q(1,2) path(3)] .
  have nt: "\<not> table_page s t" using table_page_not_free [OF mem] xs(1,2) t by blast
  have ents: "get_ent s1 = get_ent s" using px by (intro ext) (simp add: get_ent_def)
  have ge: "get_ent s' t1 j = (if t1 = t0 \<and> j = i then t OR cf else if t1 = t then 0 else get_ent s t1 j)"
    if "frame t1" "j < 512" for t1 j
    using get_put_ent [OF table_page_frame [OF mem t0] that(1) q(3) that(2)]
      get_ent_zero_frame [OF that(1) ft that(2), of s1] ents
    by (auto simp: s')
  note nodes = link_nodes [OF mem tree path absent ft nt cf ge]
  show "node s' rt (q @ [i]) = Some t" by (rule nodes(1)) auto
  show "pte s' r p = pte s r p" if "valid W r p" "length p = 4" using that by (intro nodes(3)) auto
  show "tables s' W \<subseteq> insert t (tables s W)"
  proof
    fix t1 assume "t1 \<in> tables s' W"
    then obtain r p where "valid W r p" "length p \<le> 3" "node s' r p = Some t1" by (auto simp: tables_def)
    then show "t1 \<in> insert t (tables s W)" using nodes(2) [of r p t1] by (auto simp: tables_def)
  qed
  have grown: "grown 1 s s'" by (rule grown_cong [OF grown_palloc [OF inv x]]) (simp_all add: s')
  have tx: "table_page s' t"
    using px xs geom_eqD(2,4) [of s' s] t by (auto simp: table_page_def s' used_page_def page_simps)
  show "tree_ok s' W"
  proof (rule tree_okI)
    show "table_page s' t1" if "valid W r p" "length p \<le> 3" "node s' r p = Some t1" for r p t1
      using that nodes(2) tree_node(1) [OF tree] grown_table_page [OF grown] tx by blast
    show "r' = r \<and> p' = p" if "valid W r p" "length p \<le> 3" "node s' r p = Some t1" "valid W r' p'" "length p' \<le> 3"
        "node s' r' p' = Some t1" for r p r' p' t1
      using that nodes(2) tree_node [OF tree] nt by metis
  qed
qed

lemma grown_mono: "grown k s s' \<Longrightarrow> k \<le> l \<Longrightarrow> grown l s s'"
  by (auto simp: grown_def)

lemma table_next_create:
  assumes mem: "mem_ok s" and tree: "tree_ok s W" and path: "valid W r (p @ [i])" "length p \<le> 2" "node s r p = Some t0"
    and cf: "link_flags cf" and free: "free_set s \<noteq> {}"
  shows "\<exists>t s'. table_next t0 i cf s = Some (Some t, s') \<and> node s' r (p @ [i]) = Some t \<and> mem_ok s' \<and> tree_ok s' W
    \<and> grown 1 s s' \<and> tables s' W \<subseteq> tables s W \<union> pfndb_page_to_phys s ` free_set s
    \<and> (\<forall>r p. valid W r p \<longrightarrow> length p = 4 \<longrightarrow> pte s' r p = pte s r p)"
proof (cases "get_ent s t0 i AND VMM_PRESENT = 0")
  case False
  then show ?thesis
    using mem tree path(3) grown_mono [OF grown_refl, of 1 s] by (auto simp: table_next_def node_snoc Let_def)
next
  case True
  obtain x s1 where x: "palloc_page s = Some (x, s1)" "pfndb_page_to_phys s x \<noteq> 0" "mem_ok s1"
      "alloc_pt s = Some (pfndb_page_to_phys s x, zero_frame (pfndb_page_to_phys s x) s1)" "x \<in> free_set s"
    using alloc_pt_spec [OF mem free] by blast
  let ?t = "pfndb_page_to_phys s x"
  let ?s' = "put_ent t0 i (?t OR cf) (zero_frame ?t s1)"
  note add = tree_add [OF mem tree path True x(1) refl cf refl]
  have inv: "pmm_inv s" using mem by (simp add: mem_ok_def)
  have "grown 1 s ?s'" by (rule grown_cong [OF grown_palloc [OF inv x(1)]]) simp_all
  moreover have "mem_ok ?s'"
    by (rule mem_ok_step [OF x(3)]) (use x(3) in \<open>simp_all add: mem_ok_def\<close>)
  moreover have "cf \<noteq> 0" using cf by (auto simp: link_flags_def)
  moreover have "tables ?s' W \<subseteq> tables s W \<union> pfndb_page_to_phys s ` free_set s" using add(3) x(5) by blast
  moreover have "table_next t0 i cf s = Some (Some ?t, ?s')"
    using True x(2,4) \<open>cf \<noteq> 0\<close> by (simp add: table_next_def)
  ultimately show ?thesis using add(1,2,4) by blast
qed

definition vpath :: "u64 \<Rightarrow> u64 list" where
  "vpath v = [pml4_idx v, pml3_idx v, pml2_idx v, pml1_idx v]"

lemma leaf_entry_create:
  assumes mem: "mem_ok s" and tree: "tree_ok s W" and path: "valid W r (vpath v)" and cf: "link_flags cf"
    and free: "3 \<le> card (free_set s)"
  shows "\<exists>t s'. leaf_entry r v cf s = Some (Some (t, pml1_idx v), s') \<and> node s' r [pml4_idx v, pml3_idx v, pml2_idx v] = Some t
    \<and> mem_ok s' \<and> tree_ok s' W \<and> grown 3 s s' \<and> tables s' W \<subseteq> tables s W \<union> pfndb_page_to_phys s ` free_set s
    \<and> (\<forall>r p. valid W r p \<longrightarrow> length p = 4 \<longrightarrow> pte s' r p = pte s r p)"
proof -
  have v: "valid W r ([] @ [pml4_idx v])" "valid W r ([pml4_idx v] @ [pml3_idx v])"
      "valid W r ([pml4_idx v, pml3_idx v] @ [pml2_idx v])"
    using path by (auto simp: vpath_def valid_def)
  have ne: "free_set z \<noteq> {}" if "1 \<le> card (free_set z)" for z using that by auto
  obtain t3 s3 where 3: "table_next r (pml4_idx v) cf s = Some (Some t3, s3)" "node s3 r ([] @ [pml4_idx v]) = Some t3"
      "mem_ok s3" "tree_ok s3 W" "grown 1 s s3" "tables s3 W \<subseteq> tables s W \<union> pfndb_page_to_phys s ` free_set s"
      "\<forall>r p. valid W r p \<longrightarrow> length p = 4 \<longrightarrow> pte s3 r p = pte s r p"
    using table_next_create [OF mem tree v(1) _ _ cf ne, of r] free by auto
  have c3: "2 \<le> card (free_set s3)" using 3(5) free by (simp add: grown_def)
  obtain t2 s2 where 2: "table_next t3 (pml3_idx v) cf s3 = Some (Some t2, s2)" "node s2 r ([pml4_idx v] @ [pml3_idx v]) = Some t2"
      "mem_ok s2" "tree_ok s2 W" "grown 1 s3 s2" "tables s2 W \<subseteq> tables s3 W \<union> pfndb_page_to_phys s3 ` free_set s3"
      "\<forall>r p. valid W r p \<longrightarrow> length p = 4 \<longrightarrow> pte s2 r p = pte s3 r p"
    using table_next_create [OF 3(3,4) v(2) _ _ cf ne, of t3] c3 3(2) by auto
  have c2: "1 \<le> card (free_set s2)" using 2(5) c3 by (simp add: grown_def)
  obtain t1 s1 where 1: "table_next t2 (pml2_idx v) cf s2 = Some (Some t1, s1)" "node s1 r ([pml4_idx v, pml3_idx v] @ [pml2_idx v]) = Some t1"
      "mem_ok s1" "tree_ok s1 W" "grown 1 s2 s1" "tables s1 W \<subseteq> tables s2 W \<union> pfndb_page_to_phys s2 ` free_set s2"
      "\<forall>r p. valid W r p \<longrightarrow> length p = 4 \<longrightarrow> pte s1 r p = pte s2 r p"
    using table_next_create [OF 2(3,4) v(3) _ _ cf ne [OF c2], of t2] 2(2) by auto
  have "grown 3 s s1" using grown_trans [OF grown_trans [OF 3(5) 2(5)] 1(5)] by (simp add: numeral_3_eq_3)
  moreover have "tables s1 W \<subseteq> tables s W \<union> pfndb_page_to_phys s ` free_set s"
  proof -
    have "geom s3 = geom s" "geom s2 = geom s" "free_set s3 \<subseteq> free_set s" "free_set s2 \<subseteq> free_set s"
      using 3(5) 2(5) by (auto simp: grown_def)
    then have "pfndb_page_to_phys s3 ` free_set s3 \<subseteq> pfndb_page_to_phys s ` free_set s"
      "pfndb_page_to_phys s2 ` free_set s2 \<subseteq> pfndb_page_to_phys s ` free_set s"
      using geom_eqD(4) [of s3 s] geom_eqD(4) [of s2 s] by auto
    note le = this [THEN Un_mono [OF subset_refl]]
    show ?thesis
      using subset_trans [OF 1(6) le(2)] subset_trans [OF 2(6) le(1)] 3(6) by (meson Un_least Un_upper2 subset_trans)
  qed
  moreover have "leaf_entry r v cf s = Some (Some (t1, pml1_idx v), s1)"
    using 1(1) 2(1) 3(1) by (simp add: leaf_entry_def)
  moreover have "\<forall>r p. valid W r p \<longrightarrow> length p = 4 \<longrightarrow> pte s1 r p = pte s r p" using 1(7) 2(7) 3(7) by simp
  ultimately show ?thesis using 1(2,3,4) by auto
qed

lemma mapset_cong:
  assumes "geom s' = geom s" and "\<And>r p. valid W r p \<Longrightarrow> length p = 4 \<Longrightarrow> pte s' r p = pte s r p"
  shows "mapset s' W q = mapset s W q"
  using assms(2) geom_eqD(5) [OF assms(1)] by (auto simp: mapset_def)

lemma count_grown:
  assumes "count_ok s W" and "grown k s s'"
    and "\<And>r p. valid W r p \<Longrightarrow> length p = 4 \<Longrightarrow> pte s' r p = pte s r p"
  shows "count_ok s' W"
  unfolding count_ok_def
proof
  have g: "geom s' = geom s" using assms(2) by (simp add: grown_def)
  note ms = mapset_cong [OF g assms(3)]
  fix q assume "q \<in> page_ptrs s'"
  then have q: "q \<in> page_ptrs s" using geom_eqD(2) [OF g] by simp
  show "if used_page (pgs s' q)
     then card (mapset s' W q) \<le> unat (u2 (pgs s' q)) \<and> unat (u2 (pgs s' q)) \<le> unat (refcount (pgs s' q))
     else mapset s' W q = {}"
  proof (cases "q \<in> free_set s")
    case False
    then show ?thesis using assms(1,2) q by (simp add: ms count_ok_def grown_def)
  next
    case True
    then have "\<not> used_page (pgs s q)" by (simp add: free_set_def used_page_def)
    then have e: "mapset s W q = {}" using assms(1) q by (simp add: count_ok_def)
    show ?thesis
    proof (cases "q \<in> free_set s'")
      case True
      then have "\<not> used_page (pgs s' q)" by (simp add: free_set_def used_page_def)
      then show ?thesis using e by (simp add: ms)
    next
      case False
      then show ?thesis using e True assms(2) by (simp add: ms grown_def)
    qed
  qed
qed

section \<open>Writing a leaf entry\<close>

lemma page_at_0_not_used: "mem_ok s \<Longrightarrow> q \<in> page_ptrs s \<Longrightarrow> used_page (pgs s q) \<Longrightarrow> pfndb_page_to_phys s q \<noteq> 0"
proof
  assume s: "mem_ok s" "q \<in> page_ptrs s" "used_page (pgs s q)" "pfndb_page_to_phys s q = 0"
  have "page_at s 0 \<in> page_ptrs s" by (auto simp: page_ptrs_def)
  moreover have "pfndb_page_to_phys s (page_at s 0) = 0"
    using page_to_phys_at [OF mem_ok_db [OF s(1)], of 0] by simp
  ultimately have "q = page_at s 0" using page_phys_inj [OF s(1,2)] s(4) by metis
  then show False using mem_ok_page0 [OF s(1)] s(3) by simp
qed

lemma root_nonzero:
  assumes "mem_ok s" and "tree_ok s W" and "valid W r p"
  shows "r \<noteq> 0"
proof -
  have "valid W r []" using assms(3) valid_prefix [of W r "[]" p] by simp
  then have "table_page s r" using tree_node(1) [OF assms(2), of r "[]" r] by simp
  then show ?thesis using page_at_0_not_used [OF assms(1)] by (auto simp: table_page_def)
qed

lemma tree_leaf_put:
  assumes mem: "mem_ok s" and tree: "tree_ok s W"
    and path: "valid W r0 (q0 @ [i0])" "length q0 = 3" "node s r0 q0 = Some t0"
  shows "valid W r p \<Longrightarrow> length p \<le> 3 \<Longrightarrow> node (put_ent t0 i0 e s) r p = node s r p"
    and "valid W r p \<Longrightarrow> length p = 4 \<Longrightarrow> pte (put_ent t0 i0 e s) r p
      = (if r = r0 \<and> p = q0 @ [i0] then (if e AND VMM_PRESENT = 0 then 0 else e) else pte s r p)"
    and "tree_ok (put_ent t0 i0 e s) W" and "tables (put_ent t0 i0 e s) W = tables s W"
proof -
  let ?s' = "put_ent t0 i0 e s"
  have q0: "valid W r0 q0" "length q0 \<le> 3" "i0 < 512" using path valid_prefix valid_idx by auto
  have t0: "table_page s t0" using tree_node(1) [OF tree q0(1,2) path(3)] .
  have ge: "get_ent ?s' t1 i = (if t1 = t0 \<and> i = i0 then e else get_ent s t1 i)"
    if "table_page s t1" "i < 512" for t1 i
    using get_put_ent [OF table_page_frame [OF mem t0] table_page_frame [OF mem that(1)] q0(3) that(2)] by simp
  then have other: "same_link (get_ent s t1 i) (get_ent ?s' t1 i)" if "table_page s t1" "i < 512" "t1 \<noteq> t0 \<or> i \<noteq> i0" for t1 i
    using that by (auto simp: same_link_def)
  note node_o = node_other [OF tree q0(1,2) path(3) other]
  have len: "\<not> prefix (q0 @ [i0]) p" if "length p \<le> 3" for p :: "u64 list"
    using prefix_length_le [of "q0 @ [i0]" p] that path(2) by auto
  show node: "node ?s' r p = node s r p" if "valid W r p" "length p \<le> 3" for r p
    using node_o(1) [OF _ _ _ that(1)] that(2) len [OF that(2)] by auto
  show "pte ?s' r p = (if r = r0 \<and> p = q0 @ [i0] then (if e AND VMM_PRESENT = 0 then 0 else e) else pte s r p)"
    if "valid W r p" "length p = 4"
  proof (cases "r = r0 \<and> p = q0 @ [i0]")
    case True
    then show ?thesis using node [OF q0(1,2)] path(3) ge [OF t0 q0(3)] by (simp add: pte_snoc)
  next
    case False
    then have "\<not> (r = r0 \<and> prefix (q0 @ [i0]) p)"
      using that(2) path(2) by (auto simp: prefix_def)
    moreover have "p \<noteq> []" using that(2) by auto
    ultimately show ?thesis using node_o(2) [OF _ _ _ that(1)] that(2) False by auto
  qed
  have tp: "table_page ?s' t = table_page s t" for t
    using geom_eqD(2,4) [OF put_ent_fields(1)] by (simp add: table_page_def)
  show "tree_ok ?s' W"
    using tree unfolding tree_ok_def tp by (metis node)
  show "tables ?s' W = tables s W" by (simp add: tables_def node cong: conj_cong)
qed

section \<open>Reading an entry\<close>

lemma bit_align_down: "bit (ALIGN_DOWN v PAGE_SIZE) n \<longleftrightarrow> 12 \<le> n \<and> bit v n"
proof -
  have "ALIGN_DOWN v PAGE_SIZE = push_bit 12 (drop_bit 12 v)"
    by (simp add: ALIGN_DOWN_def push_bit_eq_mult drop_bit_eq_div)
  then show ?thesis using bit_imp_le_length [of v n] by (auto simp: bit_push_bit_iff bit_drop_bit_eq)
qed

lemma idx_align [simp]:
  "pml1_idx (ALIGN_DOWN v PAGE_SIZE) = pml1_idx v" "pml2_idx (ALIGN_DOWN v PAGE_SIZE) = pml2_idx v"
  "pml3_idx (ALIGN_DOWN v PAGE_SIZE) = pml3_idx v" "pml4_idx (ALIGN_DOWN v PAGE_SIZE) = pml4_idx v"
  unfolding pml1_idx_def pml2_idx_def pml3_idx_def pml4_idx_def
  by (rule bit_word_eqI, auto simp: bit_and_iff bit_drop_bit_eq bit_align_down)+

lemma vpath_align [simp]: "vpath (ALIGN_DOWN v PAGE_SIZE) = vpath v"
  by (simp add: vpath_def)

definition upath :: "u64 \<Rightarrow> u64 list" where
  "upath v = [pml4_idx v, pml3_idx v, pml2_idx v]"

lemma vpath_upath: "vpath v = upath v @ [pml1_idx v]" and length_upath [simp]: "length (upath v) = 3"
  by (simp_all add: vpath_def upath_def)

lemma upath_align [simp]: "upath (ALIGN_DOWN v PAGE_SIZE) = upath v"
  by (simp add: upath_def)

lemma leaf_entry_lookup: "leaf_entry r v 0 s = Some (map_option (\<lambda>t. (t, pml1_idx v)) (node s r (upath v)), s)"
  by (simp add: leaf_entry_def table_next_def upath_def Let_def)

lemma get_phys_pte:
  assumes "pt \<noteq> 0"
  shows "get_phys pt v s
    = Some (if pte s pt (vpath v) = 0 then 0 else (pte s pt (vpath v) AND PAGE_FRAME_MASK) + (v AND (PAGE_SIZE - 1)))"
  using assms by (auto simp: get_phys_def leaf_entry_lookup vpath_upath pte_snoc split: option.splits)

lemma get_mapping_flags_pte:
  assumes "pt \<noteq> 0"
  shows "get_mapping_flags pt v s = Some (pte s pt (vpath v) AND NOT PAGE_FRAME_MASK)"
  using assms by (auto simp: get_mapping_flags_def leaf_entry_lookup vpath_upath pte_snoc split: option.splits)

section \<open>Counts of mappings\<close>

text \<open>Changing one leaf entry changes the set of slots that map a page by at most that slot.\<close>

lemma mapset_put:
  assumes "geom s' = geom s" and "valid W r0 p0" and "length p0 = 4"
    and "\<And>r p. valid W r p \<Longrightarrow> length p = 4 \<Longrightarrow> pte s' r p = (if r = r0 \<and> p = p0 then e else pte s r p)"
  shows "mapset s' W q = (if e \<noteq> 0 \<and> pfndb_phys_to_page s (e AND PAGE_FRAME_MASK) = q
    then insert (r0, p0) (mapset s W q) else mapset s W q - {(r0, p0)})"
  using assms(2-4) geom_eqD(5) [OF assms(1)] by (auto simp: mapset_def split: if_splits)

lemma mapped_page:
  assumes "vm_ok s W" and "valid W r p" and "length p = 4" and "pte s r p \<noteq> 0"
    and "q = pfndb_phys_to_page s (pte s r p AND PAGE_FRAME_MASK)" and "q \<noteq> 0"
  shows "q \<in> page_ptrs s" "used_page (pgs s q)" "0 < u2 (pgs s q)" "unat (u2 (pgs s q)) \<le> unat (refcount (pgs s q))"
    "card (mapset s W q) \<le> unat (u2 (pgs s q))" "(r, p) \<in> mapset s W q"
proof -
  have fin: "finite W" and mem: "mem_ok s" and cnt: "count_ok s W" using assms(1) by (auto simp: vm_ok_def)
  show q: "q \<in> page_ptrs s" using phys_page(1) [OF mem] assms(5,6) by simp
  show m: "(r, p) \<in> mapset s W q" using assms by (simp add: mapset_def)
  show u: "used_page (pgs s q)" using cnt q m unfolding count_ok_def by (metis empty_iff)
  then show "unat (u2 (pgs s q)) \<le> unat (refcount (pgs s q))" "card (mapset s W q) \<le> unat (u2 (pgs s q))"
    using cnt q by (auto simp: count_ok_def)
  moreover have "0 < card (mapset s W q)" using m finite_mapset [OF fin] card_gt_0_iff by blast
  ultimately show "0 < u2 (pgs s q)" by (simp add: word_less_nat_alt)
qed

section \<open>Mapping a page\<close>

lemma bit_leaf_value: "bit (leaf_value phys fl) n \<longleftrightarrow> bit phys n \<or> bit fl n \<and> \<not> bit PAGE_FRAME_MASK n \<and> n < 64 \<or> n = 0"
  unfolding leaf_value_def VMM_PRESENT_def using bit_imp_le_length [of fl n]
  by (auto simp: bit_or_iff bit_and_iff bit_not_iff bit_push_bit_iff bit_1_iff)

lemma leaf_value_present: "leaf_value phys fl AND VMM_PRESENT \<noteq> 0" "leaf_value phys fl \<noteq> 0"
proof -
  have "bit (leaf_value phys fl) 0" by (simp add: bit_leaf_value)
  then show "leaf_value phys fl AND VMM_PRESENT \<noteq> 0" "leaf_value phys fl \<noteq> 0" by (auto simp: present_bit)
qed

lemma leaf_value_frame:
  assumes "frame phys"
  shows "leaf_value phys fl AND PAGE_FRAME_MASK = phys"
proof (rule bit_word_eqI)
  fix n assume "n < LENGTH(64)"
  have "bit phys n \<Longrightarrow> bit PAGE_FRAME_MASK n" using assms unfolding frame_def by (metis bit_and_iff)
  then show "bit (leaf_value phys fl AND PAGE_FRAME_MASK) n = bit phys n"
    by (auto simp: bit_and_iff bit_leaf_value bit_frame_mask)
qed

lemma table_flags_link: "link_flags (table_flags fl)"
  by (simp add: link_flags_def table_flags_def VMM_PRESENT_def VMM_WRITABLE_def VMM_USER_def PAGE_FRAME_MASK_def)


lemma node_upd_page [simp]: "node (upd_page q f s) = node s" and pte_upd_page [simp]: "pte (upd_page q f s) = pte s"
  and get_ent_upd_page [simp]: "get_ent (upd_page q f s) = get_ent s"
proof -
  show ge: "get_ent (upd_page q f s) = get_ent s" by (intro ext) (simp add: get_ent_def)
  have "node (upd_page q f s) t p = node s t p" for t p by (induction p arbitrary: t) (simp_all add: ge)
  then show n: "node (upd_page q f s) = node s" by (intro ext)
  show "pte (upd_page q f s) = pte s" by (intro ext) (simp add: pte_def n ge split: option.split)
qed

lemma tables_upd_page [simp]: "tables (upd_page q f s) W = tables s W"
  by (simp add: tables_def)

lemma tree_ok_upd_page:
  assumes "mem_ok s" and "tree_ok s W" and "q \<in> page_ptrs s" and "pfndb_page_to_phys s q \<notin> tables s W"
  shows "tree_ok (upd_page q f s) W"
proof (rule tree_okI)
  fix r p t assume p: "valid W r p" "length p \<le> 3" "node (upd_page q f s) r p = Some t"
  then have "t \<in> tables s W" by (auto simp: tables_def)
  moreover obtain x where x: "x \<in> page_ptrs s" "pfndb_page_to_phys s x = t" "used_page (pgs s x)"
      "refcount (pgs s x) = 1" "u2 (pgs s x) = 0"
    using tree_node(1) [OF assms(2) p(1,2)] p(3) by (auto simp: table_page_def)
  ultimately have "x \<noteq> q" using assms(4) by auto
  then show "table_page (upd_page q f s) t"
    using x geom_eqD(4) [of "upd_page q f s" s] by (auto simp: table_page_def)
next
  fix r p r' p' t
  assume "valid W r p" "length p \<le> 3" "node (upd_page q f s) r p = Some t"
    "valid W r' p'" "length p' \<le> 3" "node (upd_page q f s) r' p' = Some t"
  then show "r' = r \<and> p' = p" using tree_node(2) [OF assms(2)] unfolding node_upd_page by blast
qed

lemma mem_ok_upd_page:
  assumes "mem_ok s" and "q \<in> page_ptrs s" and "used_page (pgs s q)" and "used_page (f (pgs s q))"
  shows "mem_ok (upd_page q f s)"
proof (rule mem_ok_step [OF assms(1)])
  show "pmm_inv (upd_page q f s)" using upd_used_inv assms by (simp add: mem_ok_def)
  have "q \<noteq> page_at s 0" using mem_ok_page0 [OF assms(1)] assms(3) by auto
  then show "flags (pgs (upd_page q f s) (page_at s 0)) = flags (pgs s (page_at s 0))" by simp
qed simp

text \<open>The two counts that a mapping adds to a page.\<close>

definition mapped_once :: "page \<Rightarrow> page" where
  "mapped_once p = (let q = share_page p in q\<lparr>refcount := refcount q + 1\<rparr>)"

lemma mapped_once_fields:
  "u2 (mapped_once p) = u2 p + 1" "refcount (mapped_once p) = refcount p + 1"
  by (simp_all add: mapped_once_def share_page_def Let_def)

lemma mapped_once_used:
  assumes "used_page p" and "unat (u2 p) \<le> unat (refcount p)" and "refcount p + 1 \<noteq> 0"
  shows "used_page (share_page p)" "used_page (mapped_once p)"
    "unat (u2 (mapped_once p)) = Suc (unat (u2 p))" "unat (refcount (mapped_once p)) = Suc (unat (refcount p))"
proof -
  have "unat (refcount p) < 2 ^ 32" using unsigned_less [of "refcount p", where 'a = nat] by simp
  then have u2: "unat (u2 p + 1) = Suc (unat (u2 p))" using assms(2) by (simp add: unat_word_ariths)
  then have "u2 p + 1 \<noteq> 0" by (metis nat.distinct(1) unat_0)
  then show us: "used_page (share_page p)" by (rule share_step [OF assms(1)])
  have "refcount (share_page p) = refcount p" by (simp add: share_page_def Let_def)
  then show "used_page (mapped_once p)"
    using used_page_updates(1) [OF us] assms(3) by (simp add: mapped_once_def Let_def)
  show "unat (u2 (mapped_once p)) = Suc (unat (u2 p))" by (simp add: mapped_once_fields u2)
  have "Suc (unat (refcount p)) \<noteq> 2 ^ 32"
  proof
    assume "Suc (unat (refcount p)) = 2 ^ 32"
    then have "unat (refcount p + 1) = 0" by (simp add: unat_word_ariths)
    then show False using assms(3) by (simp add: unat_eq_zero)
  qed
  then have "unat (refcount p + 1) = Suc (unat (refcount p))"
    using \<open>unat (refcount p) < 2 ^ 32\<close> by (simp add: unat_word_ariths)
  then show "unat (refcount (mapped_once p)) = Suc (unat (refcount p))" by (simp add: mapped_once_fields)
qed

lemma share_ref:
  assumes "used_page (pgs s q)" and "q \<noteq> 0" and "used_page (share_page (pgs s q))"
  shows "Option.bind (page_share q s) (page_ref q) = Some (upd_page q mapped_once s)"
proof -
  have "page_share q s = Some (upd_page q share_page s)" using used_page_valid [OF assms(1,2)] by (simp add: page_share_eq)
  moreover have "page_ref q (upd_page q share_page s) = Some (upd_page q mapped_once s)"
    using used_page_valid [of "upd_page q share_page s" q] assms(2,3)
    by (simp add: page_ref_def) (simp add: upd_page_def mapped_once_def Let_def)
  ultimately show ?thesis by simp
qed

lemma count_mapped:
  assumes cnt: "count_ok s W" and fin: "finite W" and g: "geom s' = geom s"
    and path: "valid W rt (vpath va)" and absent: "pte s rt (vpath va) = 0"
    and pte': "\<And>r p. valid W r p \<Longrightarrow> length p = 4 \<Longrightarrow> pte s' r p = (if r = rt \<and> p = vpath va then e else pte s r p)"
    and e: "e \<noteq> 0" "pfndb_phys_to_page s (e AND PAGE_FRAME_MASK) = page"
    and page: "used_page (pgs s page)" "used_page (mapped_once (pgs s page))"
      "unat (u2 (mapped_once (pgs s page))) = Suc (unat (u2 (pgs s page)))"
      "unat (refcount (mapped_once (pgs s page))) = Suc (unat (refcount (pgs s page)))"
    and pgs': "pgs s' = (pgs s)(page := mapped_once (pgs s page))"
  shows "count_ok s' W"
  unfolding count_ok_def
proof
  fix q assume "q \<in> page_ptrs s'"
  then have q: "q \<in> page_ptrs s" using geom_eqD(2) [OF g] by simp
  have "length (vpath va) = 4" by (simp add: vpath_def)
  note ms = mapset_put [OF g path this pte', of q]
  have "(rt, vpath va) \<notin> mapset s W q" using absent by (simp add: mapset_def)
  then have ms': "mapset s' W q = (if page = q then insert (rt, vpath va) (mapset s W q) else mapset s W q)"
    using ms e by simp
  have c: "if used_page (pgs s q)
     then card (mapset s W q) \<le> unat (u2 (pgs s q)) \<and> unat (u2 (pgs s q)) \<le> unat (refcount (pgs s q))
     else mapset s W q = {}"
    using cnt q by (auto simp: count_ok_def)
  show "if used_page (pgs s' q)
     then card (mapset s' W q) \<le> unat (u2 (pgs s' q)) \<and> unat (u2 (pgs s' q)) \<le> unat (refcount (pgs s' q))
     else mapset s' W q = {}"
    using c ms' page finite_mapset [OF fin, of s q] by (cases "q = page") (simp_all add: pgs' card_insert_if)
qed

lemma map_page_spec:
  assumes vm: "vm_ok s W" and path: "valid W pt (vpath v)" and absent: "pte s pt (vpath v) = 0"
    and page: "page \<in> page_ptrs s" "used_page (pgs s page)" "refcount (pgs s page) + 1 \<noteq> 0"
      "pfndb_page_to_phys s page \<notin> tables s W"
    and free: "3 \<le> card (free_set s)"
  shows "\<exists>s'. map_page pt v page fl s = Some s' \<and> vm_ok s' W \<and> geom s' = geom s
    \<and> (\<forall>r p. valid W r p \<longrightarrow> length p = 4 \<longrightarrow> pte s' r p
         = (if r = pt \<and> p = vpath v then leaf_value (pfndb_page_to_phys s page) fl else pte s r p))
    \<and> pgs s' page = mapped_once (pgs s page)
    \<and> (\<forall>q \<in> page_ptrs s - free_set s - {page}. pgs s' q = pgs s q)
    \<and> card (free_set s) \<le> card (free_set s') + 3"
proof -
  let ?phys = "pfndb_page_to_phys s page"
  have mem: "mem_ok s" and tree: "tree_ok s W" and cnt: "count_ok s W" and fin: "finite W"
    using vm by (auto simp: vm_ok_def)
  have pt0: "pt \<noteq> 0" using root_nonzero [OF mem tree path] .
  have pg: "page \<noteq> 0" "page \<notin> free_set s" "frame ?phys"
    using page_ptrs_nonzero [OF mem_ok_db [OF mem] page(1)] page(1,2) page_phys(1) [OF mem]
    by (auto simp: free_set_def used_page_def)
  have path': "valid W pt (vpath (ALIGN_DOWN v PAGE_SIZE))" using path by simp
  obtain t s1 where 1: "leaf_entry pt (ALIGN_DOWN v PAGE_SIZE) (table_flags fl) s = Some (Some (t, pml1_idx v), s1)"
      "node s1 pt (upath v) = Some t" "mem_ok s1" "tree_ok s1 W" "grown 3 s s1"
      "tables s1 W \<subseteq> tables s W \<union> pfndb_page_to_phys s ` free_set s"
      "\<And>r p. valid W r p \<Longrightarrow> length p = 4 \<Longrightarrow> pte s1 r p = pte s r p"
    using leaf_entry_create [OF mem tree path' table_flags_link [of fl] free, folded upath_def, unfolded idx_align upath_align]
    by blast
  have g1: "geom s1 = geom s" and pgs1: "\<forall>q \<in> page_ptrs s - free_set s. pgs s1 q = pgs s q"
    using 1(5) by (auto simp: grown_def)
  note cnt1 = count_grown [OF cnt 1(5,7)]
  have pp: "pgs s1 page = pgs s page" "page \<in> page_ptrs s1" "pfndb_page_to_phys s1 = pfndb_page_to_phys s"
    using pgs1 page(1) pg(2) geom_eqD [OF g1] by auto
  have nt: "?phys \<notin> tables s1 W"
    using 1(6) page(4) pg(2) page_phys_inj [OF mem page(1)] free_set_sub by blast
  have "get_ent s1 t (pml1_idx v) AND VMM_PRESENT = 0"
    using 1(7) [OF path] absent 1(2) by (auto simp: vpath_upath pte_snoc split: if_splits)
  moreover have le: "unat (u2 (pgs s page)) \<le> unat (refcount (pgs s page))"
    using cnt page(1,2) by (auto simp: count_ok_def)
  note used = mapped_once_used [OF page(2) le page(3)]
  define s2 where "s2 = put_ent t (pml1_idx v) (leaf_value ?phys fl) s1"
  define s' where "s' = upd_page page mapped_once s2"
  have p2: "pgs s2 = pgs s1" "geom s2 = geom s1" by (simp_all add: s2_def)
  have "Option.bind (page_share page s2) (page_ref page) = Some s'"
    unfolding s'_def using page(2) pg(1) used(1) pp(1) p2(1) by (intro share_ref) simp_all
  ultimately have "map_page pt v page fl s = Some s'"
    using pt0 pg(1) 1(1) by (simp add: map_page_def s2_def)
  have leaf: "valid W pt (upath v @ [pml1_idx v])" using path by (simp add: vpath_upath)
  note put = tree_leaf_put [OF 1(3,4) leaf length_upath 1(2), where e = "leaf_value ?phys fl", folded s2_def]
  have mem2: "mem_ok s2" by (rule mem_ok_step [OF 1(3)]) (use 1(3) in \<open>simp_all add: s2_def mem_ok_def\<close>)
  have pte': "pte s' r p = (if r = pt \<and> p = vpath v then leaf_value ?phys fl else pte s r p)"
    if "valid W r p" "length p = 4" for r p
    using put(2) [OF that] 1(7) [OF that] leaf_value_present by (simp add: s'_def vpath_upath)
  have g': "geom s' = geom s" using g1 p2 by (simp add: s'_def)
  have mem': "mem_ok s'"
    unfolding s'_def by (rule mem_ok_upd_page [OF mem2]) (use page pp p2 used geom_eqD(2) [OF p2(2)] in auto)
  have "tree_ok s' W"
    unfolding s'_def using nt put(3,4) pp p2 page(1) geom_eqD(2,4) [OF p2(2)]
    by (intro tree_ok_upd_page [OF mem2]) auto
  moreover have "count_ok s' W"
  proof (rule count_mapped [OF cnt1 fin _ path _ _ leaf_value_present(2) [of ?phys fl]])
    show "geom s' = geom s1" using g' g1 by simp
    show "pte s1 pt (vpath v) = 0" using 1(7) [OF path] absent by (simp add: vpath_def)
    show "pte s' r p = (if r = pt \<and> p = vpath v then leaf_value ?phys fl else pte s1 r p)"
      if "valid W r p" "length p = 4" for r p
      using pte' [OF that] 1(7) [OF that] by simp
    show "pfndb_phys_to_page s1 (leaf_value ?phys fl AND PAGE_FRAME_MASK) = page"
      using page_phys(2) [OF mem page(1)] leaf_value_frame [OF pg(3)] geom_eqD(5) [OF g1] by simp
  qed (use page(2) used pp(1) p2(1) in \<open>simp_all add: s'_def\<close>)
  ultimately have "vm_ok s' W" using fin mem' by (simp add: vm_ok_def)
  moreover have "pgs s' page = mapped_once (pgs s page)" using pp(1) p2(1) by (simp add: s'_def)
  moreover have "\<forall>q \<in> page_ptrs s - free_set s - {page}. pgs s' q = pgs s q" using pgs1 p2(1) by (simp add: s'_def)
  moreover have "free_set s' = free_set s1"
  proof -
    have "pgs s2 page = pgs s page" "page \<in> page_ptrs s2" using pp p2(1) geom_eqD(2) [OF p2(2)] by auto
    then have "page \<notin> free_set s2" "\<not> page_is_free (pgs s' page)"
      using page(2) used(2) by (auto simp: free_set_def used_page_def s'_def)
    then show ?thesis using only_page_free_set [OF only_page_upd, of page mapped_once s2]
      by (simp add: s'_def s2_def)
  qed
  then have "card (free_set s) \<le> card (free_set s') + 3" using 1(5) by (simp add: grown_def)
  ultimately show ?thesis using \<open>map_page pt v page fl s = Some s'\<close> g' pte' by blast
qed

section \<open>Releasing a page\<close>

lemma tree_keep:
  assumes mem: "mem_ok s" and tree: "tree_ok s W" and g: "geom s' = geom s"
    and ents: "\<And>t i. t \<in> tables s W \<Longrightarrow> i < 512 \<Longrightarrow> same_link (get_ent s t i) (get_ent s' t i)"
    and pages: "\<And>x. x \<in> page_ptrs s \<Longrightarrow> pfndb_page_to_phys s x \<in> tables s W \<Longrightarrow> pgs s' x = pgs s x"
  shows "valid W r p \<Longrightarrow> length p \<le> 4 \<Longrightarrow> node s' r p = node s r p"
    and "valid W r p \<Longrightarrow> length p = 4 \<Longrightarrow> pte s' r p = pte s r p" and "tree_ok s' W"
proof -
  have link: "same_link (get_ent s t i) (get_ent s' t i)"
    if "valid W r p" "length p \<le> 4" "p = q @ i # z" "node s r q = Some t" for r p q i z t
  proof -
    have "valid W r q" "length q \<le> 3" "i < 512" using that valid_prefix valid_idx by auto
    then show ?thesis using ents [of t i] that(4) by (auto simp: tables_def)
  qed
  show n: "node s' r p = node s r p" if "valid W r p" "length p \<le> 4" for r p
    by (rule node_cong) (rule link [OF that])
  show "pte s' r p = pte s r p" if "valid W r p" "length p = 4"
    using that by (intro pte_cong) (auto intro: link [OF that(1)])
  show "tree_ok s' W"
  proof (rule tree_okI)
    fix r p t assume p: "valid W r p" "length p \<le> 3" "node s' r p = Some t"
    then have t: "node s r p = Some t" using n [OF p(1)] by simp
    then obtain x where x: "x \<in> page_ptrs s" "pfndb_page_to_phys s x = t" "used_page (pgs s x)"
        "refcount (pgs s x) = 1" "u2 (pgs s x) = 0"
      using tree_node(1) [OF tree p(1,2)] by (auto simp: table_page_def)
    moreover have "pfndb_page_to_phys s x \<in> tables s W" using p t x(2) by (auto simp: tables_def)
    ultimately show "table_page s' t"
      using pages [of x] geom_eqD(2,4) [OF g] by (auto simp: table_page_def)
  next
    fix r p r' p' t
    assume a: "valid W r p" "length p \<le> 3" "node s' r p = Some t" "valid W r' p'" "length p' \<le> 3" "node s' r' p' = Some t"
    then have "node s r p = Some t" "node s r' p' = Some t" using n [OF a(1)] n [OF a(4)] by simp_all
    then show "r' = r \<and> p' = p" using tree_node(2) [OF tree a(1,2) _ a(4,5)] by blast
  qed
qed

text \<open>Pages that stay out of the free list keep their descriptors; \<open>q\<close> has been freed and its frame
  zeroed.\<close>

definition freed :: "u64 \<Rightarrow> kmem \<Rightarrow> kmem \<Rightarrow> bool" where
  "freed q s s' \<longleftrightarrow> geom s' = geom s \<and> ram s' = filled (ram s) (pfndb_page_to_phys s q) 0 4096
     \<and> free_set s' = insert q (free_set s) \<and> (\<forall>x \<in> page_ptrs s - free_set s - {q}. pgs s' x = pgs s x)"

lemma page_unref_freed:
  assumes "mem_ok s" and "q \<in> page_ptrs s" and "used_page (pgs s q)" and "refcount (pgs s q) = 1" and "u2 (pgs s q) = 0"
  shows "\<exists>s'. page_unref q s = Some s' \<and> mem_ok s' \<and> freed q s s'"
proof -
  obtain xs where xs: "pages_ok s" "freelist_is s xs" using assms(1) by (auto simp: mem_ok_def pmm_inv_def)
  obtain s' where s': "page_unref q s = Some s'" "only_page q s s'" "pages_ok s'" "freelist_is s' (q # xs)"
      "ram s' = filled (ram s) (pfndb_page_to_phys s q) 0 4096"
    using page_unref_last [OF xs assms(2-5)] by blast
  have "q \<noteq> page_at s 0" using mem_ok_page0 [OF assms(1)] assms(3) by auto
  then have "mem_ok s'"
    using s' by (intro mem_ok_step [OF assms(1)]) (auto simp: only_page_def pmm_inv_def)
  moreover have "free_set s' = insert q (free_set s)" using xs(2) s'(4) by (auto simp: freelist_is_def)
  ultimately show ?thesis using s' by (auto simp: freed_def only_page_def)
qed

lemma freed_ents:
  assumes "mem_ok s" and "freed q s s'" and "q \<in> page_ptrs s" and "frame t" and "i < 512"
  shows "get_ent s' t i = (if t = pfndb_page_to_phys s q then 0 else get_ent s t i)"
proof -
  have "get_ent s' t i = get_ent (zero_frame (pfndb_page_to_phys s q) s) t i"
    using assms(2) by (simp add: get_ent_def zero_frame_def freed_def)
  then show ?thesis using get_ent_zero_frame [OF assms(4) page_phys(1) [OF assms(1,3)] assms(5)] by simp
qed

lemma freed_count:
  assumes "count_ok s W" and freed: "geom s' = geom s" "free_set s' = insert q (free_set s)"
      "\<forall>x \<in> page_ptrs s - free_set s - {q}. pgs s' x = pgs s x" and empty: "mapset s' W q = {}"
    and same: "\<And>x. x \<in> page_ptrs s \<Longrightarrow> x \<noteq> q \<Longrightarrow> mapset s' W x = mapset s W x"
  shows "count_ok s' W"
  unfolding count_ok_def
proof
  fix x assume "x \<in> page_ptrs s'"
  then have x: "x \<in> page_ptrs s" using geom_eqD(2) [OF freed(1)] by simp
  show "if used_page (pgs s' x)
     then card (mapset s' W x) \<le> unat (u2 (pgs s' x)) \<and> unat (u2 (pgs s' x)) \<le> unat (refcount (pgs s' x))
     else mapset s' W x = {}"
  proof (cases "x \<in> free_set s'")
    case True
    have "mapset s W x = {}" if "x \<noteq> q"
    proof -
      have "\<not> used_page (pgs s x)" using True that freed(2) by (auto simp: free_set_def used_page_def)
      then show ?thesis using assms(1) x by (simp add: count_ok_def)
    qed
    then have "mapset s' W x = {}" using empty same x by (cases "x = q") simp_all
    then show ?thesis using True by (auto simp: free_set_def used_page_def)
  next
    case False
    then have "x \<noteq> q" "x \<notin> free_set s" using freed(2) by auto
    then have "pgs s' x = pgs s x" "mapset s' W x = mapset s W x" using x freed(3) same by auto
    then show ?thesis using assms(1) x by (simp add: count_ok_def)
  qed
qed

definition unmapped_once :: "page \<Rightarrow> page" where
  "unmapped_once p = (let q = unshare_page p in q\<lparr>refcount := refcount q - 1\<rparr>)"

lemma unmapped_once_fields:
  "u2 p \<noteq> 0 \<Longrightarrow> u2 (unmapped_once p) = u2 p - 1" "refcount (unmapped_once p) = refcount p - 1"
  by (simp_all add: unmapped_once_def unshare_page_def Let_def)

lemma release_keeps:
  assumes "used_page (pgs s q)" and "q \<noteq> 0" and "refcount (pgs s q) \<noteq> 1"
  shows "Option.bind (page_unshare q s) (page_unref q) = Some (upd_page q unmapped_once s)"
    and "used_page (unmapped_once (pgs s q))"
proof -
  have eq: "page_unshare q s = Some (upd_page q unshare_page s)"
    using used_page_valid [OF assms(1,2)] by (simp add: page_unshare_eq)
  have us: "used_page (unshare_page (pgs s q))" by (rule unshare_step [OF assms(1)])
  have rc: "refcount (unshare_page (pgs s q)) = refcount (pgs s q)" by (simp add: unshare_page_def Let_def)
  show "used_page (unmapped_once (pgs s q))"
    using used_page_updates(2) [OF us] rc assms(3) by (simp add: unmapped_once_def Let_def)
  have "page_unref q (upd_page q unshare_page s) = Some (upd_page q unmapped_once s)"
    using page_unref_keep [of "upd_page q unshare_page s" q] us rc assms(2,3)
    by simp (simp add: upd_page_def unmapped_once_def Let_def)
  then show "Option.bind (page_unshare q s) (page_unref q) = Some (upd_page q unmapped_once s)" using eq by simp
qed

lemma release_frees:
  assumes mem: "mem_ok s" and q: "q \<in> page_ptrs s" "used_page (pgs s q)" "refcount (pgs s q) = 1" "u2 (pgs s q) = 1"
  shows "\<exists>s'. Option.bind (page_unshare q s) (page_unref q) = Some s' \<and> mem_ok s' \<and> freed q s s'"
proof -
  let ?s1 = "upd_page q unshare_page s"
  have q0: "q \<noteq> 0" using page_ptrs_nonzero mem_ok_db [OF mem] q(1) by blast
  have us: "used_page (unshare_page (pgs s q))" by (rule unshare_step [OF q(2)])
  have g: "geom ?s1 = geom s" by simp
  have "mem_ok ?s1" using mem_ok_upd_page [OF mem q(1,2), where f = unshare_page] us by simp
  then obtain s' where s': "page_unref q ?s1 = Some s'" "mem_ok s'" "freed q ?s1 s'"
    using page_unref_freed [of ?s1 q] q us by (auto simp: unshare_page_def Let_def)
  have "q \<notin> free_set s" using q(2) by (simp add: free_set_def used_page_def)
  moreover have "free_set ?s1 = free_set s"
    using only_page_free_set [OF only_page_upd [where x = q and s = s and f = unshare_page]] us calculation
    by (simp add: used_page_def)
  ultimately have "freed q s s'"
    using s'(3) geom_eqD(4) [OF g] by (simp add: freed_def)
  moreover have "page_unshare q s = Some ?s1" using used_page_valid [OF q(2) q0] by (simp add: page_unshare_eq)
  ultimately show ?thesis using s' by auto
qed

lemma tables_not_mapped:
  assumes "mem_ok s" and "tree_ok s W" and "q \<in> page_ptrs s" and "u2 (pgs s q) \<noteq> 0"
  shows "pfndb_page_to_phys s q \<notin> tables s W"
proof
  assume "pfndb_page_to_phys s q \<in> tables s W"
  then have "table_page s (pfndb_page_to_phys s q)" using tree_node(1) [OF assms(2)] by (auto simp: tables_def)
  then show False using table_page_not_free [OF assms(1)] assms(3,4) by blast
qed

text \<open>A page with more shares than mappings can lose one of them.\<close>

lemma release_vm:
  assumes vm: "vm_ok s W" and q: "q \<in> page_ptrs s" "used_page (pgs s q)" "0 < u2 (pgs s q)"
      "unat (u2 (pgs s q)) \<le> unat (refcount (pgs s q))"
    and card: "card (mapset s W q) < unat (u2 (pgs s q))"
  shows "\<exists>s'. Option.bind (page_unshare q s) (page_unref q) = Some s' \<and> vm_ok s' W \<and> geom s' = geom s
    \<and> (\<forall>r p. valid W r p \<longrightarrow> length p = 4 \<longrightarrow> pte s' r p = pte s r p)"
proof -
  have mem: "mem_ok s" and tree: "tree_ok s W" and cnt: "count_ok s W" and fin: "finite W"
    using vm by (auto simp: vm_ok_def)
  have q0: "q \<noteq> 0" using page_ptrs_nonzero mem_ok_db [OF mem] q(1) by blast
  have nt: "pfndb_page_to_phys s q \<notin> tables s W" using tables_not_mapped [OF mem tree q(1)] q(3) by auto
  show ?thesis
  proof (cases "refcount (pgs s q) = 1")
    case False
    have us: "used_page (unmapped_once (pgs s q))" by (rule release_keeps(2) [OF q(2) q0 False])
    let ?s' = "upd_page q unmapped_once s"
    have u2: "Suc (unat (u2 (unmapped_once (pgs s q)))) = unat (u2 (pgs s q))"
      using unat_Suc_pred [of "u2 (pgs s q)"] q(3) by (simp add: unmapped_once_fields)
    have "refcount (pgs s q) \<noteq> 0" using q(2) by (simp add: used_page_def)
    then have rc: "Suc (unat (refcount (unmapped_once (pgs s q)))) = unat (refcount (pgs s q))"
      by (simp add: unmapped_once_fields unat_minus_one unat_gt_0)
    have "count_ok ?s' W"
      using cnt us card u2 rc q(4) mapset_cong [of ?s' s W] by (auto simp: count_ok_def)
    then have "vm_ok ?s' W"
      using fin mem_ok_upd_page [OF mem q(1,2), where f = unmapped_once] us tree_ok_upd_page [OF mem tree q(1) nt]
      by (simp add: vm_ok_def)
    then show ?thesis using release_keeps(1) [OF q(2) q0 False] by auto
  next
    case True
    have "u2 (pgs s q) = 1" using True q(3,4) by (simp add: word_unat_eq_iff word_less_nat_alt)
    then obtain s' where s': "Option.bind (page_unshare q s) (page_unref q) = Some s'" "mem_ok s'" "freed q s s'"
      using release_frees [OF mem q(1,2) True] by blast
    have g: "geom s' = geom s" using s'(3) by (simp add: freed_def)
    have ents: "same_link (get_ent s t i) (get_ent s' t i)" if "t \<in> tables s W" "i < 512" for t i
    proof -
      have "table_page s t" using that tree_node(1) [OF tree] by (auto simp: tables_def)
      then show ?thesis using freed_ents [OF mem s'(3) q(1) table_page_frame [OF mem] that(2)] that(1) nt
        by (auto simp: same_link_def)
    qed
    have pages: "pgs s' x = pgs s x" if "x \<in> page_ptrs s" "pfndb_page_to_phys s x \<in> tables s W" for x
    proof -
      have "table_page s (pfndb_page_to_phys s x)" using that tree_node(1) [OF tree] by (auto simp: tables_def)
      then have "x \<notin> free_set s" using table_page_not_free [OF mem] that(1) by blast
      moreover have "x \<noteq> q" using nt that(2) by auto
      ultimately show ?thesis using s'(3) that(1) by (simp add: freed_def)
    qed
    note keep = tree_keep [OF mem tree g ents pages]
    have ms: "mapset s' W x = mapset s W x" for x by (rule mapset_cong [OF g keep(2)])
    have "mapset s W q = {}" using card finite_mapset [OF fin, of s q] \<open>u2 (pgs s q) = 1\<close> by simp
    then have "count_ok s' W" using freed_count [OF cnt g, of q] s'(3) ms by (simp add: freed_def)
    then have "vm_ok s' W" using fin s'(2) keep(3) by (simp add: vm_ok_def)
    then show ?thesis using s'(1) g keep(2) by blast
  qed
qed

text \<open>Clearing a present leaf entry and releasing the page it mapped.\<close>

lemma unmap_release:
  assumes vm: "vm_ok s W" and path: "valid W pt (vpath v)" and t: "node s pt (upath v) = Some t"
    and present: "get_ent s t (pml1_idx v) AND VMM_PRESENT \<noteq> 0"
  shows "\<exists>s'. release_mapping (get_ent s t (pml1_idx v) AND PAGE_FRAME_MASK) (put_ent t (pml1_idx v) 0 s) = Some s'
    \<and> vm_ok s' W \<and> geom s' = geom s
    \<and> (\<forall>r p. valid W r p \<longrightarrow> length p = 4 \<longrightarrow> pte s' r p = (if r = pt \<and> p = vpath v then 0 else pte s r p))"
proof -
  have mem: "mem_ok s" and tree: "tree_ok s W" and cnt: "count_ok s W" and fin: "finite W"
    using vm by (auto simp: vm_ok_def)
  let ?e = "get_ent s t (pml1_idx v)" and ?q = "pfndb_phys_to_page s (get_ent s t (pml1_idx v) AND PAGE_FRAME_MASK)"
  define s2 where "s2 = put_ent t (pml1_idx v) 0 s"
  have s2: "geom s2 = geom s" "pgs s2 = pgs s" "free_set s2 = free_set s" by (simp_all add: s2_def)
  have leaf: "valid W pt (upath v @ [pml1_idx v])" using path by (simp add: vpath_upath)
  note put = tree_leaf_put [OF mem tree leaf length_upath t, where e = 0, folded s2_def]
  have mem2: "mem_ok s2" by (rule mem_ok_step [OF mem]) (use mem in \<open>simp_all add: s2_def mem_ok_def\<close>)
  have pte_v: "pte s pt (vpath v) = ?e" "?e \<noteq> 0" using t present by (auto simp: vpath_upath pte_snoc)
  have len: "length (vpath v) = 4" by (simp add: vpath_def)
  have pte2: "pte s2 r p = (if r = pt \<and> p = vpath v then 0 else pte s r p)" if "valid W r p" "length p = 4" for r p
    using put(2) [OF that] by (simp add: vpath_upath)
  have ms2: "mapset s2 W x = mapset s W x - {(pt, vpath v)}" for x
    using mapset_put [OF s2(1) path len pte2, of x] by simp
  have other: "mapset s2 W x = mapset s W x" if "x \<noteq> ?q" for x
  proof -
    have "(pt, vpath v) \<notin> mapset s W x" using that pte_v by (simp add: mapset_def)
    then show ?thesis by (simp add: ms2)
  qed
  have cnt2: "count_ok s2 W"
    unfolding count_ok_def
  proof
    fix x assume "x \<in> page_ptrs s2"
    then have "x \<in> page_ptrs s" using geom_eqD(2) [OF s2(1)] by simp
    moreover have "card (mapset s2 W x) \<le> card (mapset s W x)" "mapset s2 W x \<subseteq> mapset s W x"
      using finite_mapset [OF fin, of s x] by (simp_all add: ms2 card_Diff1_le)
    ultimately show "if used_page (pgs s2 x)
       then card (mapset s2 W x) \<le> unat (u2 (pgs s2 x)) \<and> unat (u2 (pgs s2 x)) \<le> unat (refcount (pgs s2 x))
       else mapset s2 W x = {}"
      using cnt s2(2) by (fastforce simp: count_ok_def)
  qed
  have "\<exists>s'. release_mapping (?e AND PAGE_FRAME_MASK) s2 = Some s' \<and> vm_ok s' W \<and> geom s' = geom s2
      \<and> (\<forall>r p. valid W r p \<longrightarrow> length p = 4 \<longrightarrow> pte s' r p = pte s2 r p)"
  proof (cases "?q = 0")
    case True
    have "release_mapping (?e AND PAGE_FRAME_MASK) s2 = Some s2"
      using True geom_eqD(5) [OF s2(1)] by (simp add: release_mapping_def)
    then show ?thesis using fin mem2 put(3) cnt2 by (auto simp: vm_ok_def)
  next
    case False
    have q: "?q \<in> page_ptrs s2" "used_page (pgs s2 ?q)" "0 < u2 (pgs s2 ?q)" "unat (u2 (pgs s2 ?q)) \<le> unat (refcount (pgs s2 ?q))"
        "card (mapset s W ?q) \<le> unat (u2 (pgs s2 ?q))" "(pt, vpath v) \<in> mapset s W ?q"
      using mapped_page [OF vm path len, of ?q] pte_v False s2(2) geom_eqD(2) [OF s2(1)] by auto
    have card2: "card (mapset s2 W ?q) < unat (u2 (pgs s2 ?q))"
      using q(5,6) finite_mapset [OF fin, of s ?q] card_Diff1_less [of "mapset s W ?q" "(pt, vpath v)"]
      by (simp add: ms2)
    have "release_mapping (?e AND PAGE_FRAME_MASK) s2 = Option.bind (page_unshare ?q s2) (page_unref ?q)"
      using False geom_eqD(5) [OF s2(1)] by (simp add: release_mapping_def Let_def)
    moreover have "vm_ok s2 W" using fin mem2 put(3) cnt2 by (simp add: vm_ok_def)
    ultimately show ?thesis using release_vm [OF _ q(1-4) card2] by simp
  qed
  then show ?thesis using pte2 s2(1) unfolding s2_def by fastforce
qed

section \<open>Freeing empty tables\<close>

lemma table_empty_iff: "table_empty s t \<longleftrightarrow> (\<forall>i < 512. get_ent s t i AND VMM_PRESENT = 0)"
proof -
  have "(i :: u64) < 512 \<longleftrightarrow> (\<exists>k < 512. i = of_nat k)" for i
  proof
    assume "i < 512"
    then show "\<exists>k < 512. i = of_nat k" by (intro exI [of _ "unat i"]) (simp add: word_less_nat_alt)
  qed (auto simp: word_less_nat_alt)
  then show ?thesis by (force simp: table_empty_def)
qed

lemma unlink_nodes:
  assumes mem: "mem_ok s" and tree: "tree_ok s W"
    and path: "valid W rt (q @ [i])" "length q \<le> 2" "node s rt q = Some t" "node s rt (q @ [i]) = Some t1"
    and empty: "table_empty s t1"
    and ge: "\<And>t2 j. frame t2 \<Longrightarrow> j < 512 \<Longrightarrow>
      get_ent s' t2 j = (if t2 = t \<and> j = i then 0 else if t2 = t1 then 0 else get_ent s t2 j)"
  shows "valid W r p \<Longrightarrow> length p = 4 \<Longrightarrow> pte s' r p = pte s r p"
    and "valid W r p \<Longrightarrow> length p \<le> 3 \<Longrightarrow> node s' r p = Some t2 \<Longrightarrow> node s r p = Some t2 \<and> t2 \<noteq> t1"
    and "valid W rt p \<Longrightarrow> length p \<le> length q \<Longrightarrow> node s' rt p = node s rt p"
proof -
  have q: "valid W rt q" "length q \<le> 3" "i < 512" "length (q @ [i]) \<le> 3" using path valid_prefix valid_idx by auto
  have t: "table_page s t" using tree_node(1) [OF tree q(1,2) path(3)] .
  have other: "same_link (get_ent s t2 j) (get_ent s' t2 j)" if "table_page s t2" "j < 512" "t2 \<noteq> t \<or> j \<noteq> i" for t2 j
    using ge [OF table_page_frame [OF mem that(1)] that(2)] that empty by (auto simp: same_link_def table_empty_iff)
  note node_o = node_other [OF tree q(1,2) path(3) other]
  have below: "node s' rt (q @ i # z) = None" "z \<noteq> [] \<Longrightarrow> node s rt (q @ i # z) = None" if "valid W rt (q @ i # z)" for z
  proof -
    have "node s' rt q = Some t" using node_o(1) [OF _ _ _ q(1)] q(2) path(3) by auto
    then show "node s' rt (q @ i # z) = None"
      using ge [OF table_page_frame [OF mem t] q(3)] by (simp add: node_append)
    assume "z \<noteq> []"
    then obtain j y where z: "z = j # y" by (cases z) auto
    then have "j < 512" using that valid_idx [of W rt "q @ [i]" j y] by simp
    then show "node s rt (q @ i # z) = None"
      using path(4) empty z node_append [of s rt "q @ [i]" z] by (simp add: table_empty_iff)
  qed
  have keep: "node s' r p = node s r p" if "valid W r p" "length p \<le> 4" "\<not> (r = rt \<and> prefix (q @ [i]) p)" for r p
    using node_o(1) [OF _ _ _ that(1)] that(2,3) by auto
  show "pte s' r p = pte s r p" if "valid W r p" "length p = 4"
  proof (cases "r = rt \<and> prefix (q @ [i]) p")
    case False
    then show ?thesis using node_o(2) [OF _ _ _ that(1)] that(2) by force
  next
    case True
    then obtain z where "p = q @ i # z" by (auto elim: prefixE)
    moreover have "z \<noteq> []" using calculation that(2) path(2) by auto
    ultimately obtain y j where y: "p = (q @ i # y) @ [j]" by (metis append.assoc append_Cons rev_exhaust)
    have v: "valid W rt (q @ i # y)" "j < 512"
      using that(1) True y valid_prefix [of W rt "q @ i # y" "[j]"] valid_idx [of W rt "q @ i # y" j "[]"] by auto
    have "pte s rt p = 0"
    proof (cases "y = []")
      case True
      then show ?thesis using path(4) y empty v(2) by (simp only: pte_snoc y) (simp add: table_empty_iff)
    next
      case False
      then show ?thesis using below(2) [OF v(1)] y by (simp only: pte_snoc y) simp
    qed
    moreover have "pte s' rt p = 0" using below(1) [OF v(1)] y by (simp only: pte_snoc y) simp
    ultimately show ?thesis using True by simp
  qed
  show "node s r p = Some t2 \<and> t2 \<noteq> t1" if p: "valid W r p" "length p \<le> 3" "node s' r p = Some t2"
  proof -
    have np: "\<not> (r = rt \<and> prefix (q @ [i]) p)" using below(1) p by (auto simp: prefix_def)
    then have n: "node s r p = Some t2" using keep [OF p(1)] p(2,3) by simp
    moreover have "t2 \<noteq> t1" using tree_node(2) [OF tree path(1) q(4) path(4) p(1,2)] n np by auto
    ultimately show ?thesis by simp
  qed
  show "node s' rt p = node s rt p" if "valid W rt p" "length p \<le> length q"
    using keep [OF that(1)] that(2) path(2) prefix_length_le [of "q @ [i]" p] by auto
qed

lemma tree_remove:
  assumes vm: "vm_ok s W" and path: "valid W rt (q @ [i])" "length q \<le> 2" "node s rt q = Some t" "node s rt (q @ [i]) = Some t1"
    and empty: "table_empty s t1"
  shows "\<exists>s1. free_pt t1 s = Some s1 \<and> vm_ok (put_ent t i 0 s1) W \<and> geom s1 = geom s
    \<and> (\<forall>r p. valid W r p \<longrightarrow> length p = 4 \<longrightarrow> pte (put_ent t i 0 s1) r p = pte s r p)
    \<and> (\<forall>p. valid W rt p \<longrightarrow> length p \<le> length q \<longrightarrow> node (put_ent t i 0 s1) rt p = node s rt p)"
proof -
  have mem: "mem_ok s" and tree: "tree_ok s W" and cnt: "count_ok s W" and fin: "finite W"
    using vm by (auto simp: vm_ok_def)
  have q: "valid W rt q" "length q \<le> 3" "i < 512" "length (q @ [i]) \<le> 3" using path valid_prefix valid_idx by auto
  have t: "table_page s t" "table_page s t1" using tree_node(1) [OF tree] q path by blast+
  then obtain x where x: "x \<in> page_ptrs s" "pfndb_page_to_phys s x = t1" "used_page (pgs s x)" "refcount (pgs s x) = 1" "u2 (pgs s x) = 0"
    by (auto simp: table_page_def)
  obtain s1 where s1: "page_unref x s = Some s1" "mem_ok s1" "freed x s s1"
    using page_unref_freed [OF mem x(1,3,4,5)] by blast
  have "pfndb_phys_to_page s t1 = x" "x \<noteq> 0"
    using page_phys(2) [OF mem x(1)] x(2) page_ptrs_nonzero [OF mem_ok_db [OF mem] x(1)] by auto
  then have free: "free_pt t1 s = Some s1" using s1(1) by (simp add: free_pt_def)
  define s' where "s' = put_ent t i 0 s1"
  have g: "geom s1 = geom s" "geom s' = geom s" using s1(3) by (simp_all add: freed_def s'_def)
  have ge: "get_ent s' t2 j = (if t2 = t \<and> j = i then 0 else if t2 = t1 then 0 else get_ent s t2 j)" if "frame t2" "j < 512" for t2 j
    using get_put_ent [OF table_page_frame [OF mem t(1)] that(1) q(3) that(2), of 0 s1]
      freed_ents [OF mem s1(3) x(1) that] x(2) by (auto simp: s'_def)
  note nodes = unlink_nodes [OF mem tree path empty ge]
  have tp: "table_page s' t2" if t2: "table_page s t2" "t2 \<noteq> t1" for t2
  proof -
    obtain z where z: "z \<in> page_ptrs s" "pfndb_page_to_phys s z = t2" "used_page (pgs s z)" "refcount (pgs s z) = 1" "u2 (pgs s z) = 0"
      using t2(1) by (auto simp: table_page_def)
    then have "z \<noteq> x" "z \<notin> free_set s" using t2(2) x(2) by (auto simp: free_set_def used_page_def)
    then have "pgs s' z = pgs s z" using s1(3) z(1) by (simp add: s'_def freed_def)
    then show ?thesis using z geom_eqD(2,4) [OF g(2)] by (auto simp: table_page_def)
  qed
  have "tree_ok s' W"
  proof (rule tree_okI)
    show "table_page s' t2" if "valid W r p" "length p \<le> 3" "node s' r p = Some t2" for r p t2
      using that nodes(2) tree_node(1) [OF tree] tp by blast
    show "r' = r \<and> p' = p" if "valid W r p" "length p \<le> 3" "node s' r p = Some t2" "valid W r' p'" "length p' \<le> 3"
        "node s' r' p' = Some t2" for r p r' p' t2
      using that nodes(2) tree_node(2) [OF tree] by blast
  qed
  moreover have "count_ok s' W"
  proof (rule freed_count [OF cnt g(2), of x])
    have ms: "mapset s' W y = mapset s W y" for y by (rule mapset_cong [OF g(2) nodes(1)])
    show "mapset s' W y = mapset s W y" for y by (rule ms)
    show "mapset s' W x = {}" using cnt x(1,3,5) finite_mapset [OF fin, of s x] by (auto simp: ms count_ok_def)
  qed (use s1(3) in \<open>auto simp: s'_def freed_def\<close>)
  moreover have "mem_ok s'" by (rule mem_ok_step [OF s1(2)]) (use s1(2) in \<open>simp_all add: s'_def mem_ok_def\<close>)
  ultimately show ?thesis using free fin g(1) nodes(1,3) unfolding s'_def vm_ok_def by blast
qed

lemma node_link:
  "node s r (p @ [i]) = Some t1 \<Longrightarrow> node s r p = Some t \<Longrightarrow>
   get_ent s t i AND VMM_PRESENT \<noteq> 0 \<and> get_ent s t i AND PAGE_FRAME_MASK = t1"
  by (auto simp: node_snoc split: if_splits)

lemma ptable_free_empty_spec:
  assumes vm: "vm_ok s W" and path: "valid W pt (vpath v)"
  shows "\<exists>s'. ptable_free_empty pt v s = Some s' \<and> vm_ok s' W \<and> geom s' = geom s
    \<and> (\<forall>r p. valid W r p \<longrightarrow> length p = 4 \<longrightarrow> pte s' r p = pte s r p)"
proof -
  let ?i4 = "pml4_idx v" and ?i3 = "pml3_idx v" and ?i2 = "pml2_idx v"
  have v: "valid W pt ([] @ [?i4])" "valid W pt ([?i4] @ [?i3])" "valid W pt ([?i4, ?i3] @ [?i2])"
      "valid W pt []" "valid W pt [?i4]" "valid W pt [?i4, ?i3]"
    using path by (auto simp: vpath_def valid_def)
  show ?thesis
  proof (cases "\<exists>t. node s pt (upath v) = Some t \<and> table_empty s t")
    case False
    then have "ptable_free_empty pt v s = Some s"
      by (auto simp: ptable_free_empty_def upath_def Let_def)
    then show ?thesis using vm by auto
  next
    case True
    then obtain t1 where t1: "node s pt ([?i4, ?i3] @ [?i2]) = Some t1" "table_empty s t1" by (auto simp: upath_def)
    obtain t2 where t2: "node s pt ([?i4] @ [?i3]) = Some t2"
      using t1(1) unfolding node_snoc [of s pt "[?i4, ?i3]"] by (auto simp: bind_eq_Some_conv simp del: node.simps)
    obtain t3 where t3: "node s pt ([] @ [?i4]) = Some t3"
      using t2 unfolding node_snoc [of s pt "[?i4]"] by (auto simp: bind_eq_Some_conv simp del: node.simps)
    have l: "get_ent s pt ?i4 AND VMM_PRESENT \<noteq> 0" "get_ent s pt ?i4 AND PAGE_FRAME_MASK = t3"
        "get_ent s t3 ?i3 AND VMM_PRESENT \<noteq> 0" "get_ent s t3 ?i3 AND PAGE_FRAME_MASK = t2"
        "get_ent s t2 ?i2 AND VMM_PRESENT \<noteq> 0" "get_ent s t2 ?i2 AND PAGE_FRAME_MASK = t1"
      using node_link [OF t3, of pt] node_link [OF t2, of t3] node_link [OF t1(1), of t2] t2 t3 by auto
    obtain sa where a: "free_pt t1 s = Some sa" "vm_ok (put_ent t2 ?i2 0 sa) W" "geom sa = geom s"
        "\<And>r p. valid W r p \<Longrightarrow> length p = 4 \<Longrightarrow> pte (put_ent t2 ?i2 0 sa) r p = pte s r p"
        "\<And>p. valid W pt p \<Longrightarrow> length p \<le> 2 \<Longrightarrow> node (put_ent t2 ?i2 0 sa) pt p = node s pt p"
      using tree_remove [OF vm v(3) _ _ t1, of t2] t2 by auto
    define b where "b = put_ent t2 ?i2 0 sa"
    have nb: "node b pt ([] @ [?i4]) = Some t3" "node b pt ([?i4] @ [?i3]) = Some t2"
      using a(5) [OF v(5)] a(5) [OF v(6)] t2 t3 by (simp_all add: b_def del: node.simps)
    have lb: "get_ent b t3 ?i3 AND PAGE_FRAME_MASK = t2"
      using node_link [OF nb(2), of t3] nb(1) by simp
    have eq: "ptable_free_empty pt v s = (if \<not> table_empty b t2 then Some b else
        Option.bind (free_pt t2 b) (\<lambda>s. let s = put_ent t3 ?i3 0 s in if \<not> table_empty s t3 then Some s
          else Option.bind (free_pt (get_ent s pt ?i4 AND PAGE_FRAME_MASK) s) (\<lambda>s. Some (put_ent pt ?i4 0 s))))"
      using l t1(2) a(1) lb by (simp add: ptable_free_empty_def Let_def b_def [symmetric])
    have vb: "vm_ok b W" "geom b = geom s" "\<And>r p. valid W r p \<Longrightarrow> length p = 4 \<Longrightarrow> pte b r p = pte s r p"
      using a(2,3,4) by (simp_all add: b_def)
    show ?thesis
    proof (cases "table_empty b t2")
      case False
      then show ?thesis using eq vb by auto
    next
      case True
      obtain sc where c: "free_pt t2 b = Some sc" "vm_ok (put_ent t3 ?i3 0 sc) W" "geom sc = geom b"
          "\<And>r p. valid W r p \<Longrightarrow> length p = 4 \<Longrightarrow> pte (put_ent t3 ?i3 0 sc) r p = pte b r p"
          "\<And>p. valid W pt p \<Longrightarrow> length p \<le> 1 \<Longrightarrow> node (put_ent t3 ?i3 0 sc) pt p = node b pt p"
        using tree_remove [OF vb(1) v(2) _ _ nb(2) True, of t3] nb(1) by (auto simp del: node.simps)
      define d where "d = put_ent t3 ?i3 0 sc"
      have vd: "vm_ok d W" "geom d = geom s" "\<And>r p. valid W r p \<Longrightarrow> length p = 4 \<Longrightarrow> pte d r p = pte s r p"
        using c(2,3,4) vb(2,3) by (simp_all add: d_def)
      have nd: "node d pt ([] @ [?i4]) = Some t3" using c(5) [OF v(5)] nb(1) by (simp add: d_def del: node.simps)
      then have ld: "get_ent d pt ?i4 AND PAGE_FRAME_MASK = t3" using node_link [OF nd, of pt] by simp
      show ?thesis
      proof (cases "table_empty d t3")
        case False
        then show ?thesis using eq True vd c(1) by (auto simp: d_def [symmetric] Let_def)
      next
        case empty: True
        obtain se where e: "free_pt t3 d = Some se" "vm_ok (put_ent pt ?i4 0 se) W" "geom se = geom d"
            "\<And>r p. valid W r p \<Longrightarrow> length p = 4 \<Longrightarrow> pte (put_ent pt ?i4 0 se) r p = pte d r p"
          using tree_remove [OF vd(1) v(1) _ _ nd empty, of pt] by auto
        then have "ptable_free_empty pt v s = Some (put_ent pt ?i4 0 se)"
          using eq True c(1) empty ld by (simp add: d_def [symmetric] Let_def)
        then show ?thesis using e vd by auto
      qed
    qed
  qed
qed

lemma unmap_page_spec:
  assumes vm: "vm_ok s W" and path: "valid W pt (vpath v)"
  shows "\<exists>s'. unmap_page pt v s = Some s' \<and> vm_ok s' W \<and> geom s' = geom s
    \<and> (\<forall>r p. valid W r p \<longrightarrow> length p = 4 \<longrightarrow> pte s' r p = (if r = pt \<and> p = vpath v then 0 else pte s r p))"
proof -
  have pt0: "pt \<noteq> 0" using root_nonzero vm path by (auto simp: vm_ok_def)
  show ?thesis
  proof (cases "pte s pt (vpath v) = 0")
    case True
    then have "unmap_page pt v s = Some s"
      using pt0 by (auto simp: unmap_page_def leaf_entry_lookup vpath_upath pte_snoc split: option.splits if_splits)
    then show ?thesis using vm True by auto
  next
    case False
    then obtain t where t: "node s pt (upath v) = Some t" "get_ent s t (pml1_idx v) AND VMM_PRESENT \<noteq> 0"
      by (auto simp: vpath_upath pte_snoc split: option.splits if_splits)
    obtain s1 where 1: "release_mapping (get_ent s t (pml1_idx v) AND PAGE_FRAME_MASK) (put_ent t (pml1_idx v) 0 s) = Some s1"
        "vm_ok s1 W" "geom s1 = geom s"
        "\<And>r p. valid W r p \<Longrightarrow> length p = 4 \<Longrightarrow> pte s1 r p = (if r = pt \<and> p = vpath v then 0 else pte s r p)"
      using unmap_release [OF vm path t] by blast
    have "valid W pt (vpath (ALIGN_DOWN v PAGE_SIZE))" using path by simp
    then obtain s' where 2: "ptable_free_empty pt (ALIGN_DOWN v PAGE_SIZE) s1 = Some s'" "vm_ok s' W" "geom s' = geom s1"
        "\<And>r p. valid W r p \<Longrightarrow> length p = 4 \<Longrightarrow> pte s' r p = pte s1 r p"
      using ptable_free_empty_spec [OF 1(2)] by blast
    have "unmap_page pt v s = Some s'"
      using pt0 t 1(1) 2(1) by (simp add: unmap_page_def leaf_entry_lookup)
    then show ?thesis using 1(3,4) 2 by auto
  qed
qed

section \<open>New address spaces\<close>

lemma vm_grown:
  assumes "vm_ok s W" and "palloc_page s = Some (x, s1)"
  shows "vm_ok s1 W" and "pte s1 = pte s" and "tables s1 W = tables s W"
proof -
  have mem: "mem_ok s" and tree: "tree_ok s W" and cnt: "count_ok s W" and fin: "finite W"
    using assms(1) by (auto simp: vm_ok_def)
  have inv: "pmm_inv s" using mem by (simp add: mem_ok_def)
  note px = palloc_page_inv [OF inv assms(2)]
  have ents: "get_ent s1 = get_ent s" using px by (intro ext) (simp add: get_ent_def)
  have "node s1 t p = node s t p" for t p by (induction p arbitrary: t) (simp_all add: ents)
  then have n: "node s1 = node s" by (intro ext)
  show p: "pte s1 = pte s" by (intro ext) (simp add: pte_def n ents split: option.split)
  show "tables s1 W = tables s W" by (simp add: tables_def n)
  have gr: "grown 1 s s1" by (rule grown_palloc [OF inv assms(2)])
  have "tree_ok s1 W" using tree grown_table_page [OF gr] unfolding tree_ok_def n by blast
  moreover have "count_ok s1 W" by (rule count_grown [OF cnt gr]) (simp add: p)
  moreover have "mem_ok s1"
  proof (rule mem_ok_step [OF mem])
    have "x \<noteq> page_at s 0" using px mem_ok_page0 [OF mem] by auto
    then show "flags (pgs s1 (page_at s 0)) = flags (pgs s (page_at s 0))" using px by (simp add: only_page_def)
  qed (use px in \<open>simp_all add: only_page_def\<close>)
  ultimately show "vm_ok s1 W" using fin by (simp add: vm_ok_def)
qed

lemma copy_upper_half_fields [simp]:
  "geom (copy_upper_half dst src s) = geom s" "pgs (copy_upper_half dst src s) = pgs s"
  "free_set (copy_upper_half dst src s) = free_set s" "pmm_inv (copy_upper_half dst src s) = pmm_inv s"
  unfolding copy_upper_half_def by (rule fold_frame, simp)+

lemma get_ent_copy_upper_half:
  assumes "frame dst" and "frame t" and "j < 512" and "t \<noteq> dst \<or> j < 256"
  shows "get_ent (copy_upper_half dst src s) t j = get_ent s t j"
proof -
  have "get_ent (fold (\<lambda>i s. put_ent dst (of_nat i) (get_ent s src (of_nat i)) s) xs s) t j = get_ent s t j"
    if "\<forall>i \<in> set xs. 256 \<le> i \<and> i < 512" for xs s
    using that
  proof (induction xs arbitrary: s)
    case (Cons i xs)
    then have i: "256 \<le> i" "i < 512" by auto
    then have "(of_nat i :: u64) < 512" "j \<noteq> of_nat i \<or> t \<noteq> dst"
      using assms(4) by (auto simp: word_less_nat_alt)
    then have "get_ent (put_ent dst (of_nat i) (get_ent s src (of_nat i)) s) t j = get_ent s t j"
      using get_put_ent [OF assms(1,2) _ assms(3)] by auto
    then show ?case using Cons by simp
  qed simp
  moreover have "\<forall>i \<in> set [256..<512]. 256 \<le> i \<and> i < 512" unfolding set_upt by simp
  ultimately show ?thesis unfolding copy_upper_half_def by blast
qed

lemma ptable_create_fresh:
  assumes vm: "vm_ok s W" and free: "free_set s \<noteq> {}" and mmio: "mmio_regions s = []"
  shows "\<exists>pt s'. ptable_create s = Some (pt, s') \<and> grown 1 s s' \<and> mem_ok s' \<and> table_page s' pt \<and> \<not> table_page s pt
    \<and> (\<forall>t i. frame t \<longrightarrow> i < 512 \<longrightarrow> t \<noteq> pt \<or> i < 256 \<longrightarrow> get_ent s' t i = (if t = pt then 0 else get_ent s t i))"
proof -
  have mem: "mem_ok s" using vm by (simp add: vm_ok_def)
  have inv: "pmm_inv s" using mem by (simp add: mem_ok_def)
  obtain x s1 where x: "palloc_page s = Some (x, s1)" using palloc_page_some [OF inv free] by blast
  note px = palloc_page_inv [OF inv x]
  have xs: "x \<in> page_ptrs s" "x \<in> free_set s" "geom s1 = geom s" using px free_set_sub by (auto simp: only_page_def)
  have x0: "x \<noteq> 0" using page_ptrs_nonzero mem_ok_db [OF mem] xs(1) by blast
  define t where "t = pfndb_page_to_phys s x"
  have ft: "frame t" using page_phys(1) [OF mem xs(1)] by (simp add: t_def)
  define s2 where "s2 = zero_frame t s1"
  define s' where "s' = (if kernel_ptable s \<noteq> 0 then copy_upper_half t (kernel_ptable s) s2 else s2)"
  have f: "geom s' = geom s1" "pgs s' = pgs s1" "free_set s' = free_set s1" "pmm_inv s' = pmm_inv s1"
    by (simp_all add: s'_def s2_def)
  have k: "kernel_ptable s1 = kernel_ptable s" "kernel_ptable s2 = kernel_ptable s" "mmio_regions s' = []"
    using xs(3) f(1) mmio by (simp_all add: s2_def zero_frame_def geom_def)
  have s2: "pfndb_page_to_phys s1 x = t" "s1\<lparr>ram := memset (ram s1) t 0 PAGE_SIZE\<rparr> = s2"
    using geom_eqD(4) [OF xs(3)] by (simp_all add: s2_def zero_frame_def memset_filled t_def)
  have "ptable_create s = Some (t, s')"
    using x x0 k by (cases "kernel_ptable s = 0") (simp_all add: ptable_create_def s2 s'_def Let_def)
  moreover have "grown 1 s s'" by (rule grown_cong [OF grown_palloc [OF inv x] f(1,2)])
  moreover have "mem_ok s'"
  proof (rule mem_ok_step)
    show m1: "mem_ok s1" using vm_grown(1) [OF vm x] by (simp add: vm_ok_def)
    then show "pmm_inv s'" using f(4) by (simp add: mem_ok_def)
  qed (simp_all add: f(1,2))
  moreover have "table_page s' t"
    using px xs geom_eqD(2,4) [of s' s] f by (auto simp: table_page_def used_page_def page_simps t_def)
  moreover have "\<not> table_page s t" using table_page_not_free [OF mem] xs(1,2) t_def by blast
  moreover have "get_ent s' t1 i = (if t1 = t then 0 else get_ent s t1 i)"
    if "frame t1" "i < 512" "t1 \<noteq> t \<or> i < 256" for t1 i
  proof -
    have "get_ent s2 t1 i = (if t1 = t then 0 else get_ent s1 t1 i)"
      using get_ent_zero_frame [OF that(1) ft that(2)] by (simp add: s2_def)
    moreover have "get_ent s1 = get_ent s" using px by (intro ext) (simp add: get_ent_def)
    ultimately show ?thesis using get_ent_copy_upper_half [OF ft that] by (auto simp: s'_def)
  qed
  ultimately show ?thesis by blast
qed

definition user_half :: "u64 \<Rightarrow> (u64 \<times> u64) set" where
  "user_half pt = {pt} \<times> {i. i < 256}"

lemma ptable_create_spec:
  assumes vm: "vm_ok s W" and free: "free_set s \<noteq> {}" and mmio: "mmio_regions s = []"
  shows "\<exists>pt s'. ptable_create s = Some (pt, s') \<and> vm_ok s' (W \<union> user_half pt) \<and> geom s' = geom s \<and> grown 1 s s'
    \<and> (\<forall>p. valid (user_half pt) pt p \<longrightarrow> length p = 4 \<longrightarrow> pte s' pt p = 0)
    \<and> (\<forall>r p. valid W r p \<longrightarrow> length p = 4 \<longrightarrow> pte s' r p = pte s r p)"
proof -
  have mem: "mem_ok s" and tree: "tree_ok s W" and cnt: "count_ok s W" and fin: "finite W"
    using vm by (auto simp: vm_ok_def)
  obtain pt s' where c: "ptable_create s = Some (pt, s')" "grown 1 s s'" "mem_ok s'" "table_page s' pt" "\<not> table_page s pt"
    and ge: "\<And>t i. frame t \<Longrightarrow> i < 512 \<Longrightarrow> t \<noteq> pt \<or> i < 256 \<Longrightarrow> get_ent s' t i = (if t = pt then 0 else get_ent s t i)"
    using ptable_create_fresh [OF vm free mmio] by blast
  have g: "geom s' = geom s" using c(2) by (simp add: grown_def)
  have ents: "same_link (get_ent s t i) (get_ent s' t i)" if "t \<in> tables s W" "i < 512" for t i
  proof -
    have t: "table_page s t" using that(1) tree_node(1) [OF tree] by (auto simp: tables_def)
    then have "t \<noteq> pt" using c(5) by auto
    then show ?thesis using ge [OF table_page_frame [OF mem t] that(2)] by (simp add: same_link_def)
  qed
  have pages: "pgs s' x = pgs s x" if x: "x \<in> page_ptrs s" "pfndb_page_to_phys s x \<in> tables s W" for x
  proof -
    have "table_page s (pfndb_page_to_phys s x)" using x(2) tree_node(1) [OF tree] by (auto simp: tables_def)
    then show ?thesis using table_page_not_free [OF mem _ x(1)] c(2) x(1) by (auto simp: grown_def)
  qed
  have keep1: "node s' r p = node s r p" if "valid W r p" "length p \<le> 4" for r p
    using tree_keep(1) [OF mem tree g ents pages] that by blast
  have keep2: "pte s' r p = pte s r p" if "valid W r p" "length p = 4" for r p
    using tree_keep(2) [OF mem tree g ents pages] that by blast
  have keep3: "tree_ok s' W" using tree_keep(3) [OF mem tree g ents pages] by blast
  have old: "valid W r p" if "valid (W \<union> user_half pt) r p" "r \<noteq> pt" for r p
    using that by (auto simp: valid_def user_half_def)
  have pt_new: "r \<noteq> pt" if "valid W r p" for r p
  proof -
    have "valid W r []" using valid_prefix [of W r "[]" p] that by simp
    then have "table_page s r" using tree_node(1) [OF tree, of r "[]" r] by simp
    then show ?thesis using c(5) by auto
  qed
  have npt: "node s' pt p = (if p = [] then Some pt else None)" if "valid (W \<union> user_half pt) pt p" for p
  proof (cases p)
    case (Cons i z)
    then have "i < 256 \<and> i < 512" using that pt_new [of pt "[i]"] by (auto simp: valid_def user_half_def)
    then show ?thesis using ge [OF table_page_frame [OF c(3,4)], of i] Cons by simp
  qed simp
  have "tree_ok s' (W \<union> user_half pt)"
  proof (rule tree_okI)
    fix r p t assume a: "valid (W \<union> user_half pt) r p" "length p \<le> 3" "node s' r p = Some t"
    show "table_page s' t"
    proof (cases "r = pt")
      case True
      then show ?thesis using npt a c(4) by (auto split: if_splits)
    next
      case False
      then show ?thesis using old [OF a(1)] tree_node(1) [OF keep3] a by blast
    qed
  next
    fix r p r' p' t
    assume a: "valid (W \<union> user_half pt) r p" "length p \<le> 3" "node s' r p = Some t"
      "valid (W \<union> user_half pt) r' p'" "length p' \<le> 3" "node s' r' p' = Some t"
    have W: "t \<noteq> pt" if "valid W r p" "length p \<le> 3" "node s' r p = Some t" for r p t
    proof -
      have "node s r p = Some t" using keep1 [OF that(1)] that(2,3) by simp
      then show ?thesis using tree_node(1) [OF tree that(1,2)] c(5) by auto
    qed
    show "r' = r \<and> p' = p"
    proof (cases "r = pt \<or> r' = pt")
      case True
      then have "t = pt \<and> r = pt \<and> r' = pt" using npt [of p] npt [of p'] a W old by (metis option.sel option.distinct(1))
      then show ?thesis using npt a by (auto split: if_splits)
    next
      case False
      then show ?thesis using old a tree_node(2) [OF keep3] by blast
    qed
  qed
  moreover have pte_pt: "pte s' pt p = 0" if v: "valid (W \<union> user_half pt) pt p" and l: "length p = 4" for p
  proof -
    obtain q j where p: "p = q @ [j]" using l by (cases p rule: rev_cases) auto
    then have "q \<noteq> []" using l by auto
    then show ?thesis using npt [of q] valid_prefix [of _ pt q "[j]"] v p by (simp add: pte_snoc)
  qed
  moreover have "count_ok s' (W \<union> user_half pt)"
  proof -
    have "valid W r p \<Longrightarrow> valid (W \<union> user_half pt) r p" for r p by (auto simp: valid_def)
    then have "valid (W \<union> user_half pt) r p \<and> length p = 4 \<and> pte s' r p \<noteq> 0
        \<longleftrightarrow> valid W r p \<and> length p = 4 \<and> pte s' r p \<noteq> 0" for r p
      using pte_pt old by metis
    then have "mapset s' (W \<union> user_half pt) x = mapset s' W x" for x unfolding mapset_def by blast
    then show ?thesis using count_grown [OF cnt c(2) keep2] by (simp add: count_ok_def)
  qed
  moreover have "finite (W \<union> user_half pt)" using fin by (simp add: user_half_def)
  ultimately have "vm_ok s' (W \<union> user_half pt)" using c(3) by (simp add: vm_ok_def)
  moreover have "valid (W \<union> user_half pt) pt p" if "valid (user_half pt) pt p" for p
    using that by (auto simp: valid_def)
  ultimately show ?thesis using c(1,2) g pte_pt keep2 by blast
qed

section \<open>The tables as a map\<close>

text \<open>What the virtual memory manager relies on: lookups after an unmapping and after a mapping, over
  addresses that are identified when they lie in the same page.\<close>

locale page_map =
  fixes ok :: "'s \<Rightarrow> bool"
    and addr :: "'a \<Rightarrow> bool"
    and key :: "'a \<Rightarrow> 'k"
    and look :: "'s \<Rightarrow> 'a \<Rightarrow> u64"
    and unmap :: "'a \<Rightarrow> 's \<Rightarrow> 's option"
    and room :: "'s \<Rightarrow> bool"
    and fits :: "'s \<Rightarrow> 'p \<Rightarrow> bool"
    and install :: "'a \<Rightarrow> 'p \<Rightarrow> u64 \<Rightarrow> 's \<Rightarrow> 's option"
    and entry :: "'s \<Rightarrow> 'p \<Rightarrow> u64 \<Rightarrow> u64"
  assumes look_key: "key a = key b \<Longrightarrow> look s a = look s b"
    and unmap_ok: "ok s \<Longrightarrow> addr a \<Longrightarrow> \<exists>s'. unmap a s = Some s' \<and> ok s'
      \<and> (\<forall>b. addr b \<longrightarrow> look s' b = (if key b = key a then 0 else look s b))"
    and install_ok: "ok s \<Longrightarrow> addr a \<Longrightarrow> look s a = 0 \<Longrightarrow> room s \<Longrightarrow> fits s p \<Longrightarrow>
      \<exists>s'. install a p f s = Some s' \<and> ok s'
        \<and> (\<forall>b. addr b \<longrightarrow> look s' b = (if key b = key a then entry s p f else look s b))"

context page_map begin

lemma unmap_range:
  "ok s \<Longrightarrow> \<forall>a \<in> set as. addr a \<Longrightarrow> \<exists>s'. foldM unmap as s = Some s' \<and> ok s'
     \<and> (\<forall>b. addr b \<longrightarrow> look s' b = (if key b \<in> key ` set as then 0 else look s b))"
proof (induction as arbitrary: s)
  case (Cons a as)
  then obtain s1 where s1: "unmap a s = Some s1" "ok s1"
      "\<And>b. addr b \<Longrightarrow> look s1 b = (if key b = key a then 0 else look s b)"
    using unmap_ok [of s a] by auto
  then obtain s' where "foldM unmap as s1 = Some s'" "ok s'"
      "\<And>b. addr b \<Longrightarrow> look s' b = (if key b \<in> key ` set as then 0 else look s1 b)"
    using Cons.IH [OF s1(2)] Cons.prems by auto
  then show ?case using s1 by (auto simp del: image_iff)
qed simp

lemma install_unmap:
  assumes "ok s" "addr a" "look s a = 0" "room s" "fits s p"
  shows "\<exists>s1 s2. install a p f s = Some s1 \<and> unmap a s1 = Some s2 \<and> ok s2 \<and> (\<forall>b. addr b \<longrightarrow> look s2 b = look s b)"
proof -
  obtain s1 where s1: "install a p f s = Some s1" "ok s1"
      "\<And>b. addr b \<Longrightarrow> look s1 b = (if key b = key a then entry s p f else look s b)"
    using install_ok [OF assms] by blast
  then obtain s2 where s2: "unmap a s1 = Some s2" "ok s2" "\<And>b. addr b \<Longrightarrow> look s2 b = (if key b = key a then 0 else look s1 b)"
    using unmap_ok [OF s1(2) assms(2)] by blast
  have "look s2 b = look s b" if "addr b" for b
    using s1(3) [OF that] s2(3) [OF that] look_key [of b a s] assms(3) by auto
  then show ?thesis using s1(1) s2(1,2) by blast
qed

end

definition mappable :: "(u64 \<times> u64) set \<Rightarrow> kmem \<Rightarrow> u64 \<Rightarrow> bool" where
  "mappable W s page \<longleftrightarrow> page \<in> page_ptrs s \<and> used_page (pgs s page) \<and> refcount (pgs s page) + 1 \<noteq> 0
     \<and> pfndb_page_to_phys s page \<notin> tables s W"

lemma length_vpath [simp]: "length (vpath v) = 4"
  by (simp add: vpath_def)

interpretation pt: page_map "\<lambda>s. vm_ok s W" "\<lambda>v. valid W pt (vpath v)" vpath "\<lambda>s v. pte s pt (vpath v)" "unmap_page pt"
  "\<lambda>s. 3 \<le> card (free_set s)" "mappable W" "map_page pt" "\<lambda>s page. leaf_value (pfndb_page_to_phys s page)" for W pt
proof unfold_locales
  fix s :: kmem and v page fl :: u64
  show "\<exists>s'. unmap_page pt v s = Some s' \<and> vm_ok s' W \<and> (\<forall>w. valid W pt (vpath w) \<longrightarrow>
      pte s' pt (vpath w) = (if vpath w = vpath v then 0 else pte s pt (vpath w)))"
    if "vm_ok s W" "valid W pt (vpath v)"
    using unmap_page_spec [OF that] by (metis length_vpath)
  show "\<exists>s'. map_page pt v page fl s = Some s' \<and> vm_ok s' W \<and> (\<forall>w. valid W pt (vpath w) \<longrightarrow>
      pte s' pt (vpath w) = (if vpath w = vpath v then leaf_value (pfndb_page_to_phys s page) fl else pte s pt (vpath w)))"
    if "vm_ok s W" "valid W pt (vpath v)" "pte s pt (vpath v) = 0" "3 \<le> card (free_set s)" "mappable W s page"
    using map_page_spec [OF that(1-3) _ _ _ _ that(4), of page fl] that(5) unfolding mappable_def by (metis length_vpath)
qed simp

section \<open>Properties of the page tables\<close>

lemma leaf_value_flags: "frame phys \<Longrightarrow> leaf_value phys fl AND NOT PAGE_FRAME_MASK = (fl AND NOT PAGE_FRAME_MASK) OR VMM_PRESENT"
proof (rule bit_word_eqI)
  fix n assume f: "frame phys" and n: "n < LENGTH(64)"
  have "bit phys n \<Longrightarrow> bit PAGE_FRAME_MASK n" using f unfolding frame_def by (metis bit_and_iff)
  moreover have "bit VMM_PRESENT n \<longleftrightarrow> n = 0" by (auto simp: VMM_PRESENT_def bit_1_iff)
  ultimately show "bit (leaf_value phys fl AND NOT PAGE_FRAME_MASK) n = bit ((fl AND NOT PAGE_FRAME_MASK) OR VMM_PRESENT) n"
    using n by (auto simp: bit_and_iff bit_or_iff bit_not_iff bit_leaf_value bit_frame_mask)
qed

lemma pte_zero_iff:
  assumes "pt \<noteq> 0"
  shows "get_mapping_flags pt v s = Some 0 \<longleftrightarrow> pte s pt (vpath v) = 0"
proof -
  have "bit (pte s pt (vpath v)) 0" if "pte s pt (vpath v) \<noteq> 0"
    using that by (auto simp: vpath_upath pte_snoc present_bit split: option.splits if_splits)
  moreover have "bit (NOT PAGE_FRAME_MASK) 0" by (simp add: bit_not_iff bit_frame_mask)
  ultimately have "pte s pt (vpath v) AND NOT PAGE_FRAME_MASK \<noteq> 0" if "pte s pt (vpath v) \<noteq> 0"
    using that by (metis bit_and_iff bit_0_eq bot_apply bot_bool_def)
  then show ?thesis using assms by (auto simp: get_mapping_flags_pte)
qed

text \<open>C14.  Mapping a page at an address that is not mapped succeeds when three pages are free (one for
  each missing level), the page is in use and its reference count does not overflow: afterwards the
  address translates to the page with the requested flags, the page has one more reference and one
  more share, and every other address of every address space translates as before.\<close>

theorem map_page_installs:
  assumes "vm_ok s W" and "valid W pt (vpath v)" and "get_mapping_flags pt v s = Some 0" and "mappable W s page"
    and "3 \<le> card (free_set s)"
  shows "\<exists>s'. map_page pt v page fl s = Some s' \<and> vm_ok s' W
    \<and> get_phys pt v s' = Some (pfndb_page_to_phys s page + (v AND 0xFFF))
    \<and> get_mapping_flags pt v s' = Some ((fl AND NOT PAGE_FRAME_MASK) OR VMM_PRESENT)
    \<and> refcount (pgs s' page) = refcount (pgs s page) + 1 \<and> u2 (pgs s' page) = u2 (pgs s page) + 1
    \<and> (\<forall>r w. valid W r (vpath w) \<and> (r, vpath w) \<noteq> (pt, vpath v) \<longrightarrow> get_phys r w s' = get_phys r w s
         \<and> get_mapping_flags r w s' = get_mapping_flags r w s)"
proof -
  have nz: "r \<noteq> 0" if "valid W r p" for r p using root_nonzero assms(1) that by (auto simp: vm_ok_def)
  have mem: "mem_ok s" using assms(1) by (simp add: vm_ok_def)
  have page: "page \<in> page_ptrs s" "used_page (pgs s page)" "refcount (pgs s page) + 1 \<noteq> 0" "pfndb_page_to_phys s page \<notin> tables s W"
    using assms(4) by (auto simp: mappable_def)
  note fr = page_phys(1) [OF mem page(1)]
  have absent: "pte s pt (vpath v) = 0" using pte_zero_iff [OF nz [OF assms(2)]] assms(3) by simp
  obtain s' where s': "map_page pt v page fl s = Some s'" "vm_ok s' W" "pgs s' page = mapped_once (pgs s page)"
      "\<And>r p. valid W r p \<Longrightarrow> length p = 4 \<Longrightarrow> pte s' r p
         = (if r = pt \<and> p = vpath v then leaf_value (pfndb_page_to_phys s page) fl else pte s r p)"
    using map_page_spec [OF assms(1,2) absent page assms(5), of fl] by blast
  have "pte s' pt (vpath v) = leaf_value (pfndb_page_to_phys s page) fl" using s'(4) [OF assms(2)] by simp
  then have "get_phys pt v s' = Some (pfndb_page_to_phys s page + (v AND 0xFFF))"
      "get_mapping_flags pt v s' = Some ((fl AND NOT PAGE_FRAME_MASK) OR VMM_PRESENT)"
    using nz [OF assms(2)] leaf_value_frame [OF fr] leaf_value_flags [OF fr] leaf_value_present(2)
    by (simp_all add: get_phys_pte get_mapping_flags_pte)
  moreover have "get_phys r w s' = get_phys r w s \<and> get_mapping_flags r w s' = get_mapping_flags r w s"
    if "valid W r (vpath w)" "(r, vpath w) \<noteq> (pt, vpath v)" for r w
    using s'(4) [OF that(1)] that(2) nz [OF that(1)] by (auto simp: get_phys_pte get_mapping_flags_pte)
  ultimately show ?thesis using s'(1-3) by (auto simp: mapped_once_fields)
qed

text \<open>An address space on the machine \<open>booted\<close>, with one page allocated to be mapped.\<close>

definition space :: "u64 \<times> kmem" where
  "space = the (ptable_create booted)"

definition space_page :: "u64 \<times> kmem" where
  "space_page = the (palloc_page (snd space))"

lemma booted_mem: "vm_ok booted {}" "mmio_regions booted = []" "card (free_set booted) = 7"
proof -
  show "mmio_regions booted = []" by (rule booted_state(8))
  show "card (free_set booted) = 7"
    using booted_state(3) distinct_card [of "map (page_at booted) [2..<9]"] by (simp add: freelist_is_def)
  have fl: "flags (pgs booted (page_at booted i)) = (if i \<in> {2..<9} then PAGE_FREE else PAGE_RESERVED)"
    if "i \<le> unat (max_pfn booted)" for i
    using booted_state(6) that by (simp add: db_flags_def)
  have "mem_ok booted" using booted_state(2,5) fl [of 0] by (simp add: mem_ok_def page_simps)
  moreover have "\<not> used_page (pgs booted q)" if "q \<in> page_ptrs booted" for q
    using that fl by (fastforce simp: page_ptrs_def used_page_def page_simps split: if_splits)
  ultimately show "vm_ok booted {}"
    by (simp add: vm_ok_def tree_ok_def count_ok_def mapset_def valid_def)
qed

lemma space_state:
  "ptable_create booted = Some space" "palloc_page (snd space) = Some space_page"
  "vm_ok (snd space_page) (user_half (fst space))"
  "valid (user_half (fst space)) (fst space) p \<Longrightarrow> length p = 4 \<Longrightarrow> pte (snd space_page) (fst space) p = 0"
  "mappable (user_half (fst space)) (snd space_page) (fst space_page)" "5 \<le> card (free_set (snd space_page))"
proof -
  have ne: "free_set booted \<noteq> {}" using booted_mem(3) by auto
  obtain pt s where c: "ptable_create booted = Some (pt, s)" "vm_ok s (user_half pt)" "grown 1 booted s"
      "\<And>p. valid (user_half pt) pt p \<Longrightarrow> length p = 4 \<Longrightarrow> pte s pt p = 0"
    using ptable_create_spec [OF booted_mem(1) ne booted_mem(2)] by auto
  have sp: "space = (pt, s)" using c(1) by (simp add: space_def)
  show "ptable_create booted = Some space" unfolding sp by (rule c(1))
  have inv: "pmm_inv s" using c(2) by (simp add: vm_ok_def mem_ok_def)
  have card: "6 \<le> card (free_set s)" using c(3) booted_mem(3) by (simp add: grown_def)
  then obtain x s1 where x: "palloc_page s = Some (x, s1)" using palloc_page_some [OF inv] by force
  have sx: "space_page = (x, s1)" unfolding space_page_def sp using x by simp
  show "palloc_page (snd space) = Some space_page" unfolding sp sx using x by simp
  note g = vm_grown [OF c(2) x]
  show "vm_ok (snd space_page) (user_half (fst space))" unfolding sp sx using g(1) by simp
  show "pte (snd space_page) (fst space) p = 0" if "valid (user_half (fst space)) (fst space) p" "length p = 4"
    using c(4) that g(2) unfolding sp sx by simp
  have gr: "grown 1 s s1" by (rule grown_palloc [OF inv x])
  then show "5 \<le> card (free_set (snd space_page))" using card unfolding sx by (simp add: grown_def)
  note px = palloc_page_inv [OF inv x]
  have mem: "mem_ok s" "tree_ok s (user_half pt)" using c(2) by (auto simp: vm_ok_def)
  have geo: "geom s1 = geom s" using px by (simp add: only_page_def)
  have xs: "x \<in> page_ptrs s" using px free_set_sub by blast
  have "pfndb_page_to_phys s x \<notin> tables s (user_half pt)"
    using table_page_not_free [OF mem(1) _ xs] tree_node(1) [OF mem(2)] px by (auto simp: tables_def)
  then show "mappable (user_half (fst space)) (snd space_page) (fst space_page)"
    using px xs geom_eqD(2,4) [OF geo] g(3) unfolding sp sx by (simp add: mappable_def used_page_def page_simps)
qed

lemma idx_bound: "(x :: u64) AND 0x1ff < 512"
proof -
  have "x AND 0x1ff = take_bit 9 x" by (simp add: take_bit_eq_mask mask_eq_exp_minus_1)
  moreover have "unat (take_bit 9 x) < 2 ^ 9" unfolding unsigned_take_bit_eq by (rule take_bit_nat_less_exp)
  ultimately show ?thesis by (simp add: word_less_nat_alt)
qed

lemma valid_user_half: "pml4_idx v < 256 \<Longrightarrow> valid (user_half pt) pt (vpath v)"
  using idx_bound by (auto simp: valid_def user_half_def vpath_def pml1_idx_def pml2_idx_def pml3_idx_def pml4_idx_def)

theorem map_page_installs_witness:
  "\<exists>s'. map_page (fst space) 0x401000 (fst space_page) VMM_USER (snd space_page) = Some s'
    \<and> get_phys (fst space) 0x401234 s' = Some (pfndb_page_to_phys (snd space_page) (fst space_page) + 0x234)"
proof -
  let ?pt = "fst space" and ?s = "snd space_page"
  have v: "valid (user_half ?pt) ?pt (vpath 0x401000)" "valid (user_half ?pt) ?pt (vpath 0x401234)"
    by (simp_all add: valid_user_half pml4_idx_def)
  have "?pt \<noteq> 0" using root_nonzero [OF _ _ v(1)] space_state(3) by (auto simp: vm_ok_def)
  then have "get_mapping_flags ?pt 0x401234 ?s = Some 0"
    using space_state(4) [OF v(2)] by (simp add: pte_zero_iff)
  moreover have "map_page ?pt 0x401234 = map_page ?pt 0x401000"
    by (intro ext) (simp add: map_page_def ALIGN_DOWN_def)
  moreover have "(0x401234 :: u64) AND 0xFFF = 0x234" by simp
  ultimately show ?thesis
    using map_page_installs [OF space_state(3) v(2) _ space_state(5), of VMM_USER] space_state(6) by auto
qed



text \<open>A new address space is empty: \<open>ptable_create\<close> succeeds while a page is free and no device
  region is registered, nothing in the lower half of the new table translates, and the address
  spaces that existed translate as before.\<close>

theorem ptable_create_empty:
  assumes "vm_ok s W" and "free_set s \<noteq> {}" and "mmio_regions s = []"
  shows "\<exists>pt s'. ptable_create s = Some (pt, s') \<and> vm_ok s' (W \<union> user_half pt)
    \<and> (\<forall>v. pml4_idx v < 256 \<longrightarrow> get_phys pt v s' = Some 0)
    \<and> (\<forall>r v. valid W r (vpath v) \<longrightarrow> get_phys r v s' = get_phys r v s)"
proof -
  obtain pt s' where c: "ptable_create s = Some (pt, s')" "vm_ok s' (W \<union> user_half pt)"
      "\<And>p. valid (user_half pt) pt p \<Longrightarrow> length p = 4 \<Longrightarrow> pte s' pt p = 0"
      "\<And>r p. valid W r p \<Longrightarrow> length p = 4 \<Longrightarrow> pte s' r p = pte s r p"
    using ptable_create_spec [OF assms] by auto
  have nz: "r \<noteq> 0" if "valid W r p" for r p using root_nonzero assms(1) that by (auto simp: vm_ok_def)
  have "valid (W \<union> user_half pt) pt []" by (auto simp: valid_def user_half_def intro: exI [of _ 0])
  then have "pt \<noteq> 0" using root_nonzero c(2) by (auto simp: vm_ok_def)
  then have "get_phys pt v s' = Some 0" if "pml4_idx v < 256" for v
    using c(3) [OF valid_user_half [OF that] length_vpath] by (simp add: get_phys_pte)
  moreover have "get_phys r v s' = get_phys r v s" if "valid W r (vpath v)" for r v
    using c(4) [OF that length_vpath] nz [OF that] by (simp add: get_phys_pte)
  ultimately show ?thesis using c(1,2) by blast
qed

theorem ptable_create_empty_witness:
  "\<exists>pt s'. ptable_create booted = Some (pt, s') \<and> get_phys pt 0x401000 s' = Some 0"
proof -
  have "free_set booted \<noteq> {}" using booted_mem(3) by auto
  moreover have "pml4_idx 0x401000 < 256" by (simp add: pml4_idx_def)
  ultimately show ?thesis using ptable_create_empty [OF booted_mem(1) _ booted_mem(2)] by blast
qed

end
