(* ===== verification/Vmm.thy ===== *)
theory Vmm
  imports Paging
begin

text \<open>
  Virtual address spaces, \<open>kernel/src/mm/vmm.c\<close>: the list of virtual address descriptors of a
  process (a VAD describes one mapped range) and the operations that keep it in step with the page
  tables.  A list of VADs is a HOL list, in the order of the \<open>next\<close> pointers.  \<open>vmst\<close> is the state
  the operations run on: the memory of \<open>Paging\<close>, the outcomes of the coming \<open>kzalloc\<close> calls
  (\<open>False\<close> is NULL, and an exhausted list stands for success), and the reference counts of the file
  nodes that VADs point to.  The pages of a file come from the file system, so \<open>vfs_node_get_page\<close>
  is a parameter.  \<open>vas_switch\<close> only loads \<open>cr3\<close> and has no counterpart.
\<close>

section \<open>Descriptors\<close>

definition VAD_PROT_MASK :: u64 where "VAD_PROT_MASK = 0xFFF OR VMM_NX"
definition VAD_ANONYMOUS :: u64 where "VAD_ANONYMOUS = push_bit 12 1"
definition VAD_FIXED :: u64 where "VAD_FIXED = push_bit 13 1"
definition VAD_FILE :: u64 where "VAD_FILE = push_bit 15 1"
definition VAD_SHARED :: u64 where "VAD_SHARED = push_bit 16 1"
abbreviation VAS_USER_START :: u64 where "VAS_USER_START \<equiv> 0x1000"
abbreviation VAS_USER_END :: u64 where "VAS_USER_END \<equiv> 0x7FFFFFFFFFFF"

record vad =
  v_start :: u64
  v_end :: u64
  v_flags :: u64
  v_file :: u64
  v_off :: u64

record vas =
  pml4 :: u64
  list_head :: "vad list"
  user_start :: u64

record vmst =
  vm :: kmem
  kz :: "bool list"
  node_refs :: "u64 \<Rightarrow> nat"

definition kz_ok :: "vmst \<Rightarrow> bool \<times> vmst" where
  "kz_ok st = (case kz st of [] \<Rightarrow> (True, st) | b # bs \<Rightarrow> (b, st\<lparr>kz := bs\<rparr>))"

definition node_ref :: "u64 \<Rightarrow> vmst \<Rightarrow> vmst" where
  "node_ref f st = (if f \<noteq> 0 then st\<lparr>node_refs := (node_refs st)(f := node_refs st f + 1)\<rparr> else st)"

definition node_release :: "u64 \<Rightarrow> vmst \<Rightarrow> vmst" where
  "node_release f st =
     (if f = 0 \<or> node_refs st f = 0 then st else st\<lparr>node_refs := (node_refs st)(f := node_refs st f - 1)\<rparr>)"

definition vad_alloc :: "u64 \<Rightarrow> u64 \<Rightarrow> u64 \<Rightarrow> vmst \<Rightarrow> vad option \<times> vmst" where
  "vad_alloc start end fl st =
     (case kz_ok st of
        (False, st) \<Rightarrow> (None, st)
      | (True, st) \<Rightarrow> (Some \<lparr>v_start = start, v_end = end, v_flags = fl, v_file = 0, v_off = 0\<rparr>, st))"

definition vad_alloc_file :: "u64 \<Rightarrow> u64 \<Rightarrow> u64 \<Rightarrow> u64 \<Rightarrow> u64 \<Rightarrow> vmst \<Rightarrow> vad option \<times> vmst" where
  "vad_alloc_file start end fl file off st =
     (case vad_alloc start end (fl OR VAD_FILE) st of
        (None, st) \<Rightarrow> (None, st)
      | (Some v, st) \<Rightarrow> (Some (v\<lparr>v_file := file, v_off := off\<rparr>), node_ref file st))"

definition vad_free :: "vad \<Rightarrow> vmst \<Rightarrow> vmst" where
  "vad_free v st = (if v_file v \<noteq> 0 then node_release (v_file v) st else st)"

definition vad_clone_segment :: "vad \<Rightarrow> u64 \<Rightarrow> u64 \<Rightarrow> vmst \<Rightarrow> vad option \<times> vmst" where
  "vad_clone_segment src start end st =
     (if v_flags src AND VAD_FILE \<noteq> 0
      then vad_alloc_file start end (v_flags src) (v_file src) (v_off src + (start - v_start src)) st
      else vad_alloc start end (v_flags src) st)"

fun vad_insert :: "vad \<Rightarrow> vad list \<Rightarrow> vad list" where
  "vad_insert v [] = [v]"
| "vad_insert v (w # ws) = (if v_start w < v_start v then w # vad_insert v ws else v # w # ws)"

text \<open>The right remainder of a split VAD starts at \<open>end\<close>, so the loop of the C code passes over it
  when it meets it next.\<close>

fun vad_remove_range :: "u64 \<Rightarrow> u64 \<Rightarrow> vad list \<Rightarrow> vmst \<Rightarrow> vad list \<times> vmst" where
  "vad_remove_range start end [] st = ([], st)"
| "vad_remove_range start end (v # vs) st =
     (if v_end v \<le> start \<or> v_start v \<ge> end
      then (let (ws, st) = vad_remove_range start end vs st in (v # ws, st))
      else
        (let (left, st) = (if v_start v < start then vad_clone_segment v (v_start v) start st else (None, st));
             (right, st) = (if v_end v > end then vad_clone_segment v end (v_end v) st else (None, st));
             st = vad_free v st;
             (ws, st) = vad_remove_range start end vs st
         in ((case left of None \<Rightarrow> [] | Some l \<Rightarrow> [l]) @ (case right of None \<Rightarrow> [] | Some r \<Rightarrow> [r]) @ ws, st)))"

section \<open>Searching\<close>

fun find_free_from :: "u64 \<Rightarrow> u64 \<Rightarrow> u64 \<Rightarrow> vad list \<Rightarrow> u64 \<times> u64" where
  "find_free_from len base end [] = (base, end)"
| "find_free_from len base end (v # vs) =
     (if end \<le> v_start v then (base, end)
      else if base < v_end v
      then (let base = ALIGN_UP (v_end v) PAGE_SIZE in find_free_from len base (base + len) vs)
      else find_free_from len base end vs)"

definition vas_find_free :: "vad list \<Rightarrow> u64 \<Rightarrow> u64 \<Rightarrow> u64" where
  "vas_find_free vads hint len =
     (let base = ALIGN_UP hint PAGE_SIZE;
          (base, end) = find_free_from len base (base + len) vads
      in if end > VAS_USER_END \<or> end < base then 0 else base)"

fun vas_overlaps :: "vad list \<Rightarrow> u64 \<Rightarrow> u64 \<Rightarrow> bool" where
  "vas_overlaps [] start end \<longleftrightarrow> False"
| "vas_overlaps (v # vs) start end \<longleftrightarrow>
     (if v_start v \<ge> end then False else if v_end v > start then True else vas_overlaps vs start end)"

text \<open>The choice of the base address, the same in the three \<open>vas_map_*\<close> functions; \<open>None\<close> is
  \<open>return 0\<close>.\<close>

definition vas_place :: "vas \<Rightarrow> u64 \<Rightarrow> u64 \<Rightarrow> u64 \<Rightarrow> u64 option" where
  "vas_place vas hint len fl =
     (if fl AND VAD_FIXED \<noteq> 0 then
        (let base = ALIGN_DOWN hint PAGE_SIZE; end = base + len in
         if end > VAS_USER_END \<or> end < base then None
         else if vas_overlaps (list_head vas) base end then None
         else Some base)
      else
        (let search_hint = (if hint \<noteq> 0 then hint else user_start vas);
             base = vas_find_free (list_head vas) search_hint len
         in if base = 0 then None else Some base))"

section \<open>Page loops\<close>

text \<open>\<open>for (va = start; va < end; va += PAGE_SIZE)\<close> with a body that may leave the loop (\<open>False\<close>)
  or panic (\<open>None\<close>).\<close>

partial_function (option) for_pages :: "(u64 \<Rightarrow> 's \<Rightarrow> (bool \<times> 's) option) \<Rightarrow> u64 \<Rightarrow> u64 \<Rightarrow> 's \<Rightarrow> (bool \<times> 's) option" where
  "for_pages f va end s =
     (if va < end
      then Option.bind (f va s) (\<lambda>(go, s). if go then for_pages f (va + PAGE_SIZE) end s else Some (False, s))
      else Some (True, s))"

definition each :: "(u64 \<Rightarrow> 's \<Rightarrow> 's option) \<Rightarrow> u64 \<Rightarrow> 's \<Rightarrow> (bool \<times> 's) option" where
  "each f va s = map_option (Pair True) (f va s)"

definition on_mem :: "(kmem \<Rightarrow> kmem option) \<Rightarrow> vmst \<Rightarrow> vmst option" where
  "on_mem f st = map_option (\<lambda>m. st\<lparr>vm := m\<rparr>) (f (vm st))"

definition commit_anon_page :: "u64 \<Rightarrow> u64 \<Rightarrow> u64 \<Rightarrow> kmem \<Rightarrow> (bool \<times> kmem) option" where
  "commit_anon_page pt prot va m = do {
     (page, m) \<leftarrow> palloc_page m;
     if page = 0 then Some (False, m)
     else do {
       m \<leftarrow> map_page pt va page prot m;
       m \<leftarrow> page_unref page m;
       Some (True, m) } }"

definition commit_anon :: "u64 \<Rightarrow> vad \<Rightarrow> kmem \<Rightarrow> (bool \<times> kmem) option" where
  "commit_anon pt vad m =
     for_pages (commit_anon_page pt (v_flags vad AND VAD_PROT_MASK)) (v_start vad) (v_end vad) m"

text \<open>\<open>get_page file index for_write\<close> is \<open>vfs_node_get_page\<close>: it gives the page, or \<open>0\<close> for an error.\<close>

type_synonym page_source = "u64 \<Rightarrow> u64 \<Rightarrow> bool \<Rightarrow> kmem \<Rightarrow> (u64 \<times> kmem) option"

definition commit_file_page :: "page_source \<Rightarrow> u64 \<Rightarrow> u64 \<Rightarrow> u64 \<Rightarrow> u64 \<Rightarrow> u64 \<times> kmem \<Rightarrow> (bool \<times> u64 \<times> kmem) option" where
  "commit_file_page get_page pt prot file va = (\<lambda>(file_off, m). do {
     (page, m) \<leftarrow> get_page file (file_off div PAGE_SIZE) (prot AND VMM_WRITABLE \<noteq> 0) m;
     if page = 0 then Some (False, file_off, m)
     else do {
       m \<leftarrow> map_page pt va page prot m;
       Some (True, file_off + PAGE_SIZE, m) } })"

definition commit_file :: "page_source \<Rightarrow> u64 \<Rightarrow> vad \<Rightarrow> kmem \<Rightarrow> (bool \<times> kmem) option" where
  "commit_file get_page pt vad m =
     map_option (\<lambda>(ok, _, m). (ok, m))
       (for_pages (commit_file_page get_page pt (v_flags vad AND VAD_PROT_MASK) (v_file vad))
          (v_start vad) (v_end vad) (v_off vad, m))"

definition uncommit_range :: "u64 \<Rightarrow> u64 \<Rightarrow> u64 \<Rightarrow> kmem \<Rightarrow> kmem option" where
  "uncommit_range pt start end m = map_option snd (for_pages (each (unmap_page pt)) start end m)"

section \<open>Address spaces\<close>

definition vas_create :: "u64 \<Rightarrow> vmst \<Rightarrow> (vas option \<times> vmst) option" where
  "vas_create pt st =
     (case kz_ok st of
        (False, st) \<Rightarrow> Some (None, st)
      | (True, st) \<Rightarrow> do {
          (pt, m) \<leftarrow> (if pt \<noteq> 0 then Some (pt, vm st) else ptable_create (vm st));
          Some (if pt = 0 then None else Some \<lparr>pml4 = pt, list_head = [], user_start = VAS_USER_START\<rparr>,
                st\<lparr>vm := m\<rparr>) })"

definition vas_destroy :: "vas \<Rightarrow> vmst \<Rightarrow> vmst option" where
  "vas_destroy vas st = do {
     st \<leftarrow> foldM (\<lambda>v st. do {
              st \<leftarrow> on_mem (uncommit_range (pml4 vas) (v_start v) (v_end v)) st;
              Some (vad_free v st) }) (list_head vas) st;
     on_mem (ptable_destroy (pml4 vas)) st }"

text \<open>The mapping functions return the base address, or \<open>0\<close>.\<close>

definition vas_map_anon :: "u64 \<Rightarrow> u64 \<Rightarrow> u64 \<Rightarrow> vas \<Rightarrow> vmst \<Rightarrow> (u64 \<times> vas \<times> vmst) option" where
  "vas_map_anon hint len fl vas st =
     (if len = 0 then Some (0, vas, st)
      else let len = ALIGN_UP len PAGE_SIZE in
        case vas_place vas hint len fl of
          None \<Rightarrow> Some (0, vas, st)
        | Some base \<Rightarrow>
            (case vad_alloc base (base + len) (fl OR VAD_ANONYMOUS) st of
               (None, st) \<Rightarrow> Some (0, vas, st)
             | (Some vad, st) \<Rightarrow> do {
                 (ok, m) \<leftarrow> commit_anon (pml4 vas) vad (vm st);
                 if \<not> ok then do {
                   m \<leftarrow> uncommit_range (pml4 vas) base (base + len) m;
                   Some (0, vas, st\<lparr>vm := m\<rparr>) }
                 else Some (base, vas\<lparr>list_head := vad_insert vad (list_head vas), user_start := base + len\<rparr>,
                            st\<lparr>vm := m\<rparr>) }))"

definition map_phys_page :: "u64 \<Rightarrow> u64 \<Rightarrow> u64 \<Rightarrow> u64 \<Rightarrow> u64 \<Rightarrow> kmem \<Rightarrow> kmem option" where
  "map_phys_page pt base phys prot off m =
     (let p = phys + off; page = pfndb_phys_to_page m p in
      if page \<noteq> 0 then map_page pt (base + off) page prot m else map_page_phys pt (base + off) p prot m)"

definition vas_map_phys :: "u64 \<Rightarrow> u64 \<Rightarrow> u64 \<Rightarrow> u64 \<Rightarrow> vas \<Rightarrow> vmst \<Rightarrow> (u64 \<times> vas \<times> vmst) option" where
  "vas_map_phys hint phys len fl vas st =
     (if len = 0 then Some (0, vas, st)
      else let len = ALIGN_UP len PAGE_SIZE; phys = ALIGN_DOWN phys PAGE_SIZE in
        case vas_place vas hint len fl of
          None \<Rightarrow> Some (0, vas, st)
        | Some base \<Rightarrow> do {
            let prot = fl AND VAD_PROT_MASK;
            (_, m) \<leftarrow> for_pages (each (map_phys_page (pml4 vas) base phys prot)) 0 len (vm st);
            let st = st\<lparr>vm := m\<rparr>;
            case vad_alloc base (base + len) (fl AND NOT VAD_ANONYMOUS) st of
              (None, st) \<Rightarrow> do {
                (_, m) \<leftarrow> for_pages (each (\<lambda>off. unmap_page (pml4 vas) (base + off))) 0 len (vm st);
                Some (0, vas, st\<lparr>vm := m\<rparr>) }
            | (Some vad, st) \<Rightarrow> Some (base, vas\<lparr>list_head := vad_insert vad (list_head vas)\<rparr>, st) })"

definition vas_map_file ::
    "page_source \<Rightarrow> u64 \<Rightarrow> u64 \<Rightarrow> u64 \<Rightarrow> u64 \<Rightarrow> u64 \<Rightarrow> vas \<Rightarrow> vmst \<Rightarrow> (u64 \<times> vas \<times> vmst) option" where
  "vas_map_file get_page hint file file_offset len fl vas st =
     (if file = 0 \<or> len = 0 then Some (0, vas, st)
      else if file_offset AND (PAGE_SIZE - 1) \<noteq> 0 then Some (0, vas, st)
      else let len = ALIGN_UP len PAGE_SIZE in
        case vas_place vas hint len fl of
          None \<Rightarrow> Some (0, vas, st)
        | Some base \<Rightarrow>
            (case vad_alloc_file base (base + len) fl file file_offset st of
               (None, st) \<Rightarrow> Some (0, vas, st)
             | (Some vad, st) \<Rightarrow> do {
                 (ok, m) \<leftarrow> commit_file get_page (pml4 vas) vad (vm st);
                 if \<not> ok then do {
                   m \<leftarrow> uncommit_range (pml4 vas) base (base + len) m;
                   Some (0, vas, vad_free vad (st\<lparr>vm := m\<rparr>)) }
                 else Some (base, vas\<lparr>list_head := vad_insert vad (list_head vas), user_start := base + len\<rparr>,
                            st\<lparr>vm := m\<rparr>) }))"

text \<open>The two branches of the loop in \<open>vas_unmap\<close> unmap the same pages.\<close>

fun unmap_vads :: "u64 \<Rightarrow> u64 \<Rightarrow> u64 \<Rightarrow> vad list \<Rightarrow> kmem \<Rightarrow> kmem option" where
  "unmap_vads pt start end [] m = Some m"
| "unmap_vads pt start end (v # vs) m =
     (if \<not> v_start v < end then Some m
      else if v_end v \<le> start then unmap_vads pt start end vs m
      else let lo = (if v_start v > start then v_start v else start);
               hi = (if v_end v < end then v_end v else end)
        in Option.bind (uncommit_range pt lo hi m) (unmap_vads pt start end vs))"

definition vas_unmap :: "u64 \<Rightarrow> u64 \<Rightarrow> vas \<Rightarrow> vmst \<Rightarrow> (vas \<times> vmst) option" where
  "vas_unmap start len vas st =
     (if len = 0 then Some (vas, st)
      else let start = ALIGN_DOWN start PAGE_SIZE; len = ALIGN_UP len PAGE_SIZE; end = start + len in
        do {
          st \<leftarrow> on_mem (unmap_vads (pml4 vas) start end (list_head vas)) st;
          let (vads, st) = vad_remove_range start end (list_head vas) st;
          Some (vas\<lparr>list_head := vads\<rparr>, st) })"

definition protect_page :: "u64 \<Rightarrow> u64 \<Rightarrow> u64 \<Rightarrow> kmem \<Rightarrow> kmem option" where
  "protect_page pt new_prot va m = do {
     phys \<leftarrow> get_phys pt va m;
     if phys = 0 then Some m
     else let page = pfndb_phys_to_page m phys in
       if page \<noteq> 0 then do {
         m \<leftarrow> page_ref page m;
         m \<leftarrow> unmap_page pt va m;
         m \<leftarrow> map_page pt va page new_prot m;
         page_unref page m }
       else do {
         m \<leftarrow> unmap_page pt va m;
         map_page_phys pt va phys new_prot m } }"

fun protect_vads :: "u64 \<Rightarrow> u64 \<Rightarrow> u64 \<Rightarrow> u64 \<Rightarrow> vad list \<Rightarrow> kmem \<Rightarrow> (vad list \<times> kmem) option" where
  "protect_vads pt start end new_prot [] m = Some ([], m)"
| "protect_vads pt start end new_prot (v # vs) m =
     (if \<not> v_start v < end then Some (v # vs, m)
      else if v_end v \<le> start
      then map_option (\<lambda>(ws, m). (v # ws, m)) (protect_vads pt start end new_prot vs m)
      else let lo = (if v_start v > start then v_start v else start);
               hi = (if v_end v < end then v_end v else end)
        in do {
          (_, m) \<leftarrow> for_pages (each (protect_page pt new_prot)) lo hi m;
          (ws, m) \<leftarrow> protect_vads pt start end new_prot vs m;
          Some (v\<lparr>v_flags := (v_flags v AND NOT VAD_PROT_MASK) OR new_prot\<rparr> # ws, m) })"

definition vas_protect :: "u64 \<Rightarrow> u64 \<Rightarrow> u64 \<Rightarrow> vas \<Rightarrow> vmst \<Rightarrow> (vas \<times> vmst) option" where
  "vas_protect start len new_prot vas st =
     (if len = 0 then Some (vas, st)
      else let start = ALIGN_DOWN start PAGE_SIZE; len = ALIGN_UP len PAGE_SIZE; end = start + len;
               new_prot = new_prot AND VAD_PROT_MASK in
        map_option (\<lambda>(vads, m). (vas\<lparr>list_head := vads\<rparr>, st\<lparr>vm := m\<rparr>))
          (protect_vads (pml4 vas) start end new_prot (list_head vas) (vm st)))"

definition vas_find :: "vas \<Rightarrow> u64 \<Rightarrow> vad option" where
  "vas_find vas addr = find (\<lambda>v. addr \<ge> v_start v \<and> addr < v_end v) (list_head vas)"

fun range_mapped_from :: "u64 \<Rightarrow> u64 \<Rightarrow> vad list \<Rightarrow> bool" where
  "range_mapped_from end pos [] \<longleftrightarrow> pos \<ge> end"
| "range_mapped_from end pos (v # vs) \<longleftrightarrow>
     (if \<not> pos < end then pos \<ge> end
      else if v_end v \<le> pos then range_mapped_from end pos vs
      else if v_start v > pos then False
      else range_mapped_from end (if v_end v > pos then v_end v else pos) vs)"

definition vas_range_mapped :: "vas \<Rightarrow> u64 \<Rightarrow> u64 \<Rightarrow> bool" where
  "vas_range_mapped vas start len \<longleftrightarrow>
     (if len = 0 then False
      else let start = ALIGN_DOWN start PAGE_SIZE; len = ALIGN_UP len PAGE_SIZE; end = start + len in
        if end < start then False else range_mapped_from end start (list_head vas))"

definition vas_adopt :: "u64 \<Rightarrow> vmst \<Rightarrow> (vas option \<times> vmst) option" where
  "vas_adopt existing_pml4 st = do {
     require (existing_pml4 \<noteq> 0);
     Some (case kz_ok st of
       (False, st) \<Rightarrow> (None, st)
     | (True, st) \<Rightarrow> (Some \<lparr>pml4 = existing_pml4, list_head = [], user_start = VAS_USER_START\<rparr>, st)) }"

section \<open>Faults\<close>

text \<open>\<open>True\<close> is the result \<open>0\<close>, \<open>False\<close> the result \<open>-1\<close>.\<close>

definition vas_handle_page_fault :: "vas \<Rightarrow> u64 \<Rightarrow> u64 \<Rightarrow> kmem \<Rightarrow> (bool \<times> kmem) option" where
  "vas_handle_page_fault vas addr err m =
     (let va = ALIGN_DOWN addr PAGE_SIZE in
      case vas_find vas va of
        None \<Rightarrow> Some (False, m)
      | Some vad \<Rightarrow>
          if err AND 2 = 0 \<or> err AND 1 = 0 then Some (False, m)
          else if v_flags vad AND VMM_WRITABLE = 0 \<or> v_flags vad AND VAD_SHARED \<noteq> 0 then Some (False, m)
          else do {
            phys \<leftarrow> get_phys (pml4 vas) va m;
            if phys = 0 then Some (False, m)
            else let old_page = pfndb_phys_to_page m (ALIGN_DOWN phys PAGE_SIZE) in
              if old_page = 0 \<or> \<not> page_is_cow (pgs m old_page) then Some (False, m)
              else let prot = v_flags vad AND VAD_PROT_MASK in
                if \<not> page_is_shared (pgs m old_page) then do {
                  m \<leftarrow> page_ref old_page m;
                  m \<leftarrow> unmap_page (pml4 vas) va m;
                  m \<leftarrow> page_clear_cow old_page m;
                  m \<leftarrow> map_page (pml4 vas) va old_page prot m;
                  m \<leftarrow> page_unref old_page m;
                  Some (True, m) }
                else do {
                  (new_page, m) \<leftarrow> palloc_page m;
                  if new_page = 0 then Some (False, m)
                  else do {
                    let new_phys = pfndb_page_to_phys m new_page;
                    let m = m\<lparr>ram := memcpy (ram m) new_phys (ALIGN_DOWN phys PAGE_SIZE) PAGE_SIZE\<rparr>;
                    m \<leftarrow> unmap_page (pml4 vas) va m;
                    m \<leftarrow> map_page (pml4 vas) va new_page prot m;
                    m \<leftarrow> page_unref new_page m;
                    Some (True, m) } } })"

definition access_page :: "vas \<Rightarrow> bool \<Rightarrow> u64 \<Rightarrow> kmem \<Rightarrow> (bool \<times> kmem) option" where
  "access_page vas wr va m = do {
     fl \<leftarrow> get_mapping_flags (pml4 vas) va m;
     if fl AND VMM_PRESENT = 0 then Some (False, m)
     else if wr \<and> fl AND VMM_WRITABLE = 0 then do {
       (ok, m) \<leftarrow> vas_handle_page_fault vas va 3 m;
       if \<not> ok then Some (False, m)
       else do {
         fl \<leftarrow> get_mapping_flags (pml4 vas) va m;
         Some (\<not> (fl AND VMM_PRESENT = 0 \<or> fl AND VMM_WRITABLE = 0), m) } }
     else Some (True, m) }"

definition vas_user_access_ok :: "vas \<Rightarrow> u64 \<Rightarrow> u64 \<Rightarrow> bool \<Rightarrow> kmem \<Rightarrow> (bool \<times> kmem) option" where
  "vas_user_access_ok vas addr len wr m =
     (if addr < VAS_USER_START \<or> addr \<ge> VAS_USER_END then Some (False, m)
      else if len > VAS_USER_END - addr then Some (False, m)
      else if len = 0 then Some (True, m)
      else for_pages (access_page vas wr) (ALIGN_DOWN addr PAGE_SIZE) (ALIGN_UP (addr + len) PAGE_SIZE) m)"

section \<open>Copying an address space\<close>

definition clone_page :: "u64 \<Rightarrow> u64 \<Rightarrow> vad \<Rightarrow> u64 \<Rightarrow> kmem \<Rightarrow> kmem option" where
  "clone_page src_pt dst_pt v va m = do {
     src_phys \<leftarrow> get_phys src_pt va m;
     if src_phys = 0 then Some m
     else do {
       let src_page_phys = ALIGN_DOWN src_phys PAGE_SIZE;
       let page = pfndb_phys_to_page m src_page_phys;
       let prot = v_flags v AND VAD_PROT_MASK;
       if page \<noteq> 0 then
         if prot AND VMM_WRITABLE \<noteq> 0 \<and> v_flags v AND VAD_SHARED = 0 then do {
           let cow_flags = prot AND NOT VMM_WRITABLE;
           m \<leftarrow> page_ref page m;
           m \<leftarrow> unmap_page src_pt va m;
           m \<leftarrow> map_page src_pt va page cow_flags m;
           m \<leftarrow> page_unref page m;
           m \<leftarrow> page_mark_cow page m;
           map_page dst_pt va page cow_flags m }
         else map_page dst_pt va page prot m
       else map_page_phys dst_pt va src_page_phys prot m } }"

fun clone_vads :: "vas \<Rightarrow> vad list \<Rightarrow> vas \<times> vmst \<Rightarrow> (vas option \<times> vmst) option" where
  "clone_vads src [] (dst, st) = Some (Some dst, st)"
| "clone_vads src (v # vs) (dst, st) =
     (case (if v_flags v AND VAD_FILE \<noteq> 0
            then vad_alloc_file (v_start v) (v_end v) (v_flags v) (v_file v) (v_off v) st
            else vad_alloc (v_start v) (v_end v) (v_flags v) st) of
        (None, st) \<Rightarrow> do { st \<leftarrow> vas_destroy dst st; Some (None, st) }
      | (Some nv, st) \<Rightarrow> do {
          let dst = dst\<lparr>list_head := vad_insert nv (list_head dst)\<rparr>;
          (_, m) \<leftarrow> for_pages (each (clone_page (pml4 src) (pml4 dst) v)) (v_start v) (v_end v) (vm st);
          clone_vads src vs (dst, st\<lparr>vm := m\<rparr>) })"

definition vas_clone :: "vas \<Rightarrow> vmst \<Rightarrow> (vas option \<times> vmst) option" where
  "vas_clone src st = do {
     (dst, st) \<leftarrow> vas_create 0 st;
     case dst of
       None \<Rightarrow> Some (None, st)
     | Some dst \<Rightarrow> clone_vads src (list_head src) (dst\<lparr>user_start := user_start src\<rparr>, st) }"

section \<open>Page alignment\<close>

lemma unat_add_small: "unat a + unat b < 18446744073709551616 \<Longrightarrow> unat (a + b) = unat a + unat (b :: u64)"
  by (simp add: unat_word_ariths)

lemma unat_add_nowrap: "a \<le> a + b \<Longrightarrow> unat (a + b) = unat a + unat (b :: u64)"
proof (rule ccontr)
  assume le: "a \<le> a + b" and ne: "unat (a + b) \<noteq> unat a + unat b"
  have ge: "18446744073709551616 \<le> unat a + unat b" using ne unat_add_small [of a b] by linarith
  have "unat (a + b) = unat a + unat b - 18446744073709551616"
    using ge mod_less [of "unat a + unat b - 18446744073709551616" 18446744073709551616]
      le_mod_geq [OF ge] unat_bound64 [of a] unat_bound64 [of b]
    unfolding unat_word_ariths by (simp del: mod_less unat_bound64)
  then show False using le unat_bound64 [of b] ge unfolding word_le_nat_alt by linarith
qed


definition paged :: "u64 \<Rightarrow> bool" where
  "paged x \<longleftrightarrow> unat x mod 4096 = 0"

lemma unat_align_down: "unat (ALIGN_DOWN x PAGE_SIZE) = unat x div 4096 * 4096"
proof -
  have "unat x div 4096 * 4096 < 18446744073709551616"
    using unat_bound64 [of x] by (meson div_times_less_eq_dividend le_less_trans)
  then show ?thesis by (simp add: ALIGN_DOWN_def unat_word_ariths unat_div)
qed

lemma unat_align_up:
  assumes "unat x \<le> 18446744073709547520"
  shows "unat (ALIGN_UP x PAGE_SIZE) = (unat x + 4095) div 4096 * 4096"
proof -
  have s: "unat (x + 4095) = unat x + 4095" using assms by (simp add: unat_word_ariths)
  have "(unat x + 4095) div 4096 * 4096 < 18446744073709551616"
    using unat_bound64 [of "x + 4095"] unfolding s by (meson div_times_less_eq_dividend le_less_trans)
  then show ?thesis by (simp add: ALIGN_UP_def unat_word_ariths unat_div s)
qed

lemma paged_align [simp]: "paged (ALIGN_DOWN x PAGE_SIZE)" "unat x \<le> 18446744073709547520 \<Longrightarrow> paged (ALIGN_UP x PAGE_SIZE)"
  by (simp_all add: paged_def unat_align_down unat_align_up)

lemma paged_obtain:
  assumes "paged x"
  obtains k where "unat x = 4096 * k" "k < 4503599627370496"
proof -
  obtain k where k: "unat x = 4096 * k" using assms unfolding paged_def by (metis dvd_def mod_0_imp_dvd)
  then show ?thesis using that [of k] unat_bound64 [of x] by linarith
qed

lemma paged_align_up: "paged x \<Longrightarrow> ALIGN_UP x PAGE_SIZE = x"
  by (elim paged_obtain) (simp add: word_unat_eq_iff unat_align_up)

lemma paged_align_down: "paged x \<Longrightarrow> ALIGN_DOWN x PAGE_SIZE = x"
  by (elim paged_obtain) (simp add: word_unat_eq_iff unat_align_down)

lemma align_up_bounds:
  assumes "unat x \<le> 18446744073709547520"
  shows "x \<le> ALIGN_UP x PAGE_SIZE" "paged b \<Longrightarrow> x \<le> b \<Longrightarrow> ALIGN_UP x PAGE_SIZE \<le> b"
proof -
  have e: "(unat x + 4095) div 4096 * 4096 = unat x + (4095 - (unat x + 4095) mod 4096)"
    by (simp add: minus_mod_eq_div_mult [symmetric])
  then show "x \<le> ALIGN_UP x PAGE_SIZE" using unat_align_up [OF assms] by (simp add: word_le_nat_alt)
  assume b: "paged b" "x \<le> b"
  obtain k where k: "unat b = 4096 * k" using paged_obtain [OF b(1)] by blast
  then have "(unat x + 4095) div 4096 \<le> k" using b(2) by (simp add: word_le_nat_alt less_Suc_eq_le [symmetric] div_less_iff_less_mult)
  then show "ALIGN_UP x PAGE_SIZE \<le> b" using unat_align_up [OF assms] k by (simp add: word_le_nat_alt)
qed

lemma paged_add: "paged x \<Longrightarrow> paged y \<Longrightarrow> paged (x + y)"
proof -
  assume "paged x" "paged y"
  then have "(unat x + unat y) mod 4096 = 0" unfolding paged_def by (simp add: mod_add_eq [of "unat x" 4096, symmetric])
  moreover have "(4096 :: nat) dvd 2 ^ LENGTH(64)" by simp
  ultimately show ?thesis unfolding paged_def unat_word_ariths by (simp add: mod_mod_cancel)
qed

section \<open>Lists of descriptors\<close>

definition vad_ok :: "vad \<Rightarrow> bool" where
  "vad_ok v \<longleftrightarrow> v_start v < v_end v \<and> v_end v \<le> VAS_USER_END \<and> paged (v_start v) \<and> paged (v_end v)
     \<and> (v_flags v AND VAD_FILE = 0 \<longleftrightarrow> v_file v = 0)"

definition vads_ok :: "vad list \<Rightarrow> bool" where
  "vads_ok vs \<longleftrightarrow> (\<forall>v \<in> set vs. vad_ok v) \<and> sorted_wrt (\<lambda>a b. v_end a \<le> v_start b) vs"

lemma vad_okD: "vad_ok v \<Longrightarrow> v_start v < v_end v"
  by (simp add: vad_ok_def)

lemma vads_ok_Cons:
  "vads_ok (v # vs) \<longleftrightarrow> vad_ok v \<and> vads_ok vs \<and> (\<forall>w \<in> set vs. v_end v \<le> v_start w)"
  by (auto simp: vads_ok_def)

lemma vads_ok_append:
  "vads_ok (us @ vs) \<longleftrightarrow> vads_ok us \<and> vads_ok vs \<and> (\<forall>u \<in> set us. \<forall>v \<in> set vs. v_end u \<le> v_start v)"
  by (auto simp: vads_ok_def sorted_wrt_append)

definition room_at :: "vad list \<Rightarrow> u64 \<Rightarrow> u64 \<Rightarrow> bool" where
  "room_at vs base len \<longleftrightarrow> paged base \<and> unat base + unat len \<le> unat VAS_USER_END
     \<and> (\<forall>v \<in> set vs. v_end v \<le> base \<or> unat base + unat len \<le> unat (v_start v))"

lemma set_vad_insert [simp]: "set (vad_insert v vs) = insert v (set vs)"
  by (induction v vs rule: vad_insert.induct) auto

lemma vad_insert_ok:
  assumes "vads_ok vs" and "vad_ok v" and "\<forall>w \<in> set vs. v_end w \<le> v_start v \<or> v_end v \<le> v_start w"
  shows "vads_ok (vad_insert v vs)"
  using assms
proof (induction v vs rule: vad_insert.induct)
  case (2 v w ws)
  show ?case
  proof (cases "v_start w < v_start v")
    case True
    then have "v_end w \<le> v_start v" using 2(3,4) by (auto simp: vad_ok_def)
    then show ?thesis using 2 True by (auto simp: vads_ok_Cons)
  next
    case False
    then have "v_end v \<le> v_start w" using 2(2,4) by (force simp: vad_ok_def vads_ok_Cons)
    moreover have "v_end v \<le> v_start x" if "x \<in> set ws" for x
    proof -
      have "v_start w < v_end w" "v_end w \<le> v_start x" using 2(2) that by (auto simp: vads_ok_Cons vad_ok_def)
      then show ?thesis using \<open>v_end v \<le> v_start w\<close> by order
    qed
    ultimately show ?thesis using 2 False by (auto simp: vads_ok_Cons)
  qed
qed (simp add: vads_ok_def)

lemma vas_overlaps_iff:
  "vads_ok vs \<Longrightarrow> vas_overlaps vs start end \<longleftrightarrow> (\<exists>v \<in> set vs. v_start v < end \<and> start < v_end v)"
proof (induction vs)
  case (Cons v vs)
  show ?case
  proof (cases "v_start v < end")
    case True
    then have "\<not> end \<le> v_start v" by simp
    then show ?thesis using Cons True by (simp add: vads_ok_Cons)
  next
    case False
    have "end \<le> v_start w" if "w \<in> set vs" for w
    proof -
      have "v_start v < v_end v" "v_end v \<le> v_start w" using Cons.prems that by (simp_all add: vads_ok_Cons vad_ok_def)
      then show ?thesis using False by order
    qed
    then show ?thesis using False by (simp add: not_le not_less leD)
  qed
qed simp

section \<open>First fit\<close>

lemma find_free_from_spec:
  assumes "vads_ok vs" and "paged base" and "paged len" and "find_free_from len base (base + len) vs = (b, e)"
  shows "e = b + len \<and> paged b \<and> base \<le> b
    \<and> (\<forall>v \<in> set vs. unat b + unat len < 18446744073709551616 \<longrightarrow> v_end v \<le> b \<or> unat b + unat len \<le> unat (v_start v))
    \<and> (\<forall>c. base \<le> c \<longrightarrow> room_at vs c len \<longrightarrow> b \<le> c)"
  using assms
proof (induction vs arbitrary: base)
  case (Cons v vs)
  note ok = Cons.prems(1)[unfolded vads_ok_Cons]
  consider (stop) "base + len \<le> v_start v" | (skip) "\<not> base + len \<le> v_start v" "base < v_end v"
    | (go) "\<not> base + len \<le> v_start v" "v_end v \<le> base" by fastforce
  then show ?case
  proof cases
    case stop
    then have be: "b = base" "e = base + len" using Cons.prems(4) by auto
    have "unat base + unat len \<le> unat (v_start w)" if "w \<in> set (v # vs)" "unat base + unat len < 18446744073709551616" for w
    proof -
      have "v_start v \<le> v_start w" using ok that(1) by (force simp: vad_ok_def)
      moreover have "unat (base + len) = unat base + unat len" using that(2) by (simp add: unat_word_ariths)
      ultimately show ?thesis using stop by (simp add: word_le_nat_alt)
    qed
    then show ?thesis using be Cons.prems(2) by auto
  next
    case skip
    have pe: "paged (v_end v)" using ok by (simp add: vad_ok_def)
    have "find_free_from len (v_end v) (v_end v + len) vs = (b, e)"
      using Cons.prems(4) skip by (simp add: paged_align_up [OF pe] Let_def)
    note IH = Cons.IH [OF _ pe Cons.prems(3) this]
    have "b \<le> c" if c: "base \<le> c" "room_at (v # vs) c len" for c
    proof -
      have "\<not> unat c + unat len \<le> unat (v_start v)"
      proof
        assume a: "unat c + unat len \<le> unat (v_start v)"
        then have "unat base + unat len \<le> unat (v_start v)" using c(1) by (simp add: word_le_nat_alt)
        moreover from this have "unat (base + len) = unat base + unat len"
          using unat_bound64 [of "v_start v"] by (intro unat_add_small) linarith
        ultimately show False using skip(1) by (simp add: word_le_nat_alt)
      qed
      then have "v_end v \<le> c" using c(2) by (simp add: room_at_def)
      moreover have "room_at vs c len" using c(2) by (simp add: room_at_def)
      ultimately show ?thesis using IH ok by blast
    qed
    moreover have "v_end v \<le> b" using IH ok by blast
    ultimately show ?thesis using IH ok skip(2) by (auto intro: order_trans)
  next
    case go
    have "\<not> base < v_end v" using go(2) by simp
    then have "find_free_from len base (base + len) vs = (b, e)" using Cons.prems(4) go(1) by simp
    note IH = Cons.IH [OF _ Cons.prems(2,3) this]
    have "b \<le> c" if "base \<le> c" "room_at (v # vs) c len" for c
      using IH ok that by (auto simp: room_at_def)
    then show ?thesis using IH ok go(2) by (auto intro: order_trans)
  qed
next
  case Nil
  then have "b = base" "e = base + len" by auto
  then show ?case using Nil(2) by simp
qed

lemma vas_find_free_fits:
  assumes "vads_ok vs" and "0 < len" "paged len" and "unat hint \<le> 18446744073709547520"
    and "vas_find_free vs hint len = b" and "b \<noteq> 0"
  shows "room_at vs b len \<and> hint \<le> b \<and> (\<forall>c. hint \<le> c \<longrightarrow> room_at vs c len \<longrightarrow> b \<le> c)"
proof -
  let ?h = "ALIGN_UP hint PAGE_SIZE"
  obtain b' e where f: "find_free_from len ?h (?h + len) vs = (b', e)" by fastforce
  note spec = find_free_from_spec [OF assms(1) _ assms(3) f]
  have r: "b' = b" "e \<le> VAS_USER_END" "b \<le> e"
    using assms(5,6) f by (auto simp: vas_find_free_def Let_def split: if_splits)
  note spec = spec [unfolded r(1)]
  have p: "paged ?h" using assms(4) by simp
  have eb: "e = b + len" using spec [OF p] by blast
  have u: "unat (b + len) = unat b + unat len" using r(3) eb by (simp add: unat_add_nowrap)
  then have "unat b + unat len \<le> unat VAS_USER_END" "unat b + unat len < 18446744073709551616"
    using r(2) eb unat_bound64 [of "b + len"] unfolding word_le_nat_alt by metis+
  then have "room_at vs b len" using spec [OF p] unfolding room_at_def by blast
  moreover have "b \<le> c" if "hint \<le> c" "room_at vs c len" for c
    using spec [OF p] align_up_bounds(2) [OF assms(4), of c] that by (simp add: room_at_def)
  moreover have "hint \<le> b" using spec [OF p] align_up_bounds(1) [OF assms(4)] by force
  ultimately show ?thesis by blast
qed

lemma vas_find_free_none:
  assumes "vads_ok vs" and "paged len" and "0 < hint" "unat hint \<le> 18446744073709547520"
    and "vas_find_free vs hint len = 0" and "hint \<le> c"
  shows "\<not> room_at vs c len"
proof
  assume c: "room_at vs c len"
  let ?h = "ALIGN_UP hint PAGE_SIZE"
  obtain b e where f: "find_free_from len ?h (?h + len) vs = (b, e)" by fastforce
  have p: "paged ?h" using assms(4) by simp
  note spec = find_free_from_spec [OF assms(1) p assms(2) f]
  have "?h \<le> c" using align_up_bounds(2) [OF assms(4)] assms(6) c by (simp add: room_at_def)
  then have "b \<le> c" using spec c by blast
  then have le: "unat b + unat len \<le> unat VAS_USER_END" using c by (simp add: room_at_def word_le_nat_alt)
  then have e: "unat e = unat b + unat len" using spec by (simp add: unat_add_small)
  have "e \<le> VAS_USER_END" "b \<le> e" unfolding word_le_nat_alt using e le by linarith+
  moreover have "?h \<le> b" using spec by blast
  then have "0 < b" using align_up_bounds(1) [OF assms(4)] assms(3) by order
  ultimately show False using assms(5) f by (auto simp: vas_find_free_def leD split: if_splits)
qed

lemma vas_place_room:
  assumes "vads_ok (list_head vas)" and "0 < len" "paged len"
    and "fl AND VAD_FIXED \<noteq> 0 \<or> unat hint \<le> 18446744073709547520 \<and> unat (user_start vas) \<le> 18446744073709547520"
    and "vas_place vas hint len fl = Some base"
  shows "room_at (list_head vas) base len"
proof (cases "fl AND VAD_FIXED = 0")
  case True
  then have "unat (if hint \<noteq> 0 then hint else user_start vas) \<le> 18446744073709547520" using assms(4) by auto
  moreover have "vas_find_free (list_head vas) (if hint \<noteq> 0 then hint else user_start vas) len = base" "base \<noteq> 0"
    using assms(5) True by (auto simp: vas_place_def Let_def split: if_splits)
  ultimately show ?thesis using vas_find_free_fits [OF assms(1-3)] by blast
next
  case False
  then have b: "base = ALIGN_DOWN hint PAGE_SIZE" "base + len \<le> VAS_USER_END" "base \<le> base + len"
      "\<not> vas_overlaps (list_head vas) base (base + len)"
    using assms(5) by (auto simp: vas_place_def Let_def split: if_splits)
  have u: "unat (base + len) = unat base + unat len" using b(3) by (rule unat_add_nowrap)
  have "unat base + unat len \<le> unat VAS_USER_END" using b(2) u unfolding word_le_nat_alt by metis
  moreover have "v_end v \<le> base \<or> unat base + unat len \<le> unat (v_start v)" if "v \<in> set (list_head vas)" for v
    using b(4) that vas_overlaps_iff [OF assms(1)] u by (auto simp: not_less word_le_nat_alt)
  ultimately show ?thesis using b(1) by (simp add: room_at_def)
qed

section \<open>Coverage\<close>

definition covered :: "vad list \<Rightarrow> u64 \<Rightarrow> bool" where
  "covered vs a \<longleftrightarrow> (\<exists>v \<in> set vs. v_start v \<le> a \<and> a < v_end v)"

lemma range_mapped_from_iff:
  "vads_ok vs \<Longrightarrow> range_mapped_from end pos vs \<longleftrightarrow> (\<forall>a. pos \<le> a \<and> a < end \<longrightarrow> covered vs a)"
proof (induction vs arbitrary: pos)
  case Nil
  show ?case by (auto simp: covered_def not_less intro: order_trans)
next
  case (Cons v vs)
  have ok: "vad_ok v" "vads_ok vs" "\<And>w. w \<in> set vs \<Longrightarrow> v_end v \<le> v_start w" using Cons.prems by (auto simp: vads_ok_Cons)
  consider "end \<le> pos" | "pos < end" "v_end v \<le> pos" | "pos < end" "pos < v_start v"
    | "pos < end" "v_start v \<le> pos" "pos < v_end v" by fastforce
  then show ?case
  proof cases
    case 1
    then show ?thesis by auto
  next
    case 2
    then have "covered (v # vs) a \<longleftrightarrow> covered vs a" if "pos \<le> a" for a using that by (auto simp: covered_def)
    then show ?thesis using 2 Cons.IH [OF ok(2), of pos] by auto
  next
    case 3
    have "\<not> covered (v # vs) pos"
    proof
      assume "covered (v # vs) pos"
      then obtain w where "w \<in> set vs" "v_start w \<le> pos" using 3 by (auto simp: covered_def)
      moreover from this have "v_end v \<le> v_start w" using ok(3) by simp
      ultimately show False using 3 vad_okD [OF ok(1)] by order
    qed
    moreover have "\<not> v_end v \<le> pos" using 3 vad_okD [OF ok(1)] by order
    ultimately show ?thesis using 3 by auto
  next
    case 4
    have "covered (v # vs) a \<longleftrightarrow> covered vs a" if "v_end v \<le> a" for a using that by (auto simp: covered_def)
    moreover have "covered (v # vs) a" if "pos \<le> a" "a < v_end v" for a
      using that 4 by (auto simp: covered_def intro: order_trans)
    ultimately have "(\<forall>a. pos \<le> a \<and> a < end \<longrightarrow> covered (v # vs) a) \<longleftrightarrow> (\<forall>a. v_end v \<le> a \<and> a < end \<longrightarrow> covered vs a)"
      using 4(3) by (meson less_le_trans less_imp_le not_less)
    moreover have "\<not> v_end v \<le> pos" "\<not> pos < v_start v" using 4 by auto
    ultimately show ?thesis using 4 Cons.IH [OF ok(2), of "v_end v"] by simp
  qed
qed

section \<open>Removing a range\<close>

definition segment :: "vad \<Rightarrow> u64 \<Rightarrow> u64 \<Rightarrow> vad" where
  "segment v s e = (if v_flags v AND VAD_FILE \<noteq> 0
     then \<lparr>v_start = s, v_end = e, v_flags = v_flags v OR VAD_FILE, v_file = v_file v, v_off = v_off v + (s - v_start v)\<rparr>
     else \<lparr>v_start = s, v_end = e, v_flags = v_flags v, v_file = 0, v_off = 0\<rparr>)"

definition pieces :: "u64 \<Rightarrow> u64 \<Rightarrow> vad \<Rightarrow> vad list" where
  "pieces s e v = (if v_end v \<le> s \<or> v_start v \<ge> e then [v]
     else (if v_start v < s then [segment v (v_start v) s] else []) @ (if v_end v > e then [segment v e (v_end v)] else []))"

definition file_refs :: "vad list \<Rightarrow> u64 \<Rightarrow> nat" where
  "file_refs vs f = length (filter (\<lambda>v. v_file v = f) vs)"

lemma kz_ok_cases:
  obtains st' where "kz_ok st = (True, st')" "node_refs st' = node_refs st" "vm st' = vm st" "False \<notin> set (kz st) \<Longrightarrow> False \<notin> set (kz st')"
  | st' where "kz_ok st = (False, st')" "node_refs st' = node_refs st" "vm st' = vm st" "False \<in> set (kz st)"
  by (cases "kz st") (auto simp: kz_ok_def split: bool.splits)

lemma bit_VAD_FILE: "bit VAD_FILE n \<longleftrightarrow> n = 15"
  unfolding VAD_FILE_def by (auto simp only: bit_push_bit_iff bit_1_iff possible_bit_word) simp_all

lemma vad_file_bit [simp]: "(fl :: u64) AND VAD_FILE \<noteq> 0 \<Longrightarrow> fl OR VAD_FILE = fl"
proof -
  assume "fl AND VAD_FILE \<noteq> 0"
  then have "bit fl 15" by (simp add: VAD_FILE_def bit_iff_and_push_bit_not_eq_0)
  then show ?thesis by (intro bit_eqI) (auto simp: bit_or_iff bit_VAD_FILE)
qed

lemma segment_fields [simp]:
  "v_start (segment v s e) = s" "v_end (segment v s e) = e" "v_flags (segment v s e) = v_flags v"
  "v_flags v AND VAD_FILE \<noteq> 0 \<Longrightarrow> v_file (segment v s e) = v_file v"
  "v_flags v AND VAD_FILE = 0 \<Longrightarrow> v_file (segment v s e) = 0"
  "v_flags v AND VAD_FILE \<noteq> 0 \<Longrightarrow> v_off (segment v s e) = v_off v + (s - v_start v)"
  by (simp_all add: segment_def)

text \<open>A clone either gives the segment, with one more reference to the file, or fails.\<close>

lemma vad_clone_segment_cases:
  assumes "vad_clone_segment v s e st = (w, st')"
  shows "(w = Some (segment v s e) \<or> w = None \<and> False \<in> set (kz st)) \<and> vm st' = vm st
    \<and> (False \<notin> set (kz st) \<longrightarrow> False \<notin> set (kz st'))
    \<and> (\<forall>f. f \<noteq> 0 \<longrightarrow> node_refs st' f = node_refs st f + file_refs (case w of None \<Rightarrow> [] | Some x \<Rightarrow> [x]) f)"
  using assms
  by (cases rule: kz_ok_cases [of st])
    (auto simp: vad_clone_segment_def vad_alloc_file_def vad_alloc_def segment_def node_ref_def file_refs_def split: if_splits)

lemma file_refs_simps [simp]:
  "file_refs [] f = 0" "file_refs (v # vs) f = (if v_file v = f then 1 else 0) + file_refs vs f"
  "file_refs (us @ vs) f = file_refs us f + file_refs vs f"
  by (simp_all add: file_refs_def)

lemma file_refs_Cons_le: "file_refs vs f \<le> file_refs (v # vs) f"
  by simp

lemma vad_free_refs:
  "f \<noteq> 0 \<Longrightarrow> (v_file v = f \<longrightarrow> 0 < node_refs st f) \<Longrightarrow> node_refs (vad_free v st) f + file_refs [v] f = node_refs st f"
  "vm (vad_free v st) = vm st" "kz (vad_free v st) = kz st"
  by (auto simp: vad_free_def node_release_def)

lemma opt_list [simp]: "(case x of None \<Rightarrow> [] | Some a \<Rightarrow> [a]) = (if x = None then [] else [the x])"
  by (cases x) simp_all

text \<open>Every descriptor is replaced by its pieces outside the range, of which some may be missing
  when an allocation fails; the references to files follow the list.\<close>

lemma vad_remove_range_pieces:
  assumes "vad_remove_range s e vs st = (ws, st')" and "\<forall>f. f \<noteq> 0 \<longrightarrow> file_refs vs f \<le> node_refs st f"
  shows "subseq ws (concat (map (pieces s e) vs)) \<and> vm st' = vm st
    \<and> (False \<notin> set (kz st) \<longrightarrow> ws = concat (map (pieces s e) vs))
    \<and> (\<forall>f. f \<noteq> 0 \<longrightarrow> node_refs st' f + file_refs vs f = node_refs st f + file_refs ws f)"
  using assms
proof (induction vs arbitrary: st ws)
  case (Cons v vs)
  show ?case
  proof (cases "v_end v \<le> s \<or> v_start v \<ge> e")
    case True
    obtain us st1 where us1: "vad_remove_range s e vs st = (us, st1)" by fastforce
    then have us: "vad_remove_range s e vs st = (us, st')" "ws = v # us"
      using Cons.prems(1) True unfolding vad_remove_range.simps by simp_all
    have "\<forall>f. f \<noteq> 0 \<longrightarrow> file_refs vs f \<le> node_refs st f" using Cons.prems(2) by (meson file_refs_Cons_le le_trans)
    then show ?thesis using Cons.IH [OF us(1)] us(2) True by (simp add: pieces_def)
  next
    case False
    obtain l st1 where l: "(if v_start v < s then vad_clone_segment v (v_start v) s st else (None, st)) = (l, st1)" by fastforce
    obtain r st2 where r: "(if v_end v > e then vad_clone_segment v e (v_end v) st1 else (None, st1)) = (r, st2)" by fastforce
    obtain us st3 where us: "vad_remove_range s e vs (vad_free v st2) = (us, st3)" by fastforce
    have ws: "ws = (case l of None \<Rightarrow> [] | Some l \<Rightarrow> [l]) @ (case r of None \<Rightarrow> [] | Some r \<Rightarrow> [r]) @ us" "st3 = st'"
      using Cons.prems(1) False l r us by (simp_all del: opt_list)
    let ?L = "if v_start v < s then [segment v (v_start v) s] else []" and ?R = "if v_end v > e then [segment v e (v_end v)] else []"
    let ?l = "case l of None \<Rightarrow> [] | Some l \<Rightarrow> [l]" and ?r = "case r of None \<Rightarrow> [] | Some r \<Rightarrow> [r]"
    have L: "subseq ?l ?L" "vm st1 = vm st" "False \<notin> set (kz st) \<longrightarrow> False \<notin> set (kz st1) \<and> ?l = ?L"
        "\<And>f. f \<noteq> 0 \<Longrightarrow> node_refs st1 f = node_refs st f + file_refs ?l f"
      using l vad_clone_segment_cases [of v "v_start v" s st l st1] by (auto split: if_splits)
    have R: "subseq ?r ?R" "vm st2 = vm st1" "False \<notin> set (kz st1) \<longrightarrow> False \<notin> set (kz st2) \<and> ?r = ?R"
        "\<And>f. f \<noteq> 0 \<Longrightarrow> node_refs st2 f = node_refs st1 f + file_refs ?r f"
      using r vad_clone_segment_cases [of v e "v_end v" st1 r st2] by (auto split: if_splits)
    have pre: "file_refs [v] f + file_refs vs f \<le> node_refs st2 f" if "f \<noteq> 0" for f
      using Cons.prems(2) L(4) [OF that] R(4) [OF that] that by force
    have fr: "node_refs (vad_free v st2) f + file_refs [v] f = node_refs st2 f" if "f \<noteq> 0" for f
      by (rule vad_free_refs(1) [OF that]) (use pre [OF that] in \<open>auto split: if_splits\<close>)
    have "\<forall>f. f \<noteq> 0 \<longrightarrow> file_refs vs f \<le> node_refs (vad_free v st2) f" using fr pre by fastforce
    note IH = Cons.IH [OF us [unfolded ws(2)] this]
    have P: "pieces s e v = ?L @ ?R" using False by (simp add: pieces_def)
    have "subseq ws (concat (map (pieces s e) (v # vs)))"
      unfolding ws(1) using IH L(1) R(1) by (simp only: P list.map concat.simps append_assoc list_emb_append_mono)
    moreover have "node_refs st' f + file_refs (v # vs) f = node_refs st f + file_refs ws f" if "f \<noteq> 0" for f
    proof -
      have "node_refs st' f + file_refs vs f = node_refs (vad_free v st2) f + file_refs us f" using IH that ws(2) by blast
      moreover have "file_refs (v # vs) f = file_refs [v] f + file_refs vs f" by simp
      moreover have "file_refs ws f = file_refs ?l f + file_refs ?r f + file_refs us f" unfolding ws(1) file_refs_simps by simp
      ultimately show ?thesis using fr [OF that] L(4) [OF that] R(4) [OF that] by linarith
    qed
    moreover have "ws = concat (map (pieces s e) (v # vs))" if kz: "False \<notin> set (kz st)"
    proof -
      have "False \<notin> set (kz st1)" and lL: "?l = ?L" using L(3) kz by blast+
      then have "False \<notin> set (kz (vad_free v st2))" and rR: "?r = ?R" using R(3) unfolding vad_free_refs(3) by blast+
      then have "us = concat (map (pieces s e) vs)" using IH by blast
      then show ?thesis unfolding ws(1) lL rR by (simp only: P list.map concat.simps append_assoc)
    qed
    ultimately show ?thesis using IH L(2) R(2) ws(2) vad_free_refs(2) [of v st2] by simp
  qed
qed simp

lemma segment_ok:
  "vad_ok v \<Longrightarrow> s < e \<Longrightarrow> e \<le> v_end v \<Longrightarrow> paged s \<Longrightarrow> paged e \<Longrightarrow> vad_ok (segment v s e)"
  by (cases "v_flags v AND VAD_FILE = 0") (auto simp: vad_ok_def intro: order_trans)

lemma pieces_ok:
  assumes "vad_ok v" and "paged s" "paged e" "s \<le> e"
  shows "vads_ok (pieces s e v) \<and> (\<forall>w \<in> set (pieces s e v). v_start v \<le> v_start w \<and> v_end w \<le> v_end v)"
proof (cases "v_end v \<le> s \<or> v_start v \<ge> e")
  case True
  then show ?thesis using assms(1) by (auto simp: pieces_def vads_ok_def)
next
  case False
  then have f: "s < v_end v" "v_start v < e" by (simp_all add: not_le)
  let ?L = "if v_start v < s then [segment v (v_start v) s] else []" and ?R = "if v_end v > e then [segment v e (v_end v)] else []"
  have v: "paged (v_start v)" "paged (v_end v)" using assms(1) by (simp_all add: vad_ok_def)
  have L: "vads_ok ?L" "\<forall>w \<in> set ?L. v_start v \<le> v_start w \<and> v_end w \<le> v_end v \<and> v_end w = s"
    using segment_ok [OF assms(1), of "v_start v" s] f v assms(2) by (simp_all add: vads_ok_def less_imp_le)
  have R: "vads_ok ?R" "\<forall>w \<in> set ?R. v_start v \<le> v_start w \<and> v_end w \<le> v_end v \<and> v_start w = e"
    using segment_ok [OF assms(1), of e "v_end v"] f v assms(3) by (simp_all add: vads_ok_def less_imp_le)
  have P: "pieces s e v = ?L @ ?R" using False by (simp add: pieces_def)
  have "\<forall>u \<in> set ?L. \<forall>w \<in> set ?R. v_end u \<le> v_start w" using L(2) R(2) assms(4) by metis
  then show ?thesis unfolding P vads_ok_append set_append using L R by blast
qed

lemma concat_pieces_ok:
  assumes "vads_ok vs" and "paged s" "paged e" "s \<le> e"
  shows "vads_ok (concat (map (pieces s e) vs))"
  using assms(1)
proof (induction vs)
  case (Cons v vs)
  then have v: "vad_ok v" and vs: "\<And>w. w \<in> set vs \<Longrightarrow> vad_ok w \<and> v_end v \<le> v_start w" "vads_ok vs"
    by (auto simp: vads_ok_Cons vads_ok_def)
  have "v_end u \<le> v_start x" if "u \<in> set (pieces s e v)" "w \<in> set vs" "x \<in> set (pieces s e w)" for u w x
  proof -
    have "v_end u \<le> v_end v" using pieces_ok [OF v assms(2-4)] that(1) by blast
    moreover have "v_start w \<le> v_start x" using pieces_ok [of w, OF _ assms(2-4)] vs(1) that(2,3) by blast
    moreover have "v_end v \<le> v_start w" using vs(1) [OF that(2)] by simp
    ultimately show ?thesis by order
  qed
  then show ?case using Cons.IH vs(2) pieces_ok [OF v assms(2-4)] by (auto simp: vads_ok_append)
qed (simp add: vads_ok_def)

lemma vads_ok_subseq: "subseq us vs \<Longrightarrow> vads_ok vs \<Longrightarrow> vads_ok us"
  by (induction rule: list_emb.induct) (auto simp: vads_ok_Cons vads_ok_def [of "[]"] dest: list_emb_set)

text \<open>What the descriptors say about an address: flags, and the place in the file.\<close>

definition info :: "vad \<Rightarrow> u64 \<Rightarrow> u64 \<times> (u64 \<times> u64) option" where
  "info v a = (v_flags v, if v_flags v AND VAD_FILE = 0 then None else Some (v_file v, v_off v + (a - v_start v)))"

definition vad_at :: "vas \<Rightarrow> u64 \<Rightarrow> (u64 \<times> (u64 \<times> u64) option) option" where
  "vad_at vas a = map_option (\<lambda>v. info v a) (vas_find vas a)"

lemma vas_find_iff:
  assumes "vads_ok (list_head vas)"
  shows "vas_find vas a = Some v \<longleftrightarrow> v \<in> set (list_head vas) \<and> v_start v \<le> a \<and> a < v_end v"
proof -
  have "v = w" if "v \<in> set vs" "w \<in> set vs" "v_start v \<le> a" "a < v_end v" "v_start w \<le> a" "a < v_end w" "vads_ok vs" for v w vs
    using that
  proof (induction vs)
    case (Cons u us)
    have "\<not> (x \<in> set us \<and> v_start x \<le> a \<and> a < v_end u)" for x
    proof
      assume "x \<in> set us \<and> v_start x \<le> a \<and> a < v_end u"
      then have "v_end u \<le> v_start x" "v_start x \<le> a" "a < v_end u" using Cons.prems(7) by (simp_all add: vads_ok_Cons)
      then show False by order
    qed
    then show ?case using Cons by (auto simp: vads_ok_Cons)
  qed simp
  note uniq = this [OF _ _ _ _ _ _ assms]
  have ex: "\<exists>w. vas_find vas a = Some w" if "v \<in> set (list_head vas)" "v_start v \<le> a" "a < v_end v"
    using that unfolding vas_find_def by (metis (mono_tags, lifting) find_None_iff option.exhaust)
  have "w \<in> set (list_head vas) \<and> v_start w \<le> a \<and> a < v_end w" if "vas_find vas a = Some w" for w
    using that unfolding vas_find_def by (auto simp: find_Some_iff)
  then show ?thesis using ex uniq by metis
qed

lemma vad_at_iff:
  "vads_ok (list_head vas) \<Longrightarrow> vad_at vas a = Some x
    \<longleftrightarrow> (\<exists>v \<in> set (list_head vas). v_start v \<le> a \<and> a < v_end v \<and> x = info v a)"
  by (auto simp: vad_at_def vas_find_iff)

lemma info_segment:
  "v_flags v AND VAD_FILE = 0 \<Longrightarrow> info (segment v s e) a = info v a"
  "v_flags v AND VAD_FILE \<noteq> 0 \<Longrightarrow> info (segment v s e) a = info v a"
  by (simp_all add: info_def)

lemma pieces_info:
  assumes "vad_ok v" and "s \<le> e"
  shows "(\<exists>w \<in> set (pieces s e v). v_start w \<le> a \<and> a < v_end w \<and> x = info w a)
    \<longleftrightarrow> \<not> (s \<le> a \<and> a < e) \<and> v_start v \<le> a \<and> a < v_end v \<and> x = info v a"
proof -
  have i: "info (segment v b c) a = info v a" for b c using info_segment by (cases "v_flags v AND VAD_FILE = 0") simp_all
  show ?thesis
  proof (cases "v_end v \<le> s \<or> v_start v \<ge> e")
    case True
    then have "\<not> (s \<le> a \<and> a < e)" if "v_start v \<le> a \<and> a < v_end v" using that assms(2) by auto
    then show ?thesis using True by (auto simp: pieces_def)
  next
    case False
    have "v_start v \<le> a \<Longrightarrow> a < s \<Longrightarrow> v_start v < s" "e \<le> a \<Longrightarrow> a < v_end v \<Longrightarrow> e < v_end v" by order+
    moreover have "a < s \<Longrightarrow> s < v_end v \<Longrightarrow> a < v_end v" "v_start v < e \<Longrightarrow> e \<le> a \<Longrightarrow> v_start v \<le> a" "a < s \<Longrightarrow> \<not> e \<le> a"
      using assms(2) by order+
    moreover have "pieces s e v = (if v_start v < s then [segment v (v_start v) s] else []) @ (if v_end v > e then [segment v e (v_end v)] else [])"
      using False by (simp add: pieces_def)
    ultimately show ?thesis using False by (simp add: i bex_Un not_le not_less) blast
  qed
qed

section \<open>Loops over pages\<close>

primrec loop :: "('a \<Rightarrow> 's \<Rightarrow> (bool \<times> 's) option) \<Rightarrow> 'a list \<Rightarrow> 's \<Rightarrow> (bool \<times> 's) option" where
  "loop f [] s = Some (True, s)"
| "loop f (x # xs) s = Option.bind (f x s) (\<lambda>(go, s). if go then loop f xs s else Some (False, s))"

definition page_list :: "u64 \<Rightarrow> u64 \<Rightarrow> u64 list" where
  "page_list start end = map (\<lambda>k. start + of_nat k * PAGE_SIZE) [0..<(unat end - unat start) div 4096]"

lemma page_list_Nil: "\<not> start < end \<Longrightarrow> page_list start end = []"
  by (simp add: page_list_def word_less_nat_alt)

lemma paged_step:
  assumes "start < end" and "paged start" "paged end"
  shows "unat (start + PAGE_SIZE) = unat start + 4096" "start + PAGE_SIZE \<le> end" "paged (start + PAGE_SIZE)"
proof -
  obtain i where i: "unat start = 4096 * i" using paged_obtain [OF assms(2)] by blast
  obtain j where j: "unat end = 4096 * j" "j < 4503599627370496" using paged_obtain [OF assms(3)] by blast
  have ij: "i < j" using assms(1) i j by (simp add: word_less_nat_alt)
  then show u: "unat (start + PAGE_SIZE) = unat start + 4096" using i j by (simp add: unat_word_ariths)
  show "start + PAGE_SIZE \<le> end" unfolding word_le_nat_alt u using i j ij by simp
  show "paged (start + PAGE_SIZE)" using i u by (simp add: paged_def)
qed

lemma page_list_Cons:
  assumes "start < end" and "paged start" "paged end"
  shows "page_list start end = start # page_list (start + PAGE_SIZE) end"
proof -
  note st = paged_step [OF assms]
  let ?n = "(unat end - unat (start + PAGE_SIZE)) div 4096"
  have "unat end - unat start = 4096 + (unat end - unat (start + PAGE_SIZE))"
    using st(1,2) unfolding word_le_nat_alt by linarith
  then have n: "(unat end - unat start) div 4096 = Suc ?n" by simp
  have "map (\<lambda>k. start + of_nat k * PAGE_SIZE) [0..<Suc ?n]
      = start # map (\<lambda>k. start + of_nat (Suc k) * PAGE_SIZE) [0..<?n]"
    unfolding upt_conv_Cons [OF zero_less_Suc] map_Suc_upt [symmetric] by simp
  then show ?thesis unfolding page_list_def n by (simp add: algebra_simps)
qed

text \<open>The loop visits the pages of the range in order and ends: the counter does not wrap because
  the range ends on a page boundary.\<close>

lemma for_pages_loop:
  assumes "paged start" and "paged end"
  shows "for_pages f start end s = loop f (page_list start end) s"
  using assms
proof (induction "unat end - unat start" arbitrary: start s rule: less_induct)
  case less
  show ?case
  proof (cases "start < end")
    case True
    note st = paged_step [OF True less.prems]
    have "unat end - unat (start + PAGE_SIZE) < unat end - unat start"
      using st(1,2) unfolding word_le_nat_alt by linarith
    note IH = less.hyps [OF this st(3) less.prems(2)]
    show ?thesis
      by (subst for_pages.simps) (simp add: True page_list_Cons [OF True less.prems] IH cong: if_cong)
  next
    case False
    then show ?thesis by (subst for_pages.simps) (simp add: page_list_Nil)
  qed
qed

lemma loop_each: "loop (each f) xs s = map_option (Pair True) (foldM f xs s)"
  by (induction xs arbitrary: s) (auto simp: each_def split: option.split Option.bind_splits)

lemma for_pages_each:
  "paged start \<Longrightarrow> paged end \<Longrightarrow> for_pages (each f) start end s = map_option (Pair True) (foldM f (page_list start end) s)"
  by (simp add: for_pages_loop loop_each)

lemma set_page_list:
  assumes "paged start" "paged end"
  shows "set (page_list start end) = {a. paged a \<and> start \<le> a \<and> a < end}"
  using assms
proof (induction "unat end - unat start" arbitrary: start rule: less_induct)
  case less
  show ?case
  proof (cases "start < end")
    case True
    note st = paged_step [OF True less.prems]
    have "unat end - unat (start + PAGE_SIZE) < unat end - unat start"
      using st(1,2) unfolding word_le_nat_alt by linarith
    note IH = less.hyps [OF this st(3) less.prems(2)]
    have "a = start \<or> start + PAGE_SIZE \<le> a" if a: "paged a" "start \<le> a" for a
    proof (cases "a = start")
      case False
      then have "start < a" using a(2) by simp
      then show ?thesis using paged_step(2) less.prems(1) a(1) by blast
    qed simp
    moreover have "start \<le> start + PAGE_SIZE" unfolding word_le_nat_alt using st(1) by simp
    ultimately show ?thesis
      using IH True less.prems unfolding page_list_Cons [OF True less.prems] by (auto intro: order_trans)
  qed (auto simp: page_list_Nil)
qed

section \<open>User addresses in the tables\<close>

lemma unat_and_511: "unat ((x :: u64) AND 0x1ff) = unat x mod 512"
proof -
  have "x AND 0x1ff = take_bit 9 x" by (simp add: take_bit_eq_mask mask_eq_exp_minus_1)
  then show ?thesis by (simp add: take_bit_eq_mod unat_mod)
qed

lemma unat_idx:
  "unat (pml1_idx v) = unat v div 4096 mod 512" "unat (pml2_idx v) = unat v div 4096 div 512 mod 512"
  "unat (pml3_idx v) = unat v div 4096 div 512 div 512 mod 512"
  "unat (pml4_idx v) = unat v div 4096 div 512 div 512 div 512 mod 512"
  by (simp_all add: pml1_idx_def pml2_idx_def pml3_idx_def pml4_idx_def unat_and_511 unsigned_drop_bit_eq
      drop_bit_eq_div unat_div div_mult2_eq [symmetric])

lemma digits_eq:
  "x div 512 div 512 div 512 mod 512 = y div 512 div 512 div 512 mod 512 \<Longrightarrow> x div 512 div 512 mod 512 = y div 512 div 512 mod 512
    \<Longrightarrow> x div 512 mod 512 = y div 512 mod 512 \<Longrightarrow> x mod 512 = y mod 512
    \<Longrightarrow> x div 512 div 512 div 512 < 512 \<Longrightarrow> y div 512 div 512 div 512 < 512 \<Longrightarrow> x = (y :: nat)"
  by (metis div_mult_mod_eq mod_less)

definition user_addr :: "u64 \<Rightarrow> bool" where
  "user_addr a \<longleftrightarrow> a < 0x800000000000"

lemma user_pml4: "user_addr a \<Longrightarrow> unat a div 4096 div 512 div 512 div 512 < 256"
  by (simp add: user_addr_def word_less_nat_alt div_mult2_eq [symmetric] div_less_iff_less_mult)

lemma vpath_eq_iff:
  assumes "user_addr a" "user_addr b"
  shows "vpath a = vpath b \<longleftrightarrow> unat a div 4096 = unat b div 4096"
proof
  assume v: "vpath a = vpath b"
  have b: "unat x div 4096 div 512 div 512 div 512 < 512" if "user_addr x" for x
    using user_pml4 [OF that] by (rule less_trans) simp
  note d = v [unfolded vpath_def list.inject word_unat_eq_iff unat_idx]
  show "unat a div 4096 = unat b div 4096"
    by (rule digits_eq [OF _ _ _ _ b [OF assms(1)] b [OF assms(2)]]) (use d in blast)+
next
  assume "unat a div 4096 = unat b div 4096"
  then show "vpath a = vpath b" by (simp add: vpath_def word_unat_eq_iff unat_idx)
qed

lemma valid_user: "user_addr a \<Longrightarrow> user_half pt \<subseteq> W \<Longrightarrow> valid W pt (vpath a)"
proof -
  assume a: "user_addr a" "user_half pt \<subseteq> W"
  have "pml4_idx a < 256" using user_pml4 [OF a(1)] by (simp add: word_less_nat_alt unat_idx)
  from valid_user_half [OF this, of pt] show ?thesis using a(2) by (auto simp: valid_def)
qed

lemma range_page_iff:
  assumes "paged start" "paged end" "end \<le> VAS_USER_END" "user_addr b"
  shows "vpath b \<in> vpath ` set (page_list start end) \<longleftrightarrow> start \<le> b \<and> b < end"
proof -
  have e: "unat end < 0x800000000000" using assms(3) by (simp add: word_le_nat_alt)
  have ua: "user_addr a" if "a < end" for a using that e by (simp add: user_addr_def word_less_nat_alt)
  obtain i where i: "unat start = 4096 * i" using paged_obtain [OF assms(1)] by blast
  obtain j where j: "unat end = 4096 * j" using paged_obtain [OF assms(2)] by blast
  have "vpath b \<in> vpath ` set (page_list start end) \<longleftrightarrow> (\<exists>a. paged a \<and> start \<le> a \<and> a < end \<and> unat b div 4096 = unat a div 4096)"
    using vpath_eq_iff [OF assms(4) ua] by (auto simp: set_page_list [OF assms(1,2)])
  also have "\<dots> \<longleftrightarrow> i \<le> unat b div 4096 \<and> unat b div 4096 < j"
  proof
    assume "\<exists>a. paged a \<and> start \<le> a \<and> a < end \<and> unat b div 4096 = unat a div 4096"
    then obtain a where a: "paged a" "start \<le> a" "a < end" "unat b div 4096 = unat a div 4096" by blast
    obtain k where "unat a = 4096 * k" using paged_obtain [OF a(1)] by blast
    then show "i \<le> unat b div 4096 \<and> unat b div 4096 < j" using a i j by (simp add: word_le_nat_alt word_less_nat_alt)
  next
    assume k: "i \<le> unat b div 4096 \<and> unat b div 4096 < j"
    let ?a = "ALIGN_DOWN b PAGE_SIZE"
    have "unat ?a = 4096 * (unat b div 4096)" by (simp add: unat_align_down)
    then show "\<exists>a. paged a \<and> start \<le> a \<and> a < end \<and> unat b div 4096 = unat a div 4096"
      using k i j by (intro exI [of _ ?a]) (simp add: word_le_nat_alt word_less_nat_alt)
  qed
  also have "\<dots> \<longleftrightarrow> start \<le> b \<and> b < end"
    using i j by (auto simp: word_le_nat_alt word_less_nat_alt less_eq_div_iff_mult_less_eq div_less_iff_less_mult mult.commute)
  finally show ?thesis .
qed

section \<open>Unmapping ranges\<close>

lemma uncommit_range_spec:
  assumes "vm_ok s W" and "user_half pt \<subseteq> W" and "paged start" "paged end" "end \<le> VAS_USER_END"
  shows "\<exists>s'. uncommit_range pt start end s = Some s' \<and> vm_ok s' W
    \<and> (\<forall>b. user_addr b \<longrightarrow> pte s' pt (vpath b) = (if start \<le> b \<and> b < end then 0 else pte s pt (vpath b)))"
proof -
  have v: "\<forall>a \<in> set (page_list start end). valid W pt (vpath a)"
  proof
    fix a assume "a \<in> set (page_list start end)"
    then have "a < end" using set_page_list [OF assms(3,4)] by simp
    moreover have "(VAS_USER_END :: u64) < 0x800000000000" by simp
    ultimately have "user_addr a" using assms(5) unfolding user_addr_def by order
    then show "valid W pt (vpath a)" using assms(2) by (rule valid_user)
  qed
  obtain s' where s': "foldM (unmap_page pt) (page_list start end) s = Some s'" "vm_ok s' W"
      "\<And>b. valid W pt (vpath b) \<Longrightarrow> pte s' pt (vpath b)
         = (if vpath b \<in> vpath ` set (page_list start end) then 0 else pte s pt (vpath b))"
    using pt.unmap_range [OF assms(1) v] by blast
  have "pte s' pt (vpath b) = (if start \<le> b \<and> b < end then 0 else pte s pt (vpath b))" if "user_addr b" for b
    using s'(3) [OF valid_user [OF that assms(2)]] range_page_iff [OF assms(3-5) that] by simp
  then show ?thesis using s'(1,2) for_pages_each [OF assms(3,4), of "unmap_page pt" s] by (simp add: uncommit_range_def)
qed

lemma covered_Cons: "covered (v # vs) b \<longleftrightarrow> v_start v \<le> b \<and> b < v_end v \<or> covered vs b"
  by (auto simp: covered_def)

lemma unmap_vads_spec:
  assumes "vm_ok s W" and "user_half pt \<subseteq> W" and "paged start" "paged end" and "vads_ok vs"
  shows "\<exists>s'. unmap_vads pt start end vs s = Some s' \<and> vm_ok s' W \<and> (\<forall>b. user_addr b \<longrightarrow>
    pte s' pt (vpath b) = (if start \<le> b \<and> b < end \<and> covered vs b then 0 else pte s pt (vpath b)))"
  using assms(1,5)
proof (induction vs arbitrary: s)
  case (Cons v vs)
  have v: "vad_ok v" "vads_ok vs" and le: "\<And>w. w \<in> set vs \<Longrightarrow> v_end v \<le> v_start w"
    using Cons.prems(2) by (auto simp: vads_ok_Cons)
  consider "end \<le> v_start v" | "v_start v < end" "v_end v \<le> start" | "v_start v < end" "start < v_end v" by fastforce
  then show ?case
  proof cases
    case 1
    have "\<not> (b < end \<and> covered (v # vs) b)" for b
    proof
      assume b: "b < end \<and> covered (v # vs) b"
      then obtain w where "w \<in> set (v # vs)" "v_start w \<le> b" "b < end" by (auto simp: covered_def)
      moreover from this have "v_start v \<le> v_start w" using le vad_okD [OF v(1)] by fastforce
      ultimately show False using 1 by order
    qed
    then show ?thesis using 1 Cons.prems(1) by auto
  next
    case 2
    then have "start \<le> b \<and> covered (v # vs) b \<longleftrightarrow> start \<le> b \<and> covered vs b" for b by (auto simp: covered_Cons)
    then show ?thesis using Cons.IH [OF Cons.prems(1) v(2)] 2 by (simp add: conj_commute conj_left_commute)
  next
    case 3
    let ?lo = "if v_start v > start then v_start v else start" and ?hi = "if v_end v < end then v_end v else end"
    have p: "paged ?lo" "paged ?hi" "?hi \<le> VAS_USER_END" using v(1) assms(3,4) by (auto simp: vad_ok_def intro: order_trans)
    obtain s1 where s1: "uncommit_range pt ?lo ?hi s = Some s1" "vm_ok s1 W"
        "\<And>b. user_addr b \<Longrightarrow> pte s1 pt (vpath b) = (if ?lo \<le> b \<and> b < ?hi then 0 else pte s pt (vpath b))"
      using uncommit_range_spec [OF Cons.prems(1) assms(2) p] by blast
    obtain s' where s': "unmap_vads pt start end vs s1 = Some s'" "vm_ok s' W"
        "\<And>b. user_addr b \<Longrightarrow> pte s' pt (vpath b)
           = (if start \<le> b \<and> b < end \<and> covered vs b then 0 else pte s1 pt (vpath b))"
      using Cons.IH [OF s1(2) v(2)] by blast
    have lohi: "?lo \<le> b \<and> b < ?hi \<longleftrightarrow> start \<le> b \<and> b < end \<and> v_start v \<le> b \<and> b < v_end v" for b by auto
    have "unmap_vads pt start end (v # vs) s = Some s'" using 3 s1(1) s'(1) leD [of "v_end v" start] by (auto simp: Let_def)
    moreover have "pte s' pt (vpath b) = (if start \<le> b \<and> b < end \<and> covered (v # vs) b then 0 else pte s pt (vpath b))"
      if "user_addr b" for b
      unfolding s'(3) [OF that] s1(3) [OF that] lohi covered_Cons by auto
    ultimately show ?thesis using s'(2) by blast
  qed
qed (simp add: covered_def)

section \<open>Backing a range with pages\<close>

lemma vm_ok_refcount:
  assumes "vm_ok s W" and "q \<in> page_ptrs s" "used_page (pgs s q)" "u2 (pgs s q) \<noteq> 0"
    and "used_page ((pgs s q)\<lparr>refcount := f (refcount (pgs s q))\<rparr>)" "unat (u2 (pgs s q)) \<le> unat (f (refcount (pgs s q)))"
  shows "vm_ok (upd_page q (\<lambda>p. p\<lparr>refcount := f (refcount p)\<rparr>) s) W"
proof -
  let ?s = "upd_page q (\<lambda>p. p\<lparr>refcount := f (refcount p)\<rparr>) s"
  have mem: "mem_ok s" and tree: "tree_ok s W" and cnt: "count_ok s W" and fin: "finite W"
    using assms(1) by (auto simp: vm_ok_def)
  have "count_ok ?s W" using cnt assms(2-6) mapset_cong [of ?s s W] by (auto simp: count_ok_def)
  moreover have "tree_ok ?s W" by (rule tree_ok_upd_page [OF mem tree assms(2) tables_not_mapped [OF mem tree assms(2,4)]])
  ultimately show ?thesis using fin mem_ok_upd_page [OF mem assms(2,3)] assms(5) by (simp add: vm_ok_def)
qed

lemma commit_anon_page_spec:
  assumes vm: "vm_ok s W" and path: "valid W pt (vpath va)" and absent: "pte s pt (vpath va) = 0"
    and free: "4 \<le> card (free_set s)"
  shows "\<exists>x s'. commit_anon_page pt prot va s = Some (True, s') \<and> vm_ok s' W \<and> geom s' = geom s
    \<and> x \<in> free_set s \<and> refcount (pgs s' x) = 1 \<and> u2 (pgs s' x) = 1 \<and> used_page (pgs s' x)
    \<and> (\<forall>q \<in> page_ptrs s - free_set s. pgs s' q = pgs s q) \<and> card (free_set s) \<le> card (free_set s') + 4
    \<and> (\<forall>r p. valid W r p \<longrightarrow> length p = 4 \<longrightarrow> pte s' r p
         = (if r = pt \<and> p = vpath va then leaf_value (pfndb_page_to_phys s x) prot else pte s r p))"
proof -
  have mem: "mem_ok s" and tree: "tree_ok s W" using vm by (auto simp: vm_ok_def)
  then have inv: "pmm_inv s" by (simp add: mem_ok_def)
  have "free_set s \<noteq> {}" using free by auto
  then obtain x s1 where x: "palloc_page s = Some (x, s1)" using palloc_page_some [OF inv] by blast
  note px = palloc_page_inv [OF inv x]
  note g1 = vm_grown [OF vm x]
  have gr: "grown 1 s s1" by (rule grown_palloc [OF inv x])
  have geo: "geom s1 = geom s" using gr by (simp add: grown_def)
  have xs: "x \<in> page_ptrs s" "x \<in> page_ptrs s1" "x \<noteq> 0"
    using px free_set_sub geom_eqD(2) [OF geo] page_ptrs_nonzero [OF mem_ok_db [OF mem]] by blast+
  have "pfndb_page_to_phys s x \<notin> tables s W"
    using table_page_not_free [OF mem _ xs(1)] tree_node(1) [OF tree] px by (auto simp: tables_def)
  then have nt: "pfndb_page_to_phys s1 x \<notin> tables s1 W" using g1(3) geom_eqD(4) [OF geo] by simp
  have u1: "used_page (pgs s1 x)" "refcount (pgs s1 x) + 1 \<noteq> 0" using px by (simp_all add: used_page_def page_simps)
  have "pte s1 pt (vpath va) = 0" using g1(2) absent by simp
  moreover have "3 \<le> card (free_set s1)" using gr free by (simp add: grown_def)
  ultimately obtain s2 where s2: "map_page pt va x prot s1 = Some s2" "vm_ok s2 W" "geom s2 = geom s1"
      "\<And>r p. valid W r p \<Longrightarrow> length p = 4 \<Longrightarrow> pte s2 r p
         = (if r = pt \<and> p = vpath va then leaf_value (pfndb_page_to_phys s1 x) prot else pte s1 r p)"
      "pgs s2 x = mapped_once (pgs s1 x)" "\<And>q. q \<in> page_ptrs s1 - free_set s1 - {x} \<Longrightarrow> pgs s2 q = pgs s1 q"
      "card (free_set s1) \<le> card (free_set s2) + 3"
    using map_page_spec [OF g1(1) path _ xs(2) u1 nt, of prot] by blast
  have f2: "refcount (pgs s2 x) = 2" "u2 (pgs s2 x) = 1" using px unfolding s2(5) mapped_once_fields by simp_all
  have us2: "used_page (pgs s2 x)"
    unfolding s2(5) by (rule mapped_once_used(2) [OF u1(1) _ u1(2)]) (use px in simp)
  let ?s = "upd_page x (\<lambda>p. p\<lparr>refcount := refcount p - 1\<rparr>) s2"
  have un: "page_unref x s2 = Some ?s" using page_unref_keep [OF us2 xs(3)] f2 by simp
  have x2: "x \<in> page_ptrs s2" using xs(2) geom_eqD(2) [OF s2(3)] by simp
  have us: "used_page ((pgs s2 x)\<lparr>refcount := refcount (pgs s2 x) - 1\<rparr>)" using used_page_updates(2) [OF us2] f2(1) by simp
  have "vm_ok ?s W" using vm_ok_refcount [OF s2(2) x2 us2, of "\<lambda>r. r - 1"] us f2 by simp
  moreover have "free_set ?s = free_set s2"
    using only_page_free_set [OF only_page_upd, of x "\<lambda>p. p\<lparr>refcount := refcount p - 1\<rparr>" s2] us us2
    by (auto simp: used_page_def free_set_def)
  moreover have "pgs ?s q = pgs s q" if q: "q \<in> page_ptrs s - free_set s" for q
  proof -
    have "q \<noteq> x" "q \<in> page_ptrs s1 - free_set s1" using q px geom_eqD(2) [OF geo] by auto
    then show ?thesis using s2(6) [of q] gr q by (simp add: grown_def)
  qed
  moreover have "card (free_set s) \<le> card (free_set s2) + 4" using s2(7) gr by (simp add: grown_def)
  moreover have "pte ?s r p = (if r = pt \<and> p = vpath va then leaf_value (pfndb_page_to_phys s x) prot else pte s r p)"
    if "valid W r p" "length p = 4" for r p
    using s2(4) [OF that] g1(2) geom_eqD(4) [OF geo] by simp
  ultimately show ?thesis
    using x xs(3) s2(1,3) un us f2 px geo
    by (intro exI [of _ x] exI [of _ ?s]) (simp add: commit_anon_page_def)
qed

lemma free_set_back:
  assumes "geom s' = geom s" and "\<forall>q \<in> page_ptrs s - free_set s. pgs s' q = pgs s q"
  shows "free_set s' \<subseteq> free_set s"
proof
  fix x assume x: "x \<in> free_set s'"
  then have "x \<in> page_ptrs s" "page_is_free (pgs s' x)" using geom_eqD(2) [OF assms(1)] by (auto simp: free_set_def)
  then show "x \<in> free_set s" using assms(2) by (cases "x \<in> free_set s") (auto simp: free_set_def)
qed

text \<open>Each page of the range gets a frame of its own, taken from the free list.\<close>

lemma commit_pages_spec:
  assumes "vm_ok s W" and "\<forall>a \<in> set as. valid W pt (vpath a) \<and> pte s pt (vpath a) = 0" and "distinct (map vpath as)"
    and "4 * length as \<le> card (free_set s)"
  shows "\<exists>g s'. loop (commit_anon_page pt prot) as s = Some (True, s') \<and> vm_ok s' W \<and> geom s' = geom s
    \<and> inj_on g (set as) \<and> (\<forall>a \<in> set as. g a \<in> free_set s \<and> refcount (pgs s' (g a)) = 1 \<and> u2 (pgs s' (g a)) = 1
        \<and> pte s' pt (vpath a) = leaf_value (pfndb_page_to_phys s (g a)) prot)
    \<and> (\<forall>q \<in> page_ptrs s - free_set s. pgs s' q = pgs s q)
    \<and> (\<forall>r p. valid W r p \<longrightarrow> length p = 4 \<longrightarrow> \<not> (r = pt \<and> p \<in> vpath ` set as) \<longrightarrow> pte s' r p = pte s r p)"
  using assms
proof (induction as arbitrary: s)
  case (Cons a as)
  have va: "valid W pt (vpath a)" "pte s pt (vpath a) = 0" "4 \<le> card (free_set s)" using Cons.prems(2,4) by simp_all
  obtain x s1 where 1: "commit_anon_page pt prot a s = Some (True, s1)" "vm_ok s1 W" "geom s1 = geom s"
      "x \<in> free_set s" "refcount (pgs s1 x) = 1" "u2 (pgs s1 x) = 1" "used_page (pgs s1 x)"
      "\<forall>q \<in> page_ptrs s - free_set s. pgs s1 q = pgs s q" "card (free_set s) \<le> card (free_set s1) + 4"
      "\<And>r p. valid W r p \<Longrightarrow> length p = 4 \<Longrightarrow> pte s1 r p
         = (if r = pt \<and> p = vpath a then leaf_value (pfndb_page_to_phys s x) prot else pte s r p)"
    using commit_anon_page_spec [OF Cons.prems(1) va] by blast
  have "\<forall>b \<in> set as. valid W pt (vpath b) \<and> pte s1 pt (vpath b) = 0"
  proof
    fix b assume b: "b \<in> set as"
    then have "vpath b \<in> vpath ` set as" by simp
    then have "vpath b \<noteq> vpath a" using Cons.prems(3) by auto
    then show "valid W pt (vpath b) \<and> pte s1 pt (vpath b) = 0" using b Cons.prems(2) 1(10) [of pt "vpath b"] by simp
  qed
  moreover have "4 * length as \<le> card (free_set s1)" using Cons.prems(4) 1(9) by simp
  ultimately obtain g s' where 2: "loop (commit_anon_page pt prot) as s1 = Some (True, s')" "vm_ok s' W" "geom s' = geom s1"
      "inj_on g (set as)"
      "\<And>b. b \<in> set as \<Longrightarrow> g b \<in> free_set s1 \<and> refcount (pgs s' (g b)) = 1 \<and> u2 (pgs s' (g b)) = 1
        \<and> pte s' pt (vpath b) = leaf_value (pfndb_page_to_phys s1 (g b)) prot"
      "\<forall>q \<in> page_ptrs s1 - free_set s1. pgs s' q = pgs s1 q"
      "\<And>r p. valid W r p \<Longrightarrow> length p = 4 \<Longrightarrow> \<not> (r = pt \<and> p \<in> vpath ` set as) \<Longrightarrow> pte s' r p = pte s1 r p"
    using Cons.IH [OF 1(2)] Cons.prems(3) by auto
  have x1: "x \<in> page_ptrs s1 - free_set s1"
    using 1(4,7) free_set_sub geom_eqD(2) [OF 1(3)] by (auto simp: free_set_def used_page_def)
  have sub: "free_set s1 \<subseteq> free_set s" by (rule free_set_back [OF 1(3,8)])
  have na: "a \<notin> set as" "vpath a \<notin> vpath ` set as" using Cons.prems(3) by auto
  let ?g = "g(a := x)"
  have "inj_on ?g (set (a # as))"
  proof (rule inj_onI)
    fix b c assume bc: "b \<in> set (a # as)" "c \<in> set (a # as)" "?g b = ?g c"
    have "g d \<noteq> x" if "d \<in> set as" for d using 2(5) [OF that] x1 by auto
    then show "b = c" using bc 2(4) by (auto simp: inj_on_def split: if_splits)
  qed
  moreover have "?g b \<in> free_set s \<and> refcount (pgs s' (?g b)) = 1 \<and> u2 (pgs s' (?g b)) = 1
      \<and> pte s' pt (vpath b) = leaf_value (pfndb_page_to_phys s (?g b)) prot" if "b \<in> set (a # as)" for b
  proof (cases "b = a")
    case True
    then show ?thesis using 1(4-6) 1(10) [of pt "vpath a"] 2(6) 2(7) [of pt "vpath a"] x1 va(1) na(2) by simp
  next
    case False
    then show ?thesis using that 2(5) [of b] sub geom_eqD(4) [OF 1(3)] by auto
  qed
  moreover have "pgs s' q = pgs s q" if "q \<in> page_ptrs s - free_set s" for q
  proof -
    have "q \<in> page_ptrs s1 - free_set s1" using that sub geom_eqD(2) [OF 1(3)] by auto
    then show ?thesis using that 1(8) 2(6) by simp
  qed
  moreover have "pte s' r p = pte s r p" if "valid W r p" "length p = 4" "\<not> (r = pt \<and> p \<in> vpath ` set (a # as))" for r p
    using 2(7) [OF that(1,2)] 1(10) [OF that(1,2)] that(3) by auto
  moreover have "loop (commit_anon_page pt prot) (a # as) s = Some (True, s')" "geom s' = geom s" using 1(1,3) 2(1,3) by simp_all
  ultimately show ?case using 2(2) by blast
qed simp

section \<open>Address spaces\<close>

text \<open>The descriptors are in order, the tables are well formed, and every mapped user address lies in
  a descriptor.\<close>

definition space_ok :: "(u64 \<times> u64) set \<Rightarrow> vas \<Rightarrow> kmem \<Rightarrow> bool" where
  "space_ok W vas s \<longleftrightarrow> vm_ok s W \<and> user_half (pml4 vas) \<subseteq> W \<and> vads_ok (list_head vas)
     \<and> (\<forall>a. user_addr a \<and> pte s (pml4 vas) (vpath a) \<noteq> 0 \<longrightarrow> covered (list_head vas) a)"

lemma space_root: "space_ok W vas s \<Longrightarrow> pml4 vas \<noteq> 0"
proof -
  assume ok: "space_ok W vas s"
  have "(pml4 vas, 0) \<in> user_half (pml4 vas)" by (simp add: user_half_def)
  then have "valid W (pml4 vas) []" using ok unfolding space_ok_def valid_def by auto
  then show ?thesis using root_nonzero ok unfolding space_ok_def vm_ok_def by blast
qed

lemma user_end: "a < e \<Longrightarrow> e \<le> VAS_USER_END \<Longrightarrow> user_addr a"
proof -
  assume "a < e" "e \<le> VAS_USER_END"
  moreover have "(VAS_USER_END :: u64) < 0x800000000000" by simp
  ultimately show ?thesis unfolding user_addr_def by order
qed

lemma covered_user: "vads_ok vs \<Longrightarrow> covered vs a \<Longrightarrow> user_addr a"
  by (auto simp: covered_def vads_ok_def vad_ok_def intro: user_end)

lemma range_bounds:
  assumes "unat start + unat len \<le> unat VAS_USER_END"
  shows "paged (ALIGN_DOWN start PAGE_SIZE + ALIGN_UP len PAGE_SIZE)"
    "ALIGN_DOWN start PAGE_SIZE \<le> ALIGN_DOWN start PAGE_SIZE + ALIGN_UP len PAGE_SIZE"
proof -
  have len: "unat len \<le> 18446744073709547520" using assms by simp
  have "unat (ALIGN_UP len PAGE_SIZE) \<le> unat len + 4095" unfolding unat_align_up [OF len] by simp
  moreover have "unat (ALIGN_DOWN start PAGE_SIZE) \<le> unat start" unfolding unat_align_down by simp
  ultimately have "unat (ALIGN_DOWN start PAGE_SIZE) + unat (ALIGN_UP len PAGE_SIZE) < 18446744073709551616" using assms by simp
  from unat_add_small [OF this] show "ALIGN_DOWN start PAGE_SIZE \<le> ALIGN_DOWN start PAGE_SIZE + ALIGN_UP len PAGE_SIZE"
    by (simp add: word_le_nat_alt)
  show "paged (ALIGN_DOWN start PAGE_SIZE + ALIGN_UP len PAGE_SIZE)" using len by (simp add: paged_add)
qed

lemma vad_remove_range_spec:
  assumes "vads_ok vs" and "paged s" "paged e" "s \<le> e" and "vad_remove_range s e vs st = (ws, st')"
    and "\<forall>f. f \<noteq> 0 \<longrightarrow> file_refs vs f \<le> node_refs st f"
  shows "vads_ok ws" and "vm st' = vm st" and "f \<noteq> 0 \<Longrightarrow> node_refs st' f + file_refs vs f = node_refs st f + file_refs ws f"
    and "False \<notin> set (kz st) \<Longrightarrow> vad_at (vas\<lparr>list_head := ws\<rparr>) a
      = (if s \<le> a \<and> a < e then None else vad_at (vas\<lparr>list_head := vs\<rparr>) a)"
proof -
  note pc = vad_remove_range_pieces [OF assms(5,6)]
  have ok: "vads_ok (concat (map (pieces s e) vs))" by (rule concat_pieces_ok [OF assms(1-4)])
  show "vads_ok ws" using vads_ok_subseq [OF _ ok] pc by blast
  show "vm st' = vm st" using pc by blast
  show "node_refs st' f + file_refs vs f = node_refs st f + file_refs ws f" if "f \<noteq> 0" using pc that by blast
  assume kz: "False \<notin> set (kz st)"
  have "vad_at (vas\<lparr>list_head := ws\<rparr>) a = Some x \<longleftrightarrow> \<not> (s \<le> a \<and> a < e) \<and> vad_at (vas\<lparr>list_head := vs\<rparr>) a = Some x" for x
  proof -
    have ws: "ws = concat (map (pieces s e) vs)" using pc kz by blast
    have "vad_at (vas\<lparr>list_head := ws\<rparr>) a = Some x
        \<longleftrightarrow> (\<exists>v \<in> set vs. \<exists>w \<in> set (pieces s e v). v_start w \<le> a \<and> a < v_end w \<and> x = info w a)"
      using vad_at_iff [of "vas\<lparr>list_head := ws\<rparr>"] ok ws by auto
    also have "\<dots> \<longleftrightarrow> (\<exists>v \<in> set vs. \<not> (s \<le> a \<and> a < e) \<and> v_start v \<le> a \<and> a < v_end v \<and> x = info v a)"
      using pieces_info [OF _ assms(4)] assms(1) by (simp add: vads_ok_def)
    finally show ?thesis using vad_at_iff [of "vas\<lparr>list_head := vs\<rparr>" a x] assms(1) by auto
  qed
  then show "vad_at (vas\<lparr>list_head := ws\<rparr>) a = (if s \<le> a \<and> a < e then None else vad_at (vas\<lparr>list_head := vs\<rparr>) a)"
    by (metis not_None_eq)
qed

lemma covered_vad_at: "covered (list_head vas) a \<longleftrightarrow> vad_at vas a \<noteq> None"
  by (auto simp: covered_def vad_at_def vas_find_def find_None_iff)

lemma bit_VAD_ANONYMOUS: "bit VAD_ANONYMOUS n \<longleftrightarrow> n = 12"
  unfolding VAD_ANONYMOUS_def by (auto simp only: bit_push_bit_iff bit_1_iff possible_bit_word) simp_all

lemma anon_not_file: "fl AND VAD_FILE = 0 \<Longrightarrow> (fl OR VAD_ANONYMOUS) AND VAD_FILE = 0"
proof -
  assume "fl AND VAD_FILE = 0"
  then have "\<not> bit fl 15" by (simp add: VAD_FILE_def bit_iff_and_push_bit_not_eq_0)
  then show ?thesis by (intro bit_eqI) (auto simp: bit_and_iff bit_or_iff bit_VAD_FILE bit_VAD_ANONYMOUS)
qed

lemma anon_prot: "(fl OR VAD_ANONYMOUS) AND VAD_PROT_MASK = fl AND VAD_PROT_MASK"
proof -
  have "\<not> bit VAD_PROT_MASK 12" by (simp add: VAD_PROT_MASK_def VMM_NX_def)
  then show ?thesis by (intro bit_eqI) (auto simp: bit_and_iff bit_or_iff bit_VAD_ANONYMOUS)
qed

lemma distinct_page_list:
  assumes "paged start" "paged end" "end \<le> VAS_USER_END"
  shows "distinct (map vpath (page_list start end))"
proof -
  have "inj_on vpath (set (page_list start end))"
  proof (rule inj_onI)
    fix a b assume ab: "a \<in> set (page_list start end)" "b \<in> set (page_list start end)" "vpath a = vpath b"
    then have p: "paged a" "a < end" "paged b" "b < end" by (simp_all add: set_page_list [OF assms(1,2)])
    then have "unat a div 4096 = unat b div 4096" using ab(3) vpath_eq_iff user_end [OF _ assms(3)] by blast
    then show "a = b" using paged_obtain [OF p(1)] paged_obtain [OF p(3)] by (metis nonzero_mult_div_cancel_left word_unat_eq_iff zero_neq_numeral)
  qed
  moreover have "distinct (page_list start end)"
  proof -
    have "inj_on (\<lambda>k. start + of_nat k * PAGE_SIZE :: u64) {0..<(unat end - unat start) div 4096}"
    proof (rule inj_onI)
      fix i j assume ij: "i \<in> {0..<(unat end - unat start) div 4096}" "j \<in> {0..<(unat end - unat start) div 4096}"
        "start + of_nat i * PAGE_SIZE = start + (of_nat j * PAGE_SIZE :: u64)"
      have b: "4096 * k < 18446744073709551616 \<and> k < 18446744073709551616"
        if "k \<in> {0..<(unat end - unat start) div 4096}" for k
      proof -
        have "k * 4096 \<le> (unat end - unat start) div 4096 * 4096" using that by simp
        also have "\<dots> \<le> unat end" using div_times_less_eq_dividend [of "unat end - unat start" 4096] by linarith
        finally show ?thesis using unat_bound64 [of "end"] by linarith
      qed
      then have "unat (of_nat k * PAGE_SIZE :: u64) = 4096 * k" if "k \<in> {0..<(unat end - unat start) div 4096}" for k
        using b [OF that] by (simp add: unat_word_ariths mult.commute)
      moreover have "of_nat i * PAGE_SIZE = (of_nat j * PAGE_SIZE :: u64)" using ij(3) by simp
      ultimately have "4096 * i = 4096 * j" using ij(1,2) by metis
      then show "i = j" by simp
    qed
    then show ?thesis by (simp add: page_list_def distinct_map)
  qed
  ultimately show ?thesis by (simp add: distinct_map)
qed

lemma length_page_list: "length (page_list start end) = (unat end - unat start) div 4096"
  by (simp add: page_list_def)

lemma page_of_range:
  assumes "paged start" "paged end" "start \<le> a" "a < end"
  shows "ALIGN_DOWN a PAGE_SIZE \<in> set (page_list start end)"
proof -
  obtain k where k: "unat start = 4096 * k" using paged_obtain [OF assms(1)] by blast
  then have "k \<le> unat a div 4096" using assms(3) by (simp add: word_le_nat_alt less_eq_div_iff_mult_less_eq mult.commute)
  then have "start \<le> ALIGN_DOWN a PAGE_SIZE" unfolding word_le_nat_alt unat_align_down k by linarith
  moreover have "ALIGN_DOWN a PAGE_SIZE \<le> a" by (simp add: word_le_nat_alt unat_align_down)
  ultimately show ?thesis using assms(4) by (auto simp: set_page_list [OF assms(1,2)] intro: le_less_trans)
qed

lemma range_end:
  assumes "room_at vs base len" and "0 < len" "paged len"
  shows "unat (base + len) = unat base + unat len" "base + len \<le> VAS_USER_END" "base < base + len" "paged base" "paged (base + len)"
proof -
  have le: "unat base + unat len \<le> unat VAS_USER_END" and p: "paged base" using assms(1) by (auto simp: room_at_def)
  show u: "unat (base + len) = unat base + unat len" using le by (intro unat_add_small) simp
  show "base + len \<le> VAS_USER_END" unfolding word_le_nat_alt u by (rule le)
  show "base < base + len" unfolding word_less_nat_alt u using assms(2) by (simp add: word_less_nat_alt)
  show "paged base" by (rule p)
  show "paged (base + len)" using p assms(3) by (rule paged_add)
qed

lemma vad_insert_at:
  assumes "vads_ok (list_head vas)" and "vads_ok (vad_insert v (list_head vas))"
  shows "vad_at (vas\<lparr>list_head := vad_insert v (list_head vas), user_start := u\<rparr>) a
    = (if v_start v \<le> a \<and> a < v_end v then Some (info v a) else vad_at vas a)"
proof -
  let ?vas = "vas\<lparr>list_head := vad_insert v (list_head vas), user_start := u\<rparr>"
  have iff: "vad_at ?vas a = Some x \<longleftrightarrow> v_start v \<le> a \<and> a < v_end v \<and> x = info v a \<or> vad_at vas a = Some x" for x
    using vad_at_iff [of ?vas a x] vad_at_iff [OF assms(1), of a x] assms(2) by auto
  show ?thesis
  proof (cases "v_start v \<le> a \<and> a < v_end v")
    case True
    then show ?thesis using iff [of "info v a"] by simp
  next
    case False
    then show ?thesis using iff by (metis not_None_eq)
  qed
qed

lemma commit_range:
  assumes "space_ok W vas s" and "room_at (list_head vas) base len" and "0 < len" "paged len"
    and "4 * (unat len div 4096) \<le> card (free_set s)"
  shows "\<exists>g s'. for_pages (commit_anon_page (pml4 vas) prot) base (base + len) s = Some (True, s') \<and> vm_ok s' W
    \<and> inj_on g (set (page_list base (base + len)))
    \<and> (\<forall>a \<in> set (page_list base (base + len)). g a \<in> free_set s \<and> refcount (pgs s' (g a)) = 1)
    \<and> (\<forall>a. user_addr a \<longrightarrow> pte s' (pml4 vas) (vpath a)
         = (if base \<le> a \<and> a < base + len then leaf_value (pfndb_page_to_phys s (g (ALIGN_DOWN a PAGE_SIZE))) prot
            else pte s (pml4 vas) (vpath a)))"
proof -
  let ?pt = "pml4 vas" and ?as = "page_list base (base + len)"
  have ok: "vm_ok s W" "user_half ?pt \<subseteq> W" and bk: "\<And>a. user_addr a \<Longrightarrow> pte s ?pt (vpath a) \<noteq> 0 \<Longrightarrow> covered (list_head vas) a"
    using assms(1) by (auto simp: space_ok_def)
  note e = range_end [OF assms(2-4)]
  have pre: "valid W ?pt (vpath a) \<and> pte s ?pt (vpath a) = 0" if "a \<in> set ?as" for a
  proof -
    have a: "base \<le> a" "a < base + len" using that by (simp_all add: set_page_list [OF e(4,5)])
    have "\<not> covered (list_head vas) a"
    proof
      assume "covered (list_head vas) a"
      then obtain v where v: "v \<in> set (list_head vas)" "v_start v \<le> a" "a < v_end v" by (auto simp: covered_def)
      then have "v_end v \<le> base \<or> base + len \<le> v_start v" using assms(2) e(1) by (auto simp: room_at_def word_le_nat_alt)
      then show False using v(2,3) a by auto
    qed
    then show ?thesis using bk valid_user [OF _ ok(2)] user_end [OF a(2) e(2)] by blast
  qed
  obtain g s' where s': "loop (commit_anon_page ?pt prot) ?as s = Some (True, s')" "vm_ok s' W" "inj_on g (set ?as)"
      "\<And>a. a \<in> set ?as \<Longrightarrow> g a \<in> free_set s \<and> refcount (pgs s' (g a)) = 1
        \<and> pte s' ?pt (vpath a) = leaf_value (pfndb_page_to_phys s (g a)) prot"
      "\<And>r p. valid W r p \<Longrightarrow> length p = 4 \<Longrightarrow> \<not> (r = ?pt \<and> p \<in> vpath ` set ?as) \<Longrightarrow> pte s' r p = pte s r p"
    using commit_pages_spec [OF ok(1) _ distinct_page_list [OF e(4,5,2)], of ?pt prot] pre assms(5) e(1)
    by (auto simp: length_page_list)
  have "pte s' ?pt (vpath a) = (if base \<le> a \<and> a < base + len then leaf_value (pfndb_page_to_phys s (g (ALIGN_DOWN a PAGE_SIZE))) prot
      else pte s ?pt (vpath a))" if a: "user_addr a" for a
  proof (cases "base \<le> a \<and> a < base + len")
    case True
    then have "ALIGN_DOWN a PAGE_SIZE \<in> set ?as" using page_of_range [OF e(4,5)] by blast
    from s'(4) [OF this] show ?thesis using True by simp
  next
    case False
    then show ?thesis using s'(5) [OF valid_user [OF a ok(2)] length_vpath] range_page_iff [OF e(4,5,2) a] by auto
  qed
  then show ?thesis using s'(1-4) for_pages_loop [OF e(4,5)] by metis
qed

section \<open>Properties of address spaces\<close>

text \<open>C17.  The search for a free range is first fit: for a non-zero hint it returns the lowest page-aligned
  address at or above the hint where the range meets no descriptor and ends inside the user half,
  and \<open>0\<close> exactly when there is none.\<close>

theorem vas_find_free_first_fit:
  assumes "vads_ok vs" and "0 < len" "paged len" and "0 < hint" "unat hint \<le> 18446744073709547520"
  shows "if vas_find_free vs hint len = 0 then \<forall>c. hint \<le> c \<longrightarrow> \<not> room_at vs c len
    else room_at vs (vas_find_free vs hint len) len \<and> hint \<le> vas_find_free vs hint len
      \<and> (\<forall>c. hint \<le> c \<longrightarrow> room_at vs c len \<longrightarrow> vas_find_free vs hint len \<le> c)"
  using vas_find_free_fits [OF assms(1-3,5) refl] vas_find_free_none [OF assms(1,3-5)] by simp

theorem vas_find_free_first_fit_witness:
  "let vs = [\<lparr>v_start = 0x1000, v_end = 0x3000, v_flags = 0, v_file = 0, v_off = 0\<rparr>,
             \<lparr>v_start = 0x4000, v_end = 0x5000, v_flags = 0, v_file = 0, v_off = 0\<rparr>]
   in room_at vs (vas_find_free vs 0x1800 0x2000) 0x2000 \<and> vas_find_free vs 0x1800 0x2000 = 0x5000"
proof -
  let ?vs = "[\<lparr>v_start = 0x1000, v_end = 0x3000, v_flags = 0, v_file = 0, v_off = 0\<rparr>,
             \<lparr>v_start = 0x4000, v_end = 0x5000, v_flags = 0, v_file = 0, v_off = 0\<rparr>] :: vad list"
  have ok: "vads_ok ?vs" by (simp add: vads_ok_def vad_ok_def paged_def)
  have v: "vas_find_free ?vs 0x1800 0x2000 = 0x5000" by (simp add: vas_find_free_def ALIGN_UP_def)
  show ?thesis unfolding Let_def using vas_find_free_first_fit [OF ok, of "0x2000" "0x1800"] v by (simp add: paged_def)
qed

text \<open>\<open>vas_range_mapped\<close> decides coverage: it holds iff the length is not \<open>0\<close>, the page-aligned range does
  not wrap and every address of it lies in a descriptor.\<close>

theorem vas_range_mapped_iff:
  assumes "vads_ok (list_head vas)"
  shows "vas_range_mapped vas start len \<longleftrightarrow> len \<noteq> 0
    \<and> ALIGN_DOWN start PAGE_SIZE \<le> ALIGN_DOWN start PAGE_SIZE + ALIGN_UP len PAGE_SIZE
    \<and> (\<forall>a. ALIGN_DOWN start PAGE_SIZE \<le> a \<and> a < ALIGN_DOWN start PAGE_SIZE + ALIGN_UP len PAGE_SIZE
         \<longrightarrow> vas_find vas a \<noteq> None)"
proof -
  have "covered (list_head vas) a \<longleftrightarrow> vas_find vas a \<noteq> None" for a
    by (simp add: covered_vad_at vad_at_def)
  then show ?thesis
    using range_mapped_from_iff [OF assms] by (auto simp: vas_range_mapped_def Let_def not_less)
qed

theorem vas_range_mapped_iff_witness:
  "let vas = \<lparr>pml4 = 0, list_head = [\<lparr>v_start = 0x1000, v_end = 0x3000, v_flags = 0, v_file = 0, v_off = 0\<rparr>], user_start = 0x1000\<rparr>
   in vas_range_mapped vas 0x1800 0x1800 \<and> vas_find vas 0x2fff \<noteq> None"
proof -
  let ?vas = "\<lparr>pml4 = 0, list_head = [\<lparr>v_start = 0x1000, v_end = 0x3000, v_flags = 0, v_file = 0, v_off = 0\<rparr>], user_start = 0x1000\<rparr> :: vas"
  have ok: "vads_ok (list_head ?vas)" by (simp add: vads_ok_def vad_ok_def paged_def)
  have "vas_range_mapped ?vas 0x1800 0x1800" by (simp add: vas_range_mapped_def ALIGN_DOWN_def ALIGN_UP_def)
  then show ?thesis unfolding Let_def using vas_range_mapped_iff [OF ok, of "0x1800" "0x1800"] by (simp add: ALIGN_DOWN_def ALIGN_UP_def)
qed

text \<open>C19.  Unmapping a user range never panics on a well-formed address space and keeps it well formed.  When
  the allocations of descriptors succeed, no address of the page-aligned range is mapped or described
  afterwards, every other address is mapped and described as before (flags, file and offset, also
  for the two parts of a descriptor that was split), and each file has as many more or fewer
  references as there are descriptors of it.\<close>

theorem vas_unmap_removes:
  assumes "space_ok W vas (vm st)" and "False \<notin> set (kz st)" and "0 < len" "unat start + unat len \<le> unat VAS_USER_END"
    and "\<forall>f. f \<noteq> 0 \<longrightarrow> file_refs (list_head vas) f \<le> node_refs st f"
  shows "\<exists>vas' st'. vas_unmap start len vas st = Some (vas', st') \<and> space_ok W vas' (vm st') \<and> pml4 vas' = pml4 vas
    \<and> (\<forall>a. user_addr a \<longrightarrow>
         (if ALIGN_DOWN start PAGE_SIZE \<le> a \<and> a < ALIGN_DOWN start PAGE_SIZE + ALIGN_UP len PAGE_SIZE
          then get_mapping_flags (pml4 vas) a (vm st') = Some 0 \<and> vad_at vas' a = None
          else get_mapping_flags (pml4 vas) a (vm st') = get_mapping_flags (pml4 vas) a (vm st)
            \<and> get_phys (pml4 vas) a (vm st') = get_phys (pml4 vas) a (vm st) \<and> vad_at vas' a = vad_at vas a))
    \<and> (\<forall>f. f \<noteq> 0 \<longrightarrow> node_refs st' f + file_refs (list_head vas) f = node_refs st f + file_refs (list_head vas') f)"
proof -
  let ?s = "ALIGN_DOWN start PAGE_SIZE" and ?e = "ALIGN_DOWN start PAGE_SIZE + ALIGN_UP len PAGE_SIZE" and ?pt = "pml4 vas"
  note rb = range_bounds [OF assms(4)]
  have ok: "vm_ok (vm st) W" "user_half ?pt \<subseteq> W" "vads_ok (list_head vas)" and pt: "?pt \<noteq> 0"
      and bk: "\<And>a. user_addr a \<Longrightarrow> pte (vm st) ?pt (vpath a) \<noteq> 0 \<Longrightarrow> covered (list_head vas) a"
    using assms(1) space_root [OF assms(1)] by (auto simp: space_ok_def)
  obtain m where m: "unmap_vads ?pt ?s ?e (list_head vas) (vm st) = Some m" "vm_ok m W"
      "\<And>b. user_addr b \<Longrightarrow> pte m ?pt (vpath b)
         = (if ?s \<le> b \<and> b < ?e \<and> covered (list_head vas) b then 0 else pte (vm st) ?pt (vpath b))"
    using unmap_vads_spec [OF ok(1,2) paged_align(1) rb(1) ok(3)] by blast
  obtain ws st' where ws: "vad_remove_range ?s ?e (list_head vas) (st\<lparr>vm := m\<rparr>) = (ws, st')" by fastforce
  note rr = vad_remove_range_spec [OF ok(3) paged_align(1) rb ws, simplified, OF assms(5)]
  let ?vas = "vas\<lparr>list_head := ws\<rparr>"
  have vat: "vad_at ?vas a = (if ?s \<le> a \<and> a < ?e then None else vad_at vas a)" for a
    using rr(4) [of vas a] assms(2) by simp
  have pte: "pte m ?pt (vpath a) = (if ?s \<le> a \<and> a < ?e then 0 else pte (vm st) ?pt (vpath a))" if "user_addr a" for a
    using m(3) [OF that] bk [OF that] by auto
  have "covered ws a" if "user_addr a" "pte m ?pt (vpath a) \<noteq> 0" for a
    using pte [OF that(1)] bk [OF that(1)] that(2) vat [of a] covered_vad_at [of vas a] covered_vad_at [of ?vas a]
    by (auto split: if_splits)
  then have "space_ok W ?vas m" using m(2) ok(2) rr(1) by (simp add: space_ok_def)
  moreover have "vas_unmap start len vas st = Some (?vas, st')" using assms(3) m(1) ws by (simp add: vas_unmap_def Let_def on_mem_def)
  moreover have "get_mapping_flags ?pt a m = (if ?s \<le> a \<and> a < ?e then Some 0 else get_mapping_flags ?pt a (vm st))"
      "\<not> (?s \<le> a \<and> a < ?e) \<Longrightarrow> get_phys ?pt a m = get_phys ?pt a (vm st)" if "user_addr a" for a
    using pte [OF that] pt by (auto simp: get_mapping_flags_pte get_phys_pte)
  ultimately show ?thesis using rr(2,3) vat by (intro exI [of _ ?vas] exI [of _ st']) simp
qed

theorem vas_unmap_removes_witness:
  "\<exists>vas' st'. vas_unmap 0x402000 0x1000
      \<lparr>pml4 = fst space, list_head = [\<lparr>v_start = 0x401000, v_end = 0x404000, v_flags = 0, v_file = 0, v_off = 0\<rparr>], user_start = 0x1000\<rparr>
      \<lparr>vm = snd space_page, kz = [], node_refs = (\<lambda>_. 0)\<rparr> = Some (vas', st')
    \<and> vad_at vas' 0x402abc = None \<and> vad_at vas' 0x403abc = Some (0, None)"
proof -
  let ?v = "\<lparr>v_start = 0x401000, v_end = 0x404000, v_flags = 0, v_file = 0, v_off = 0\<rparr> :: vad"
  let ?vas = "\<lparr>pml4 = fst space, list_head = [?v], user_start = 0x1000\<rparr> :: vas"
  have ok: "vads_ok [?v]" by (simp add: vads_ok_def vad_ok_def paged_def)
  have "pte (snd space_page) (fst space) (vpath a) = 0" if "user_addr a" for a
    using space_state(4) [OF valid_user [OF that subset_refl] length_vpath] .
  then have sp: "space_ok (user_half (fst space)) ?vas (snd space_page)" using space_state(3) ok by (auto simp: space_ok_def)
  have "vad_at ?vas 0x403abc = Some (0, None)" using vad_at_iff [of ?vas "0x403abc"] ok by (simp add: info_def)
  then show ?thesis
    using vas_unmap_removes [of "user_half (fst space)" ?vas "\<lparr>vm = snd space_page, kz = [], node_refs = (\<lambda>_. 0)\<rparr>" "0x1000" "0x402000"] sp
    by (fastforce simp: ALIGN_DOWN_def ALIGN_UP_def user_addr_def)
qed

text \<open>C20.  Mapping anonymous memory: when a range is found and the free list holds four frames for every page
  (the page itself and at most three tables), \<open>vas_map_anon\<close> succeeds and keeps the address space well
  formed.  Every page of the range is then backed by a frame of its own that was free, with one
  reference and the requested protection, and described as anonymous; all other addresses are mapped
  and described as before.\<close>

theorem vas_map_anon_maps:
  assumes "space_ok W vas (vm st)" and "False \<notin> set (kz st)" and "0 < len" "unat len \<le> 18446744073709547520"
    and "fl AND VAD_FIXED \<noteq> 0 \<or> unat hint \<le> 18446744073709547520 \<and> unat (user_start vas) \<le> 18446744073709547520"
    and "fl AND VAD_FILE = 0" and "vas_place vas hint (ALIGN_UP len PAGE_SIZE) fl = Some base"
    and "4 * (unat (ALIGN_UP len PAGE_SIZE) div 4096) \<le> card (free_set (vm st))"
  shows "\<exists>vas' st' g. vas_map_anon hint len fl vas st = Some (base, vas', st') \<and> space_ok W vas' (vm st')
    \<and> pml4 vas' = pml4 vas \<and> inj_on g {a. paged a \<and> base \<le> a \<and> a < base + ALIGN_UP len PAGE_SIZE}
    \<and> (\<forall>a. user_addr a \<longrightarrow>
         (if base \<le> a \<and> a < base + ALIGN_UP len PAGE_SIZE
          then get_phys (pml4 vas) a (vm st') = Some (pfndb_page_to_phys (vm st) (g (ALIGN_DOWN a PAGE_SIZE)) + (a AND 0xFFF))
            \<and> get_mapping_flags (pml4 vas) a (vm st') = Some (((fl AND VAD_PROT_MASK) AND NOT PAGE_FRAME_MASK) OR VMM_PRESENT)
            \<and> g (ALIGN_DOWN a PAGE_SIZE) \<in> free_set (vm st) \<and> refcount (pgs (vm st') (g (ALIGN_DOWN a PAGE_SIZE))) = 1
            \<and> vad_at vas' a = Some (fl OR VAD_ANONYMOUS, None)
          else get_phys (pml4 vas) a (vm st') = get_phys (pml4 vas) a (vm st)
            \<and> get_mapping_flags (pml4 vas) a (vm st') = get_mapping_flags (pml4 vas) a (vm st)
            \<and> vad_at vas' a = vad_at vas a))"
proof -
  let ?L = "ALIGN_UP len PAGE_SIZE" and ?pt = "pml4 vas" and ?s = "vm st"
  let ?e = "base + ?L" and ?prot = "fl AND VAD_PROT_MASK"
  let ?v = "\<lparr>v_start = base, v_end = ?e, v_flags = fl OR VAD_ANONYMOUS, v_file = 0, v_off = 0\<rparr> :: vad"
  have ok: "vm_ok ?s W" "user_half ?pt \<subseteq> W" "vads_ok (list_head vas)" and pt: "?pt \<noteq> 0"
      and bk: "\<And>a. user_addr a \<Longrightarrow> pte ?s ?pt (vpath a) \<noteq> 0 \<Longrightarrow> covered (list_head vas) a"
    using assms(1) space_root [OF assms(1)] by (auto simp: space_ok_def)
  have mem: "mem_ok ?s" using ok(1) by (simp add: vm_ok_def)
  have L: "paged ?L" "0 < ?L" using assms(3,4) align_up_bounds(1) [OF assms(4)] by (auto intro: less_le_trans)
  have room: "room_at (list_head vas) base ?L" by (rule vas_place_room [OF ok(3) L(2,1) assms(5,7)])
  have e: "unat ?e = unat base + unat ?L" "?e \<le> VAS_USER_END" "base < ?e" "paged base" "paged ?e"
    using range_end [OF room L(2,1)] by blast+
  have v: "vad_ok ?v" using e anon_not_file [OF assms(6)] by (simp add: vad_ok_def)
  have "\<forall>w \<in> set (list_head vas). v_end w \<le> base \<or> ?e \<le> v_start w" using room e(1) by (auto simp: room_at_def word_le_nat_alt)
  then have ins: "vads_ok (vad_insert ?v (list_head vas))" using vad_insert_ok [OF ok(3) v] by simp
  have set_as: "set (page_list base ?e) = {a. paged a \<and> base \<le> a \<and> a < ?e}" by (rule set_page_list [OF e(4,5)])
  obtain g s' where s': "for_pages (commit_anon_page ?pt ?prot) base ?e ?s = Some (True, s')" "vm_ok s' W"
      "inj_on g (set (page_list base ?e))"
      "\<And>a. a \<in> set (page_list base ?e) \<Longrightarrow> g a \<in> free_set ?s \<and> refcount (pgs s' (g a)) = 1"
      "\<And>a. user_addr a \<Longrightarrow> pte s' ?pt (vpath a)
         = (if base \<le> a \<and> a < ?e then leaf_value (pfndb_page_to_phys ?s (g (ALIGN_DOWN a PAGE_SIZE))) ?prot else pte ?s ?pt (vpath a))"
    using commit_range [OF assms(1) room L(2,1) assms(8), of ?prot] by blast
  obtain st1 where st1: "kz_ok st = (True, st1)" "vm st1 = vm st" using assms(2) by (cases rule: kz_ok_cases [of st]) auto
  let ?vas = "vas\<lparr>list_head := vad_insert ?v (list_head vas), user_start := ?e\<rparr>" and ?st = "st1\<lparr>vm := s'\<rparr>"
  have call: "vas_map_anon hint len fl vas st = Some (base, ?vas, ?st)"
    using assms(3,7) st1 s'(1) by (auto simp: vas_map_anon_def Let_def vad_alloc_def commit_anon_def anon_prot)
  have vat: "vad_at ?vas a = (if base \<le> a \<and> a < ?e then Some (fl OR VAD_ANONYMOUS, None) else vad_at vas a)" for a
    using vad_insert_at [OF ok(3) ins, of ?e a] anon_not_file [OF assms(6)] by (simp add: info_def)
  have "covered (list_head ?vas) a" if "user_addr a" "pte s' ?pt (vpath a) \<noteq> 0" for a
    using s'(5) [OF that(1)] that(2) bk [OF that(1)] vat [of a] covered_vad_at [of vas a] covered_vad_at [of ?vas a]
    by (auto split: if_splits)
  then have "space_ok W ?vas s'" using s'(2) ok(2) ins by (simp add: space_ok_def)
  moreover have "get_phys ?pt a s' = Some (pfndb_page_to_phys ?s (g (ALIGN_DOWN a PAGE_SIZE)) + (a AND 0xFFF))
      \<and> get_mapping_flags ?pt a s' = Some ((?prot AND NOT PAGE_FRAME_MASK) OR VMM_PRESENT)
      \<and> g (ALIGN_DOWN a PAGE_SIZE) \<in> free_set ?s \<and> refcount (pgs s' (g (ALIGN_DOWN a PAGE_SIZE))) = 1"
    if a: "user_addr a" "base \<le> a \<and> a < ?e" for a
  proof -
    let ?g = "g (ALIGN_DOWN a PAGE_SIZE)"
    have g: "?g \<in> free_set ?s \<and> refcount (pgs s' ?g) = 1" using s'(4) page_of_range [OF e(4,5)] a(2) by blast
    then have "?g \<in> page_ptrs ?s" using free_set_sub by blast
    note fr = page_phys(1) [OF mem this]
    show ?thesis using s'(5) [OF a(1)] a(2) pt leaf_value_frame [OF fr] leaf_value_flags [OF fr] leaf_value_present(2) g
      by (simp add: get_phys_pte get_mapping_flags_pte)
  qed
  moreover have "get_phys ?pt a s' = get_phys ?pt a ?s \<and> get_mapping_flags ?pt a s' = get_mapping_flags ?pt a ?s"
    if "user_addr a" "\<not> (base \<le> a \<and> a < ?e)" for a
    using s'(5) [OF that(1)] that(2) pt by (auto simp: get_phys_pte get_mapping_flags_pte)
  ultimately show ?thesis
    using call vat s'(3) unfolding set_as by (intro exI [of _ ?vas] exI [of _ ?st] exI [of _ g]) simp
qed

theorem vas_map_anon_maps_witness:
  "\<exists>vas' st'. vas_map_anon 0x401234 100 (VAD_FIXED OR VMM_WRITABLE) \<lparr>pml4 = fst space, list_head = [], user_start = 0x1000\<rparr>
      \<lparr>vm = snd space_page, kz = [True], node_refs = (\<lambda>_. 0)\<rparr> = Some (0x401000, vas', st')
    \<and> get_mapping_flags (fst space) 0x401fff (vm st') = Some (VMM_WRITABLE OR VMM_PRESENT)"
proof -
  let ?vas = "\<lparr>pml4 = fst space, list_head = [], user_start = 0x1000\<rparr> :: vas"
  let ?st = "\<lparr>vm = snd space_page, kz = [True], node_refs = (\<lambda>_. 0)\<rparr> :: vmst" and ?fl = "VAD_FIXED OR VMM_WRITABLE"
  have "pte (snd space_page) (fst space) (vpath a) = 0" if "user_addr a" for a
    using space_state(4) [OF valid_user [OF that subset_refl] length_vpath] .
  then have sp: "space_ok (user_half (fst space)) ?vas (vm ?st)" using space_state(3) by (auto simp: space_ok_def vads_ok_def)
  have L: "ALIGN_UP 100 PAGE_SIZE = 0x1000" by (simp add: ALIGN_UP_def)
  have fl: "?fl AND VAD_FIXED \<noteq> 0" "?fl AND VAD_FILE = 0" "((?fl AND VAD_PROT_MASK) AND NOT PAGE_FRAME_MASK) OR VMM_PRESENT = VMM_WRITABLE OR VMM_PRESENT"
    by (simp_all add: VAD_FIXED_def VMM_WRITABLE_def VAD_FILE_def VAD_PROT_MASK_def VMM_NX_def PAGE_FRAME_MASK_def VMM_PRESENT_def)
  have place: "vas_place ?vas 0x401234 0x1000 ?fl = Some 0x401000" using fl(1) by (simp add: vas_place_def ALIGN_DOWN_def)
  have free: "4 * (unat (0x1000 :: u64) div 4096) \<le> card (free_set (vm ?st))" using space_state(6) by simp
  have pre: "False \<notin> set (kz ?st)" "(0 :: u64) < 100" "unat (100 :: u64) \<le> 18446744073709547520" by simp_all
  note r = vas_map_anon_maps [OF sp pre disjI1 [OF fl(1)] fl(2), unfolded L, OF place free]
  have u: "user_addr 0x401fff" "(0x401000 :: u64) \<le> 0x401fff \<and> (0x401fff :: u64) < 0x401000 + 0x1000" by (simp_all add: user_addr_def)
  from r obtain vas' st' g where c: "vas_map_anon 0x401234 100 ?fl ?vas ?st = Some (0x401000, vas', st')"
      "\<forall>a. user_addr a \<longrightarrow> (if 0x401000 \<le> a \<and> a < 0x401000 + 0x1000
         then get_phys (pml4 ?vas) a (vm st') = Some (pfndb_page_to_phys (vm ?st) (g (ALIGN_DOWN a PAGE_SIZE)) + (a AND 0xFFF))
            \<and> get_mapping_flags (pml4 ?vas) a (vm st') = Some (((?fl AND VAD_PROT_MASK) AND NOT PAGE_FRAME_MASK) OR VMM_PRESENT)
            \<and> g (ALIGN_DOWN a PAGE_SIZE) \<in> free_set (vm ?st) \<and> refcount (pgs (vm st') (g (ALIGN_DOWN a PAGE_SIZE))) = 1
            \<and> vad_at vas' a = Some (?fl OR VAD_ANONYMOUS, None)
          else get_phys (pml4 ?vas) a (vm st') = get_phys (pml4 ?vas) a (vm ?st)
            \<and> get_mapping_flags (pml4 ?vas) a (vm st') = get_mapping_flags (pml4 ?vas) a (vm ?st)
            \<and> vad_at vas' a = vad_at ?vas a)"
    by blast
  have "get_mapping_flags (fst space) 0x401fff (vm st') = Some (VMM_WRITABLE OR VMM_PRESENT)"
    using c(2) [rule_format, OF u(1)] u(2) fl(3) by simp
  then show ?thesis using c(1) by blast
qed


end
