(* ===== verification/Heap.thy ===== *)
theory Heap
  imports Vmm
begin

text \<open>
  The kernel heap, \<open>kernel/src/mm/heap.c\<close>: nine caches of slabs for blocks up to 2048 bytes, one page
  per slab, and a region of kernel addresses for larger blocks.  A slab is reached through the direct
  map of physical memory (virtual address = physical address + \<open>hhdm_offset\<close>); its header and the
  links between its free objects live in the page itself, so the model keeps them as bytes of RAM.
  Large blocks are reached through the kernel's page table.  \<open>palloc_single\<close> and \<open>palloc_page\<close> panic
  when no page is left, so \<open>kmalloc\<close> returns NULL for size 0 only.
\<close>

section \<open>State\<close>

abbreviation SLAB_MIN :: u64 where "SLAB_MIN \<equiv> 8"
abbreviation SLAB_ALIGN :: u64 where "SLAB_ALIGN \<equiv> 8"
abbreviation NUM_CACHES :: nat where "NUM_CACHES \<equiv> 9"
definition LARGE_REGION_BASE :: u64 where "LARGE_REGION_BASE = 0xffffffffb0000000"
definition LARGE_MAGIC :: u32 where "LARGE_MAGIC = 0x4C524748"

record cache =
  partial :: u64
  full :: u64
  obj_size :: u64

record heap =
  hm :: kmem
  caches :: "cache list"
  next_large_base :: u64

text \<open>Access to the direct map.  A 32-bit field is a half of the aligned 64-bit word it lies in.\<close>

definition ld64 :: "heap \<Rightarrow> u64 \<Rightarrow> u64" where
  "ld64 h v = load64 (ram (hm h)) (v - hhdm_offset (hm h))"

definition st64 :: "u64 \<Rightarrow> u64 \<Rightarrow> heap \<Rightarrow> heap" where
  "st64 v w h = h\<lparr>hm := (hm h)\<lparr>ram := store64 (ram (hm h)) (v - hhdm_offset (hm h)) w\<rparr>\<rparr>"

definition low32 :: "u64 \<Rightarrow> u32" where "low32 w = ucast w"
definition high32 :: "u64 \<Rightarrow> u32" where "high32 w = ucast (drop_bit 32 w)"
definition set_low32 :: "u32 \<Rightarrow> u64 \<Rightarrow> u64" where "set_low32 x w = push_bit 32 (drop_bit 32 w) OR ucast x"
definition set_high32 :: "u32 \<Rightarrow> u64 \<Rightarrow> u64" where "set_high32 x w = push_bit 32 (ucast x) OR take_bit 32 w"

text \<open>The fields of \<open>struct slab\<close>: \<open>next\<close> at 0, \<open>free\<close> at 8, \<open>total\<close> at 16, \<open>used\<close> at 20, \<open>obj_sz\<close> at 24;
  32 bytes in all.\<close>

definition s_next :: "heap \<Rightarrow> u64 \<Rightarrow> u64" where "s_next h s = ld64 h s"
definition s_free :: "heap \<Rightarrow> u64 \<Rightarrow> u64" where "s_free h s = ld64 h (s + 8)"
definition s_total :: "heap \<Rightarrow> u64 \<Rightarrow> u32" where "s_total h s = low32 (ld64 h (s + 16))"
definition s_used :: "heap \<Rightarrow> u64 \<Rightarrow> u32" where "s_used h s = high32 (ld64 h (s + 16))"
definition s_obj_sz :: "heap \<Rightarrow> u64 \<Rightarrow> u32" where "s_obj_sz h s = low32 (ld64 h (s + 24))"

definition set_total :: "u64 \<Rightarrow> u32 \<Rightarrow> heap \<Rightarrow> heap" where
  "set_total s x h = st64 (s + 16) (set_low32 x (ld64 h (s + 16))) h"
definition set_used :: "u64 \<Rightarrow> u32 \<Rightarrow> heap \<Rightarrow> heap" where
  "set_used s x h = st64 (s + 16) (set_high32 x (ld64 h (s + 16))) h"
definition set_obj_sz :: "u64 \<Rightarrow> u32 \<Rightarrow> heap \<Rightarrow> heap" where
  "set_obj_sz s x h = st64 (s + 24) (set_low32 x (ld64 h (s + 24))) h"

text \<open>Access to any kernel address: the large region is translated by the kernel's page table, where an
  unmapped page is a fault (\<open>None\<close>).\<close>

definition heap_phys :: "u64 \<Rightarrow> heap \<Rightarrow> u64 option" where
  "heap_phys v h =
     (if v \<ge> LARGE_REGION_BASE
      then do { p \<leftarrow> get_phys (kernel_ptable (hm h)) v (hm h); require (p \<noteq> 0); Some p }
      else Some (v - hhdm_offset (hm h)))"

definition vld64 :: "u64 \<Rightarrow> heap \<Rightarrow> u64 option" where
  "vld64 v h = map_option (load64 (ram (hm h))) (heap_phys v h)"

definition vst64 :: "u64 \<Rightarrow> u64 \<Rightarrow> heap \<Rightarrow> heap option" where
  "vst64 v w h = map_option (\<lambda>p. h\<lparr>hm := (hm h)\<lparr>ram := store64 (ram (hm h)) p w\<rparr>\<rparr>) (heap_phys v h)"

definition vst8 :: "u64 \<Rightarrow> u8 \<Rightarrow> heap \<Rightarrow> heap option" where
  "vst8 v b h = map_option (\<lambda>p. h\<lparr>hm := (hm h)\<lparr>ram := (ram (hm h))(p := b)\<rparr>\<rparr>) (heap_phys v h)"

definition vld8 :: "u64 \<Rightarrow> heap \<Rightarrow> u8 option" where
  "vld8 v h = map_option (ram (hm h)) (heap_phys v h)"

definition vmemset :: "u64 \<Rightarrow> u8 \<Rightarrow> u64 \<Rightarrow> heap \<Rightarrow> heap option" where
  "vmemset v b n = foldM (\<lambda>k. vst8 (v + of_nat k) b) [0..<unat n]"

definition vmemcpy :: "u64 \<Rightarrow> u64 \<Rightarrow> u64 \<Rightarrow> heap \<Rightarrow> heap option" where
  "vmemcpy d s n = foldM (\<lambda>k h. do { b \<leftarrow> vld8 (s + of_nat k) h; vst8 (d + of_nat k) b h }) [0..<unat n]"

section \<open>Slabs\<close>

definition align_up :: "u64 \<Rightarrow> u64 \<Rightarrow> u64" where
  "align_up v a = (v + a - 1) AND NOT (a - 1)"

function cache_idx_from :: "u64 \<Rightarrow> u64 \<Rightarrow> nat \<Rightarrow> u64 \<times> nat" where
  "cache_idx_from sz s i = (if s < sz \<and> i < NUM_CACHES - 1 then cache_idx_from sz (push_bit 1 s) (i + 1) else (s, i))"
  by pat_completeness auto
termination by (relation "measure (\<lambda>(sz, s, i). NUM_CACHES - i)") auto

declare cache_idx_from.simps [simp del]

definition cache_idx :: "u64 \<Rightarrow> nat" where
  "cache_idx sz =
     (let sz = (if sz < SLAB_MIN then SLAB_MIN else sz);
          (s, i) = cache_idx_from sz SLAB_MIN 0
      in if s \<ge> sz then i else NUM_CACHES)"

definition obj_to_slab :: "u64 \<Rightarrow> u64" where
  "obj_to_slab obj = obj AND NOT (PAGE_SIZE - 1)"

partial_function (option) unlink_after :: "u64 \<Rightarrow> u64 \<Rightarrow> heap \<Rightarrow> heap option" where
  "unlink_after c s h =
     (let n = s_next h c in
      if n = 0 then Some h
      else if n = s then Some (st64 s 0 (st64 c (s_next h s) h))
      else unlink_after n s h)"

text \<open>The list head is a field of the cache, so it is passed in and returned.\<close>

definition slab_unlink :: "u64 \<Rightarrow> u64 \<Rightarrow> heap \<Rightarrow> (u64 \<times> heap) option" where
  "slab_unlink head s h =
     (if head = 0 then Some (0, h)
      else if head = s then Some (s_next h s, st64 s 0 h)
      else map_option (Pair head) (unlink_after head s h))"

definition slab_link :: "u64 \<Rightarrow> u64 \<Rightarrow> u32 \<Rightarrow> nat \<Rightarrow> heap \<Rightarrow> heap" where
  "slab_link area stride tot i h =
     st64 (area + of_nat i * stride) (if of_nat i + 1 < tot then area + (of_nat i + 1) * stride else 0) h"

definition slab_create :: "u64 \<Rightarrow> heap \<Rightarrow> (u64 \<times> heap) option" where
  "slab_create sz h = do {
     (phys, m) \<leftarrow> palloc_single (hm h);
     let page = phys + hhdm_offset (hm h);
     let h = h\<lparr>hm := m\<rparr>;
     if page = 0 then Some (0, h)
     else do {
       let stride = align_up sz SLAB_ALIGN;
       let stride = (if stride < 8 then 8 else stride);
       let h = st64 page 0 h;
       let h = set_obj_sz page (ucast stride) h;
       let h = set_used page 0 h;
       let area = align_up (page + 32) SLAB_ALIGN;
       let end = page + PAGE_SIZE;
       let tot = ucast ((end - area) div stride);
       let h = set_total page tot h;
       let h = st64 (page + 8) area h;
       Some (page, fold (slab_link area stride tot) [0..<unat tot] h) } }"

definition slab_obj_alloc :: "u64 \<Rightarrow> heap \<Rightarrow> u64 \<times> heap" where
  "slab_obj_alloc s h =
     (if s_free h s = 0 then (0, h)
      else let obj = s_free h s;
               h = st64 (s + 8) (ld64 h obj) h
        in (obj, set_used s (s_used h s + 1) h))"

definition slab_obj_free :: "u64 \<Rightarrow> u64 \<Rightarrow> heap \<Rightarrow> heap" where
  "slab_obj_free s obj h =
     (let h = st64 obj (s_free h s) h;
          h = st64 (s + 8) obj h
      in set_used s (s_used h s - 1) h)"

definition upd_cache :: "nat \<Rightarrow> (cache \<Rightarrow> cache) \<Rightarrow> heap \<Rightarrow> heap" where
  "upd_cache i f h = h\<lparr>caches := (caches h)[i := f (caches h ! i)]\<rparr>"

definition cache_alloc :: "nat \<Rightarrow> heap \<Rightarrow> (u64 \<times> heap) option" where
  "cache_alloc i h = do {
     (ok, h) \<leftarrow>
       (if partial (caches h ! i) = 0 then do {
          (s, h) \<leftarrow> slab_create (obj_size (caches h ! i)) h;
          if s = 0 then Some (False, h)
          else let h = st64 s (partial (caches h ! i)) h
            in Some (True, upd_cache i (\<lambda>c. c\<lparr>partial := s\<rparr>) h) }
        else Some (True, h));
     if \<not> ok then Some (0, h)
     else let s = partial (caches h ! i); (obj, h) = slab_obj_alloc s h
       in if s_used h s = s_total h s
          then let h = upd_cache i (\<lambda>c. c\<lparr>partial := s_next h s\<rparr>) h;
                   h = st64 s (full (caches h ! i)) h
            in Some (obj, upd_cache i (\<lambda>c. c\<lparr>full := s\<rparr>) h)
          else Some (obj, h) }"

definition cache_free :: "nat \<Rightarrow> u64 \<Rightarrow> heap \<Rightarrow> heap option" where
  "cache_free i obj h = do {
     let s = obj_to_slab obj;
     let was_full = (s_used h s = s_total h s);
     let h = slab_obj_free s obj h;
     h \<leftarrow> (if was_full then do {
             (f, h) \<leftarrow> slab_unlink (full (caches h ! i)) s h;
             let h = upd_cache i (\<lambda>c. c\<lparr>full := f\<rparr>) h;
             let h = st64 s (partial (caches h ! i)) h;
             Some (upd_cache i (\<lambda>c. c\<lparr>partial := s\<rparr>) h) }
           else Some h);
     if s_used h s = 0 then do {
       (p, h) \<leftarrow> slab_unlink (partial (caches h ! i)) s h;
       let h = upd_cache i (\<lambda>c. c\<lparr>partial := p\<rparr>) h;
       let phys = s - hhdm_offset (hm h);
       let page = pfndb_phys_to_page (hm h) phys;
       m \<leftarrow> page_unref page (hm h);
       Some (h\<lparr>hm := m\<rparr>) }
     else Some h }"

section \<open>Large blocks\<close>

primrec large_map :: "u64 \<Rightarrow> nat \<Rightarrow> nat \<Rightarrow> kmem \<Rightarrow> (bool \<times> kmem) option" where
  "large_map base i 0 m = Some (True, m)"
| "large_map base i (Suc n) m = do {
     (page, m) \<leftarrow> palloc_page m;
     if page = 0 then Some (False, m)
     else do {
       m \<leftarrow> map_page (kernel_ptable m) (base + of_nat i * PAGE_SIZE) page (VMM_PRESENT OR VMM_WRITABLE OR VMM_NX) m;
       m \<leftarrow> page_unref page m;
       large_map base (i + 1) n m } }"

definition large_npages :: "u64 \<Rightarrow> u64" where
  "large_npages sz = (let tot = sz + PAGE_SIZE in (tot + PAGE_SIZE - 1) div PAGE_SIZE)"

definition large_alloc :: "u64 \<Rightarrow> heap \<Rightarrow> (u64 \<times> heap) option" where
  "large_alloc sz h = do {
     let npages = large_npages sz;
     let base = next_large_base h;
     let h = h\<lparr>next_large_base := next_large_base h + npages * PAGE_SIZE\<rparr>;
     (ok, m) \<leftarrow> large_map base 0 (unat npages) (hm h);
     let h = h\<lparr>hm := m\<rparr>;
     if \<not> ok then Some (0, h)
     else do {
       w \<leftarrow> vld64 base h;
       h \<leftarrow> vst64 base (set_low32 LARGE_MAGIC w) h;
       h \<leftarrow> vst64 (base + 8) npages h;
       Some (base + PAGE_SIZE, h) } }"

definition large_free :: "u64 \<Rightarrow> heap \<Rightarrow> heap option" where
  "large_free ptr h = do {
     let base = ptr - PAGE_SIZE;
     w \<leftarrow> vld64 base h;
     if low32 w \<noteq> LARGE_MAGIC then Some h
     else do {
       npages \<leftarrow> vld64 (base + 8) h;
       h \<leftarrow> vst64 base (set_low32 0 w) h;
       m \<leftarrow> foldM (\<lambda>i m. unmap_page (kernel_ptable m) (base + of_nat i * PAGE_SIZE) m) [0..<unat npages] (hm h);
       Some (h\<lparr>hm := m\<rparr>) } }"

section \<open>The interface\<close>

definition kheap_init :: "heap \<Rightarrow> heap" where
  "kheap_init h = h\<lparr>caches := map (\<lambda>i. \<lparr>partial = 0, full = 0, obj_size = push_bit i SLAB_MIN\<rparr>) [0..<NUM_CACHES]\<rparr>"

definition kmalloc :: "u64 \<Rightarrow> heap \<Rightarrow> (u64 \<times> heap) option" where
  "kmalloc sz h =
     (if sz = 0 then Some (0, h)
      else let i = cache_idx sz in if i < NUM_CACHES then cache_alloc i h else large_alloc sz h)"

definition kzalloc :: "u64 \<Rightarrow> heap \<Rightarrow> (u64 \<times> heap) option" where
  "kzalloc sz h = do {
     (p, h) \<leftarrow> kmalloc sz h;
     if p = 0 then Some (0, h) else map_option (Pair p) (vmemset p 0 sz h) }"

definition kfree :: "u64 \<Rightarrow> heap \<Rightarrow> heap option" where
  "kfree ptr h =
     (if ptr = 0 then Some h
      else do {
        w \<leftarrow> vld64 (ptr - PAGE_SIZE) h;
        if low32 w = LARGE_MAGIC then large_free ptr h
        else let s = obj_to_slab ptr; i = cache_idx (ucast (s_obj_sz h s))
          in if i < NUM_CACHES then cache_free i ptr h else Some h })"

text \<open>The usable size of the block at \<open>ptr\<close>, as \<open>krealloc\<close> reads it from the headers.\<close>

definition block_size :: "u64 \<Rightarrow> heap \<Rightarrow> u64 option" where
  "block_size ptr h = do {
     w \<leftarrow> vld64 (ptr - PAGE_SIZE) h;
     if low32 w = LARGE_MAGIC
     then map_option (\<lambda>npages. (npages - 1) * PAGE_SIZE) (vld64 (ptr - PAGE_SIZE + 8) h)
     else Some (ucast (s_obj_sz h (obj_to_slab ptr))) }"

definition krealloc :: "u64 \<Rightarrow> u64 \<Rightarrow> heap \<Rightarrow> (u64 \<times> heap) option" where
  "krealloc ptr sz h =
     (if ptr = 0 then kmalloc sz h
      else if sz = 0 then map_option (Pair 0) (kfree ptr h)
      else do {
        old \<leftarrow> block_size ptr h;
        if cache_idx sz = cache_idx old then Some (ptr, h)
        else do {
          (n, h) \<leftarrow> kmalloc sz h;
          if n = 0 then Some (0, h)
          else do {
            h \<leftarrow> vmemcpy n ptr (if old < sz then old else sz) h;
            h \<leftarrow> kfree ptr h;
            Some (n, h) } } })"

section \<open>Size classes\<close>

lemma cache_idx_from_step:
  "i < 8 \<Longrightarrow> cache_idx_from sz s i = (if s < sz then cache_idx_from sz (push_bit 1 s) (Suc i) else (s, i))"
  "8 \<le> i \<Longrightarrow> cache_idx_from sz s i = (s, i)"
  by (subst cache_idx_from.simps, simp)+

lemma cache_idx_cases:
  "cache_idx sz = (if sz \<le> 8 then 0 else if sz \<le> 16 then 1 else if sz \<le> 32 then 2 else if sz \<le> 64 then 3
     else if sz \<le> 128 then 4 else if sz \<le> 256 then 5 else if sz \<le> 512 then 6 else if sz \<le> 1024 then 7
     else if sz \<le> 2048 then 8 else 9)"
proof (cases "sz < 8")
  case True
  then show ?thesis by (simp add: cache_idx_def cache_idx_from_step)
next
  case False
  then show ?thesis
    unfolding not_less [symmetric] by (simp add: cache_idx_def cache_idx_from_step flip: not_less)
qed

section \<open>Words of a page\<close>

text \<open>The direct map in terms of the 512 words of a frame.\<close>

definition ent :: "heap \<Rightarrow> u64 \<Rightarrow> nat \<Rightarrow> u64" where
  "ent h b i = get_ent (hm h) b (of_nat i)"

definition dmap :: "heap \<Rightarrow> u64 \<Rightarrow> u64" where
  "dmap h b = b + hhdm_offset (hm h)"

definition put_word :: "u64 \<Rightarrow> nat \<Rightarrow> u64 \<Rightarrow> heap \<Rightarrow> heap" where
  "put_word b i w h = h\<lparr>hm := put_ent b (of_nat i) w (hm h)\<rparr>"

lemma ld64_word: "ld64 h (dmap h b + 8 * of_nat i) = ent h b i"
  by (simp add: ld64_def dmap_def ent_def get_ent_def slot_def algebra_simps)

lemma st64_word: "st64 (dmap h b + 8 * of_nat i) w h = put_word b i w h"
  by (simp add: st64_def put_word_def dmap_def put_ent_def slot_def algebra_simps)

lemma put_word_fields [simp]:
  "caches (put_word b i w h) = caches h" "dmap (put_word b i w h) = dmap h" "geom (hm (put_word b i w h)) = geom (hm h)"
  "pgs (hm (put_word b i w h)) = pgs (hm h)" "next_large_base (put_word b i w h) = next_large_base h"
  "mem_ok (hm (put_word b i w h)) = mem_ok (hm h)" "free_set (hm (put_word b i w h)) = free_set (hm h)"
proof -
  show "mem_ok (hm (put_word b i w h)) = mem_ok (hm h)" by (simp add: put_word_def put_ent_def mem_ok_def page_at_def)
qed (simp_all add: put_word_def dmap_def fun_eq_iff, simp_all add: put_ent_def)

lemma ent_put_word:
  assumes "frame b" "frame b'" "i < 512" "j < 512"
  shows "ent (put_word b i w h) b' j = (if b' = b \<and> j = i then w else ent h b' j)"
proof -
  have "(of_nat i :: u64) = of_nat j \<longleftrightarrow> i = j" using assms(3,4) by (simp add: word_unat_eq_iff)
  then show ?thesis using get_put_ent [OF assms(1,2), of "of_nat i" "of_nat j" w "hm h"] assms(3,4)
    by (auto simp: ent_def put_word_def word_less_nat_alt)
qed

text \<open>The header of a slab.\<close>

lemma slab_fields:
  "s_next h (dmap h b) = ent h b 0" "s_free h (dmap h b) = ent h b 1" "s_total h (dmap h b) = low32 (ent h b 2)"
  "s_used h (dmap h b) = high32 (ent h b 2)" "s_obj_sz h (dmap h b) = low32 (ent h b 3)"
  using ld64_word [of h b 0] ld64_word [of h b 1] ld64_word [of h b 2] ld64_word [of h b 3]
  by (simp_all add: s_next_def s_free_def s_total_def s_used_def s_obj_sz_def)

lemma slab_sets:
  "st64 (dmap h b) w h = put_word b 0 w h" "st64 (dmap h b + 8) w h = put_word b 1 w h"
  "set_total (dmap h b) x h = put_word b 2 (set_low32 x (ent h b 2)) h"
  "set_used (dmap h b) x h = put_word b 2 (set_high32 x (ent h b 2)) h"
  "set_obj_sz (dmap h b) x h = put_word b 3 (set_low32 x (ent h b 3)) h"
  using st64_word [of h b 0] st64_word [of h b 1] st64_word [of h b 2] st64_word [of h b 3] ld64_word [of h b 2] ld64_word [of h b 3]
  by (simp_all add: set_total_def set_used_def set_obj_sz_def)

lemma halves [simp]:
  "low32 (set_low32 x w) = x" "high32 (set_low32 x w) = high32 w" "high32 (set_high32 x w) = x" "low32 (set_high32 x w) = low32 w"
  by (intro bit_eqI; simp add: low32_def high32_def set_low32_def set_high32_def bit_simps; auto dest: bit_imp_le_length)+

section \<open>Slabs\<close>

text \<open>A slab of objects of \<open>8 * y\<close> bytes in frame \<open>b\<close>: object \<open>k\<close> starts at word \<open>4 + k * y\<close>; \<open>fs\<close> are the
  free objects in the order of the free list.\<close>

definition capacity :: "nat \<Rightarrow> nat" where
  "capacity y = 508 div y"

definition obj_word :: "nat \<Rightarrow> nat \<Rightarrow> nat" where
  "obj_word y k = 4 + k * y"

definition obj_addr :: "heap \<Rightarrow> u64 \<Rightarrow> nat \<Rightarrow> nat \<Rightarrow> u64" where
  "obj_addr h b y k = dmap h b + 8 * of_nat (obj_word y k)"

fun free_chain :: "heap \<Rightarrow> u64 \<Rightarrow> nat \<Rightarrow> u64 \<Rightarrow> nat list \<Rightarrow> bool" where
  "free_chain h b y p [] \<longleftrightarrow> p = 0"
| "free_chain h b y p (k # ks) \<longleftrightarrow> p = obj_addr h b y k \<and> free_chain h b y (ent h b (obj_word y k)) ks"

definition slab_ok :: "heap \<Rightarrow> nat \<Rightarrow> u64 \<times> nat list \<Rightarrow> bool" where
  "slab_ok h y = (\<lambda>(b, fs). frame b \<and> distinct fs \<and> set fs \<subseteq> {..<capacity y} \<and> free_chain h b y (ent h b 1) fs
     \<and> low32 (ent h b 2) = of_nat (capacity y) \<and> high32 (ent h b 2) = of_nat (capacity y - length fs)
     \<and> low32 (ent h b 3) = of_nat (8 * y))"

definition class_words :: "nat \<Rightarrow> bool" where
  "class_words y \<longleftrightarrow> y \<in> {1, 2, 4, 8, 16, 32, 64, 128, 256}"

lemma obj_addr_put [simp]: "obj_addr (put_word b i w h) = obj_addr h"
  by (simp add: obj_addr_def fun_eq_iff)

lemma obj_word_bound: "k < capacity y \<Longrightarrow> obj_word y k + y \<le> 512"
proof -
  assume k: "k < capacity y"
  then have "Suc k * y \<le> capacity y * y" by (intro mult_le_mono1) simp
  also have "\<dots> \<le> 508" by (simp add: capacity_def)
  finally show ?thesis by (simp add: obj_word_def)
qed

lemma obj_word_inj: "0 < y \<Longrightarrow> obj_word y k = obj_word y k' \<longleftrightarrow> k = k'"
  by (auto simp: obj_word_def)

lemma capacity_bounds: "class_words y \<Longrightarrow> 0 < y \<and> 0 < capacity y \<and> capacity y \<le> 508"
  by (auto simp: class_words_def capacity_def)

lemma free_chain_cong:
  assumes "\<And>k. k \<in> set fs \<Longrightarrow> ent h' b (obj_word y k) = ent h b (obj_word y k)" and "dmap h' b = dmap h b"
  shows "free_chain h' b y p fs = free_chain h b y p fs"
  using assms by (induction fs arbitrary: p) (auto simp: obj_addr_def)

lemma slab_ok_cong:
  assumes "\<And>j. j < 512 \<Longrightarrow> j \<noteq> 0 \<Longrightarrow> ent h' b j = ent h b j" and "dmap h' b = dmap h b" and "0 < y"
  shows "slab_ok h' y (b, fs) = slab_ok h y (b, fs)"
proof (cases "set fs \<subseteq> {..<capacity y}")
  case True
  have "ent h' b (obj_word y k) = ent h b (obj_word y k)" if "k \<in> set fs" for k
  proof -
    have "obj_word y k < 512" "obj_word y k \<noteq> 0" using obj_word_bound [of k y] that True assms(3) by (auto simp: obj_word_def)
    then show ?thesis by (rule assms(1))
  qed
  then have "free_chain h' b y p fs = free_chain h b y p fs" for p using free_chain_cong assms(2) by blast
  then show ?thesis using assms(1) by (simp add: slab_ok_def)
next
  case False
  then show ?thesis by (simp add: slab_ok_def)
qed

lemma dmap_offset_inj:
  assumes "frame b" "i < 512" "j < 512"
  shows "dmap h b + 8 * of_nat i = dmap h b + 8 * of_nat j \<longleftrightarrow> i = j"
proof
  assume "dmap h b + 8 * of_nat i = dmap h b + 8 * of_nat j"
  then have "(of_nat (8 * i) :: u64) = of_nat (8 * j)" by simp
  then have "unat (of_nat (8 * i) :: u64) = unat (of_nat (8 * j) :: u64)" by (rule arg_cong)
  moreover have "8 * i < 18446744073709551616" "8 * j < 18446744073709551616" using assms by simp_all
  ultimately have "8 * i = 8 * j" by (simp only: unat_of_nat64)
  then show "i = j" by simp
qed simp

text \<open>Taking the first free object, and giving one back.\<close>

lemma slab_obj_alloc_ok:
  assumes "slab_ok h y (b, k # ks)" and "class_words y" and "dmap h b \<noteq> 0 \<and> obj_addr h b y k \<noteq> 0"
  shows "slab_obj_alloc (dmap h b) h = (obj_addr h b y k,
      put_word b 2 (set_high32 (of_nat (capacity y - length ks)) (ent h b 2)) (put_word b 1 (ent h b (obj_word y k)) h))"
    and "slab_ok (snd (slab_obj_alloc (dmap h b) h)) y (b, ks)"
proof -
  have s: "frame b" "distinct (k # ks)" "set (k # ks) \<subseteq> {..<capacity y}" "ent h b 1 = obj_addr h b y k"
      "free_chain h b y (ent h b (obj_word y k)) ks" "high32 (ent h b 2) = of_nat (capacity y - Suc (length ks))"
    using assms(1) by (auto simp: slab_ok_def)
  let ?h = "put_word b 1 (ent h b (obj_word y k)) h"
  have e2: "ent ?h b 2 = ent h b 2" using ent_put_word [OF s(1) s(1), of 1 2] by simp
  have "card (set (k # ks)) \<le> card {..<capacity y}" by (rule card_mono) (use s(3) in auto)
  then have "length (k # ks) \<le> capacity y" using distinct_card [OF s(2)] by simp
  then have "(of_nat (capacity y - Suc (length ks)) :: u32) + 1 = of_nat (capacity y - length ks)"
    by (metis Suc_diff_Suc Suc_le_eq length_Cons of_nat_Suc add.commute)
  moreover have "s_used ?h (dmap h b) = high32 (ent h b 2)" using slab_fields(4) [of ?h b] e2 by simp
  ultimately show eq: "slab_obj_alloc (dmap h b) h = (obj_addr h b y k,
      put_word b 2 (set_high32 (of_nat (capacity y - length ks)) (ent h b 2)) ?h)"
    using s(4,6) assms(3) slab_sets(4) [of ?h b] e2 ld64_word [of h b "obj_word y k"]
    by (simp add: slab_obj_alloc_def slab_fields slab_sets obj_addr_def Let_def)
  have w: "1 < obj_word y i" "2 < obj_word y i" "obj_word y i < 512" if "i \<in> set ks" for i
    using obj_word_bound [of i y] that s(3) capacity_bounds [OF assms(2)] by (auto simp: obj_word_def)
  note ep = ent_put_word [OF s(1) s(1)]
  have "free_chain (put_word b 2 v ?h) b y p ks = free_chain h b y p ks" for v p
    by (rule free_chain_cong) (use w in \<open>fastforce simp: ep\<close>)+
  then show "slab_ok (snd (slab_obj_alloc (dmap h b) h)) y (b, ks)"
    unfolding eq using assms(1) s(5) by (auto simp: slab_ok_def ep)
qed


text \<open>A new slab: every object is free, in ascending order.\<close>

lemma link_chain:
  assumes "frame b" and "0 < y" and "n \<le> capacity y"
    and "\<And>i. i < n \<Longrightarrow> ent h b (obj_word y i) = (if Suc i < n then obj_addr h b y (Suc i) else 0)" and "j \<le> n"
  shows "free_chain h b y (if j < n then obj_addr h b y j else 0) [j..<n]"
  using assms(5)
proof (induction "n - j" arbitrary: j)
  case (Suc m)
  then have "[j..<n] = j # [Suc j..<n]" "j < n" by (auto simp: upt_conv_Cons)
  moreover have "free_chain h b y (if Suc j < n then obj_addr h b y (Suc j) else 0) [Suc j..<n]" using Suc by (intro Suc.hyps) auto
  ultimately show ?case using assms(4) [of j] by simp
qed simp

lemma fold_links:
  assumes "frame b" and "0 < y" and "n \<le> capacity y"
  shows "fold (\<lambda>i h. put_word b (obj_word y i) (f i) h) [0..<n] h = h'
    \<Longrightarrow> caches h' = caches h \<and> dmap h' = dmap h \<and> geom (hm h') = geom (hm h) \<and> pgs (hm h') = pgs (hm h)
      \<and> next_large_base h' = next_large_base h \<and> mem_ok (hm h') = mem_ok (hm h) \<and> free_set (hm h') = free_set (hm h)
      \<and> (\<forall>b' j. frame b' \<longrightarrow> j < 512 \<longrightarrow> ent h' b' j
          = (if b' = b \<and> (\<exists>i < n. j = obj_word y i) then f (THE i. j = obj_word y i) else ent h b' j))"
  using assms(3)
proof (induction n arbitrary: h')
  case (Suc n)
  define g where "g = fold (\<lambda>i h. put_word b (obj_word y i) (f i) h) [0..<n] h"
  have h': "h' = put_word b (obj_word y n) (f n) g" using Suc.prems(1) by (simp add: g_def)
  note IH = Suc.IH [OF g_def [symmetric]]
  have w: "obj_word y n < 512" using obj_word_bound [of n y] Suc.prems(2) assms(2) by simp
  have the: "(THE i. obj_word y k = obj_word y i) = k" for k using obj_word_inj [OF assms(2)] by (intro the_equality) auto
  have "ent h' b' j = (if b' = b \<and> (\<exists>i < Suc n. j = obj_word y i) then f (THE i. j = obj_word y i) else ent h b' j)"
    if bj: "frame b'" "j < 512" for b' j
  proof (cases "b' = b \<and> j = obj_word y n")
    case True
    then show ?thesis using ent_put_word [OF assms(1) bj(1) w bj(2)] by (auto simp: h' the)
  next
    case False
    then have "(b' = b \<and> (\<exists>i < Suc n. j = obj_word y i)) \<longleftrightarrow> (b' = b \<and> (\<exists>i < n. j = obj_word y i))" by (auto simp: less_Suc_eq)
    then show ?thesis using ent_put_word [OF assms(1) bj(1) w bj(2)] False IH bj Suc.prems(2) by (simp add: h')
  qed
  then show ?case using IH Suc.prems(2) by (simp add: h')
qed simp

section \<open>Addresses of slabs\<close>

text \<open>The direct map is page aligned, does not start at address 0 and ends below the large region.\<close>

definition hhdm_ok :: "kmem \<Rightarrow> bool" where
  "hhdm_ok m \<longleftrightarrow> paged (hhdm_offset m) \<and> hhdm_offset m \<noteq> 0
     \<and> unat (hhdm_offset m) + Suc (unat (max_pfn m)) * 4096 \<le> unat LARGE_REGION_BASE"

lemma hhdm_ok_geom: "geom m' = geom m \<Longrightarrow> hhdm_ok m' = hhdm_ok m"
  by (simp add: hhdm_ok_def geom_def)

lemma dmap_page:
  assumes "mem_ok (hm h)" and "hhdm_ok (hm h)" and "q \<in> page_ptrs (hm h)" and "b = pfndb_page_to_phys (hm h) q"
  shows "unat (dmap h b) = unat b + unat (hhdm_offset (hm h))" "paged (dmap h b)"
    "unat (dmap h b) + 4096 \<le> unat LARGE_REGION_BASE" "dmap h b \<noteq> 0"
proof -
  obtain k where k: "q = page_at (hm h) k" "k \<le> unat (max_pfn (hm h))" using assms(3) by (auto simp: page_ptrs_def)
  have b: "b = of_nat k * PAGE_SIZE" using page_to_phys_at [OF mem_ok_db [OF assms(1)] k(2)] k(1) assms(4) by simp
  have "k < 2 ^ 40" using k(2) assms(1) by (simp add: mem_ok_def)
  then have ub: "unat b = k * 4096" by (simp add: b unat_word_ariths)
  have L: "unat LARGE_REGION_BASE < 18446744073709551616" by simp
  have le: "unat b + 4096 + unat (hhdm_offset (hm h)) \<le> unat LARGE_REGION_BASE"
    using assms(2) k(2) ub by (simp add: hhdm_ok_def)
  then show u: "unat (dmap h b) = unat b + unat (hhdm_offset (hm h))"
    unfolding dmap_def by (intro unat_add_small) (use L in linarith)
  then show "unat (dmap h b) + 4096 \<le> unat LARGE_REGION_BASE" using le by simp
  show "paged (dmap h b)" using paged_add [of b "hhdm_offset (hm h)"] assms(2) ub by (simp add: dmap_def hhdm_ok_def paged_def)
  have "0 < unat (hhdm_offset (hm h))" using assms(2) by (simp add: hhdm_ok_def unat_gt_0)
  then have "0 < unat (dmap h b)" using u by simp
  then show "dmap h b \<noteq> 0" by (simp add: unat_gt_0)
qed

lemma word_addr:
  assumes "unat (dmap h b) + 4096 \<le> unat LARGE_REGION_BASE" and "w < 512"
  shows "unat (dmap h b + 8 * of_nat w) = unat (dmap h b) + 8 * w"
proof -
  have "unat (8 * of_nat w :: u64) = 8 * w" using assms(2) by (simp add: unat_word_ariths)
  moreover have "unat (dmap h b) + 8 * w < 18446744073709551616" using assms unat_bound64 [of LARGE_REGION_BASE] by linarith
  ultimately show ?thesis by (simp add: unat_add_small)
qed

lemma obj_addr_unat:
  assumes "unat (dmap h b) + 4096 \<le> unat LARGE_REGION_BASE" and "k < capacity y" "0 < y"
  shows "unat (obj_addr h b y k) = unat (dmap h b) + 8 * obj_word y k" "obj_word y k + y \<le> 512"
  using word_addr [OF assms(1), of "obj_word y k"] obj_word_bound [OF assms(2)] assms(3) by (simp_all add: obj_addr_def)

lemma and_not_low: "x AND - 8 = x div 8 * (8 :: u64)" "x AND - 4096 = ALIGN_DOWN x PAGE_SIZE"
proof -
  have "x AND NOT (mask n) = push_bit n (drop_bit n x)" for n by (intro bit_eqI) (auto simp: bit_simps)
  from this [of 3] this [of 12] show "x AND - 8 = x div 8 * (8 :: u64)" "x AND - 4096 = ALIGN_DOWN x PAGE_SIZE"
    by (simp_all add: mask_numeral push_bit_eq_mult drop_bit_eq_div ALIGN_DOWN_def)
qed

lemma align_up_8: "unat x mod 8 = 0 \<Longrightarrow> unat x + 8 < 18446744073709551616 \<Longrightarrow> align_up x SLAB_ALIGN = x"
proof -
  assume x: "unat x mod 8 = 0" "unat x + 8 < 18446744073709551616"
  then obtain t where t: "unat x = 8 * t" by auto
  have "unat (x + 7) = 8 * t + 7" using x(2) t by (simp add: unat_word_ariths)
  then have "unat ((x + 7) div 8 * 8) = unat x" using t x(2) by (simp add: unat_word_ariths unat_div)
  then show ?thesis by (simp add: align_up_def and_not_low word_unat_eq_iff add.commute)
qed


lemma slab_links:
  assumes "dmap h b = d" and "n \<le> 508" and "set is \<subseteq> {..<n}"
  shows "fold (slab_link (d + 32) (of_nat (8 * y)) (of_nat n)) is h
    = fold (\<lambda>i h. put_word b (obj_word y i) (if Suc i < n then d + 8 * of_nat (obj_word y (Suc i)) else 0) h) is h"
  using assms(1,3)
proof (induction "is" arbitrary: h)
  case (Cons i js)
  have A: "(of_nat i + 1 < (of_nat n :: u32)) \<longleftrightarrow> Suc i < n"
  proof -
    have "(of_nat i + 1 :: u32) = of_nat (Suc i)" by simp
    moreover have "unat (of_nat (Suc i) :: u32) = Suc i" "unat (of_nat n :: u32) = n"
      using Cons.prems(2) assms(2) by (simp_all add: unat_of_nat del: of_nat_Suc)
    ultimately show ?thesis unfolding word_less_nat_alt by metis
  qed
  have B: "d + 32 + of_nat j * of_nat (8 * y) = dmap h b + 8 * of_nat (obj_word y j)" for j
    using Cons.prems(1) by (simp add: obj_word_def algebra_simps)
  have C: "(of_nat i + 1 :: u64) = of_nat (Suc i)" by simp
  have "slab_link (d + 32) (of_nat (8 * y)) (of_nat n) i h
      = put_word b (obj_word y i) (if Suc i < n then d + 8 * of_nat (obj_word y (Suc i)) else 0) h"
    unfolding slab_link_def A C B Cons.prems(1) by (rule st64_word [of h b, unfolded Cons.prems(1)])
  then show ?case using Cons.IH [of "put_word b (obj_word y i) (if Suc i < n then d + 8 * of_nat (obj_word y (Suc i)) else 0) h"] Cons.prems
    by simp
qed simp

lemma class_facts:
  assumes "class_words y"
  shows "align_up (of_nat (8 * y)) SLAB_ALIGN = of_nat (8 * y)" "\<not> (of_nat (8 * y) :: u64) < 8"
    "(4064 :: u64) div of_nat (8 * y) = of_nat (capacity y)" "(ucast (of_nat (8 * y) :: u64) :: u32) = of_nat (8 * y)"
    "(ucast (of_nat (capacity y) :: u64) :: u32) = of_nat (capacity y)" "unat (of_nat (capacity y) :: u32) = capacity y"
proof -
  have y: "y \<in> {1, 2, 4, 8, 16, 32, 64, 128, 256}" using assms by (simp add: class_words_def)
  show "align_up (of_nat (8 * y)) SLAB_ALIGN = of_nat (8 * y)" by (rule align_up_8) (use y in auto)
  show "\<not> (of_nat (8 * y) :: u64) < 8" "(4064 :: u64) div of_nat (8 * y) = of_nat (capacity y)"
    "(ucast (of_nat (8 * y) :: u64) :: u32) = of_nat (8 * y)" "(ucast (of_nat (capacity y) :: u64) :: u32) = of_nat (capacity y)"
    "unat (of_nat (capacity y) :: u32) = capacity y"
    using y by (auto simp: capacity_def)
qed

text \<open>Heaps that differ in the words of frame \<open>b\<close> only.\<close>

definition only_frame :: "u64 \<Rightarrow> heap \<Rightarrow> heap \<Rightarrow> bool" where
  "only_frame b h h' \<longleftrightarrow> caches h' = caches h \<and> dmap h' = dmap h \<and> geom (hm h') = geom (hm h) \<and> pgs (hm h') = pgs (hm h)
     \<and> next_large_base h' = next_large_base h \<and> mem_ok (hm h') = mem_ok (hm h) \<and> free_set (hm h') = free_set (hm h)
     \<and> (\<forall>b' j. frame b' \<and> b' \<noteq> b \<and> j < 512 \<longrightarrow> ent h' b' j = ent h b' j)"

lemma only_frame_refl: "only_frame b h h"
  by (simp add: only_frame_def)

lemma only_frame_trans: "only_frame b h h' \<Longrightarrow> only_frame b h' h'' \<Longrightarrow> only_frame b h h''"
  by (auto simp: only_frame_def)

lemma only_frame_put: "frame b \<Longrightarrow> i < 512 \<Longrightarrow> only_frame b h (put_word b i w h)"
  by (auto simp: only_frame_def ent_put_word)

lemma slab_fill_ok:
  assumes "frame b" and "class_words y" and "d = dmap h b"
  defines "h1 \<equiv> set_obj_sz d (of_nat (8 * y)) (st64 d 0 h)"
  defines "h2 \<equiv> set_total d (of_nat (capacity y)) (set_used d 0 h1)"
  defines "h3 \<equiv> st64 (d + 8) (d + 32) h2"
  defines "h' \<equiv> fold (slab_link (d + 32) (of_nat (8 * y)) (of_nat (capacity y))) [0..<capacity y] h3"
  shows "slab_ok h' y (b, [0..<capacity y])" and "ent h' b 0 = 0" and "only_frame b h h'"
proof -
  note cap = capacity_bounds [OF assms(2)]
  note ep = ent_put_word [OF assms(1) assms(1)]
  have h1: "h1 = put_word b 3 (set_low32 (of_nat (8 * y)) (ent h b 3)) (put_word b 0 0 h)"
    using slab_sets(5) [of "put_word b 0 0 h" b] by (simp add: h1_def slab_sets(1) assms(3) ep)
  have h2: "h2 = put_word b 2 (set_low32 (of_nat (capacity y)) (set_high32 0 (ent h b 2))) (put_word b 2 (set_high32 0 (ent h b 2)) h1)"
    using slab_sets(4) [of h1 b] slab_sets(3) [of "put_word b 2 (set_high32 0 (ent h b 2)) h1" b] by (simp add: h2_def h1 assms(3) ep)
  have h3: "h3 = put_word b 1 (d + 32) h2" using slab_sets(2) [of h2 b] by (simp add: h3_def h2 h1 assms(3))
  have d3: "dmap h3 = dmap h" by (simp add: h3 h2 h1)
  let ?f = "\<lambda>i. if Suc i < capacity y then d + 8 * of_nat (obj_word y (Suc i)) else 0 :: u64"
  have "h' = fold (\<lambda>i h. put_word b (obj_word y i) (?f i) h) [0..<capacity y] h3"
    unfolding h'_def by (rule slab_links) (use cap assms(3) d3 in auto)
  note fl = fold_links [OF assms(1) _ le_refl this [symmetric]]
  have of3: "only_frame b h h3"
    unfolding h3 h2 h1 by (intro only_frame_trans [OF _ only_frame_put] only_frame_refl) (use assms(1) in auto)
  have e: "ent h' b j = (if \<exists>i < capacity y. j = obj_word y i then ?f (THE i. j = obj_word y i) else ent h3 b j)" if "j < 512" for j
    using fl cap assms(1) that by auto
  have low: "ent h' b j = ent h3 b j" if "j < 4" for j using e [of j] that by (auto simp: obj_word_def)
  show "only_frame b h h'" using of3 fl cap by (auto simp: only_frame_def)
  have dd: "dmap h' = dmap h" using fl cap d3 by simp
  show "ent h' b 0 = 0" using low [of 0] by (simp add: h3 h2 h1 ep)
  have ch: "ent h' b (obj_word y i) = (if Suc i < capacity y then obj_addr h' b y (Suc i) else 0)" if "i < capacity y" for i
  proof -
    have "(THE j. obj_word y i = obj_word y j) = i" using obj_word_inj cap by (intro the_equality) auto
    then show ?thesis using e [of "obj_word y i"] obj_word_bound [OF that] that cap dd assms(3) by (auto simp: obj_addr_def)
  qed
  have "d + 32 = obj_addr h' b y 0" using dd assms(3) by (simp add: obj_addr_def obj_word_def)
  moreover have "free_chain h' b y (if 0 < capacity y then obj_addr h' b y 0 else 0) [0..<capacity y]"
    by (rule link_chain [OF assms(1) _ le_refl ch]) (use cap in auto)
  ultimately show "slab_ok h' y (b, [0..<capacity y])"
    using low [of 1] low [of 2] low [of 3] cap assms(1) by (auto simp: slab_ok_def h3 h2 h1 ep atLeast0LessThan)
qed

lemma slab_create_ok:
  assumes mem: "mem_ok (hm h)" and hh: "hhdm_ok (hm h)" and free: "free_set (hm h) \<noteq> {}" and y: "class_words y"
  shows "\<exists>q b h'. slab_create (of_nat (8 * y)) h = Some (dmap h b, h') \<and> q \<in> free_set (hm h)
    \<and> b = pfndb_page_to_phys (hm h) q \<and> slab_ok h' y (b, [0..<capacity y]) \<and> ent h' b 0 = 0
    \<and> mem_ok (hm h') \<and> geom (hm h') = geom (hm h) \<and> caches h' = caches h \<and> dmap h' = dmap h \<and> table_page (hm h') b
    \<and> free_set (hm h') = free_set (hm h) - {q} \<and> (\<forall>x \<in> page_ptrs (hm h) - free_set (hm h). pgs (hm h') x = pgs (hm h) x)
    \<and> (\<forall>b' j. frame b' \<and> b' \<noteq> b \<and> j < 512 \<longrightarrow> ent h' b' j = ent h b' j)"
proof -
  have inv: "pmm_inv (hm h)" using mem by (simp add: mem_ok_def)
  obtain q m where q: "palloc_page (hm h) = Some (q, m)" using palloc_page_some [OF inv free] by blast
  note px = palloc_page_inv [OF inv q]
  have geo: "geom m = geom (hm h)" using px by (simp add: only_page_def)
  have qs: "q \<in> page_ptrs (hm h)" using px free_set_sub by blast
  define b where "b = pfndb_page_to_phys (hm h) q"
  have fr: "frame b" using page_phys(1) [OF mem qs] by (simp add: b_def)
  have ps: "palloc_single (hm h) = Some (b, m)" using q geom_eqD(4) [OF geo] by (simp add: palloc_single_page b_def)
  define h0 where "h0 = h\<lparr>hm := m\<rparr>"
  have h0: "ent h0 = ent h" "dmap h0 = dmap h" "caches h0 = caches h" "hm h0 = m"
  proof -
    have "ram m = ram (hm h)" "hhdm_offset m = hhdm_offset (hm h)" using px geo by (simp_all add: geom_def)
    then show "ent h0 = ent h" "dmap h0 = dmap h" by (intro ext; simp add: h0_def ent_def get_ent_def dmap_def)+
  qed (simp_all add: h0_def)
  note dp = dmap_page [OF mem hh qs b_def]
  have "q \<noteq> page_at (hm h) 0" using px mem_ok_page0 [OF mem] by auto
  then have mem0: "mem_ok m" using px geo by (intro mem_ok_step [OF mem]) (auto simp: only_page_def)
  have ofs: "b + hhdm_offset (hm h) = dmap h0 b" using h0(2) by (simp add: dmap_def fun_eq_iff)
  have area: "align_up (dmap h0 b + 32) SLAB_ALIGN = dmap h0 b + 32"
  proof (rule align_up_8)
    have u: "unat (dmap h b + 32) = unat (dmap h b) + 32"
      using word_addr [of h b 4] dp(3) by simp
    then show "unat (dmap h0 b + 32) + 8 < 18446744073709551616"
      unfolding h0(2) using dp(3) unat_bound64 [of LARGE_REGION_BASE] by linarith
    obtain t where "unat (dmap h b) = 4096 * t" using paged_obtain [OF dp(2)] by blast
    then have "unat (dmap h b) + 32 = 8 * (512 * t + 4)" by simp
    then show "unat (dmap h0 b + 32) mod 8 = 0" unfolding h0(2) u by simp
  qed
  note cf = class_facts [OF y]
  note sf = slab_fill_ok [OF fr y refl, of h0]
  let ?h' = "fold (slab_link (dmap h0 b + 32) (of_nat (8 * y)) (of_nat (capacity y))) [0..<capacity y]
      (st64 (dmap h0 b + 8) (dmap h0 b + 32) (set_total (dmap h0 b) (of_nat (capacity y)) (set_used (dmap h0 b) 0
        (set_obj_sz (dmap h0 b) (of_nat (8 * y)) (st64 (dmap h0 b) 0 h0)))))"
  have create: "slab_create (of_nat (8 * y)) h = Some (dmap h b, ?h')"
    unfolding slab_create_def ps
    using dp(4) h0(2) by (simp add: Let_def ofs area [unfolded h0(2)] cf h0_def [symmetric] del: of_nat_mult)
  define g where "g = ?h'"
  note sg = sf [folded g_def]
  have o: "pgs (hm g) = pgs m" "free_set (hm g) = free_set m" "mem_ok (hm g)" "geom (hm g) = geom (hm h)"
      "caches g = caches h" "dmap g = dmap h" "\<forall>b' j. frame b' \<and> b' \<noteq> b \<and> j < 512 \<longrightarrow> ent g b' j = ent h b' j"
    using sg(3) mem0 geo by (simp_all add: only_frame_def h0)
  have "used_page (pgs m q) \<and> refcount (pgs m q) = 1 \<and> u2 (pgs m q) = 0" using px by (simp add: used_page_def page_simps)
  then have tp: "table_page (hm g) b"
    unfolding table_page_def o(1) using qs geom_eqD(2,4) [OF o(4)] by (auto simp: b_def)
  have "\<forall>x \<in> page_ptrs (hm h) - free_set (hm h). pgs (hm g) x = pgs (hm h) x"
    unfolding o(1) using px by (auto simp: only_page_def)
  moreover have "q \<in> free_set (hm h)" "free_set (hm g) = free_set (hm h) - {q}" using px o(2) by simp_all
  ultimately show ?thesis using create [folded g_def] b_def sg(1,2) tp o(3-7) by blast
qed

section \<open>Caches\<close>

text \<open>\<open>only_words S h h'\<close>: the heaps differ at most in the words \<open>S\<close>, given by frame and index.\<close>

definition only_words :: "(u64 \<times> nat) set \<Rightarrow> heap \<Rightarrow> heap \<Rightarrow> bool" where
  "only_words S h h' \<longleftrightarrow> dmap h' = dmap h \<and> geom (hm h') = geom (hm h) \<and> pgs (hm h') = pgs (hm h)
     \<and> mem_ok (hm h') = mem_ok (hm h) \<and> free_set (hm h') = free_set (hm h)
     \<and> (\<forall>b j. frame b \<and> j < 512 \<and> (b, j) \<notin> S \<longrightarrow> ent h' b j = ent h b j)"


lemma only_wordsD: "only_words S h h' \<Longrightarrow> frame b \<Longrightarrow> j < 512 \<Longrightarrow> (b, j) \<notin> S \<Longrightarrow> ent h' b j = ent h b j"
  by (simp add: only_words_def)

lemma only_words_hm: "only_words S h h' \<Longrightarrow> hm h'' = hm h' \<Longrightarrow> only_words S h h''"
  by (simp add: only_words_def ent_def dmap_def fun_eq_iff)

lemma only_words_trans:
  assumes "only_words S h h'" and "only_words T h' h''" and "S \<subseteq> U" "T \<subseteq> U"
  shows "only_words U h h''"
proof -
  have "ent h'' b j = ent h b j" if "frame b" "j < 512" "(b, j) \<notin> U" for b j
    using only_wordsD [OF assms(1) that(1,2)] only_wordsD [OF assms(2) that(1,2)] that(3) assms(3,4) by (metis subsetD)
  then show ?thesis using assms(1,2) by (simp add: only_words_def)
qed

lemma only_words_put: "frame b \<Longrightarrow> i < 512 \<Longrightarrow> only_words {(b, i)} h (put_word b i w h)"
  by (auto simp: only_words_def ent_put_word)

fun slab_list :: "heap \<Rightarrow> u64 \<Rightarrow> u64 list \<Rightarrow> bool" where
  "slab_list h p [] \<longleftrightarrow> p = 0"
| "slab_list h p (b # bs) \<longleftrightarrow> p = dmap h b \<and> slab_list h (ent h b 0) bs"

lemma slab_list_cong:
  "(\<And>b. b \<in> set bs \<Longrightarrow> ent h' b 0 = ent h b 0) \<Longrightarrow> dmap h' = dmap h \<Longrightarrow> slab_list h' p bs = slab_list h p bs"
  by (induction bs arbitrary: p) auto

lemma dmap_inj: "dmap h b = dmap h b' \<longleftrightarrow> b = b'"
  by (simp add: dmap_def)



text \<open>A cache whose partial list is \<open>P\<close> (slabs with a free object) and whose full list is \<open>Q\<close>.\<close>

definition slabs :: "(u64 \<times> nat list) list \<times> u64 list \<Rightarrow> u64 list" where
  "slabs = (\<lambda>(P, Q). map fst P @ Q)"

definition cache_ok :: "heap \<Rightarrow> nat \<Rightarrow> cache \<Rightarrow> (u64 \<times> nat list) list \<times> u64 list \<Rightarrow> bool" where
  "cache_ok h i c = (\<lambda>(P, Q). obj_size c = of_nat (8 * 2 ^ i) \<and> slab_list h (partial c) (map fst P) \<and> slab_list h (full c) Q
     \<and> (\<forall>x \<in> set P. slab_ok h (2 ^ i) x \<and> snd x \<noteq> []) \<and> (\<forall>b \<in> set Q. slab_ok h (2 ^ i) (b, [])))"

text \<open>\<open>A i\<close> gives the two lists of cache \<open>i\<close>.  Each slab lies in a page of its own that the heap holds the
  only reference to.\<close>

type_synonym heap_lists = "nat \<Rightarrow> (u64 \<times> nat list) list \<times> u64 list"

definition heap_ok :: "heap \<Rightarrow> heap_lists \<Rightarrow> bool" where
  "heap_ok h A \<longleftrightarrow> mem_ok (hm h) \<and> hhdm_ok (hm h) \<and> length (caches h) = NUM_CACHES
     \<and> (\<forall>i < NUM_CACHES. cache_ok h i (caches h ! i) (A i) \<and> distinct (slabs (A i))
          \<and> (\<forall>b \<in> set (slabs (A i)). table_page (hm h) b)
          \<and> (\<forall>j < NUM_CACHES. j \<noteq> i \<longrightarrow> set (slabs (A i)) \<inter> set (slabs (A j)) = {}))"

lemma heap_okD:
  assumes "heap_ok h A"
  shows "mem_ok (hm h)" "hhdm_ok (hm h)" "length (caches h) = NUM_CACHES"
    and "i < NUM_CACHES \<Longrightarrow> cache_ok h i (caches h ! i) (A i)" "i < NUM_CACHES \<Longrightarrow> distinct (slabs (A i))"
    "i < NUM_CACHES \<Longrightarrow> b \<in> set (slabs (A i)) \<Longrightarrow> table_page (hm h) b"
    "i < NUM_CACHES \<Longrightarrow> j < NUM_CACHES \<Longrightarrow> j \<noteq> i \<Longrightarrow> set (slabs (A i)) \<inter> set (slabs (A j)) = {}"
  using assms unfolding heap_ok_def by blast+

lemma slabs_simps [simp]: "slabs ((b, fs) # P, Q) = b # slabs (P, Q)" "slabs ([], Q) = Q" "set (slabs (P, Q)) = fst ` set P \<union> set Q"
  by (simp_all add: slabs_def)

lemma class_pow: "i < NUM_CACHES \<Longrightarrow> class_words (2 ^ i)"
proof -
  assume "i < NUM_CACHES"
  then have "i \<in> {0, 1, 2, 3, 4, 5, 6, 7, 8}" by auto
  then show ?thesis unfolding class_words_def by auto
qed

lemma slab_frame: "mem_ok m \<Longrightarrow> table_page m b \<Longrightarrow> frame b"
  by (rule table_page_frame)

lemma slab_dmap:
  assumes "mem_ok (hm h)" "hhdm_ok (hm h)" "table_page (hm h) b"
  shows "unat (dmap h b) + 4096 \<le> unat LARGE_REGION_BASE" "paged (dmap h b)" "dmap h b \<noteq> 0"
  using dmap_page [OF assms(1,2)] assms(3) by (auto simp: table_page_def)


lemma cache_ok_cong:
  assumes "\<And>b j. b \<in> set (slabs X) \<Longrightarrow> j < 512 \<Longrightarrow> ent h' b j = ent h b j" and "dmap h' = dmap h" and "i < NUM_CACHES"
  shows "cache_ok h' i c X = cache_ok h i c X"
proof -
  obtain P Q where X: "X = (P, Q)" by fastforce
  have "slab_ok h' (2 ^ i) (b, fs) = slab_ok h (2 ^ i) (b, fs)" if "b \<in> set (slabs X)" for b fs
    by (rule slab_ok_cong) (use assms that in auto)
  then have "(\<forall>x \<in> set P. slab_ok h' (2 ^ i) x \<and> snd x \<noteq> []) = (\<forall>x \<in> set P. slab_ok h (2 ^ i) x \<and> snd x \<noteq> [])"
      "(\<forall>b \<in> set Q. slab_ok h' (2 ^ i) (b, [])) = (\<forall>b \<in> set Q. slab_ok h (2 ^ i) (b, []))"
    by (auto simp: X slabs_def) (metis Un_iff image_eqI fst_conv)+
  moreover have "slab_list h' p (map fst P) = slab_list h p (map fst P)" "slab_list h' p Q = slab_list h p Q" for p
    using assms by (auto simp: X slabs_def intro!: slab_list_cong)
  ultimately show ?thesis by (simp add: cache_ok_def X)
qed

text \<open>A step that touches slabs of cache \<open>i\<close> only.\<close>

lemma heap_ok_update:
  assumes ok: "heap_ok h A" and i: "i < NUM_CACHES" and mem: "mem_ok (hm h')" and geo: "geom (hm h') = geom (hm h)"
    and caches: "caches h' = (caches h)[i := c]" and c: "cache_ok h' i c X" and X: "distinct (slabs X)"
    and pages: "\<And>b. b \<in> set (slabs X) \<Longrightarrow> table_page (hm h') b"
    and apart: "\<And>j. j < NUM_CACHES \<Longrightarrow> j \<noteq> i \<Longrightarrow> set (slabs X) \<inter> set (slabs (A j)) = {}"
    and others: "\<And>j b. j < NUM_CACHES \<Longrightarrow> j \<noteq> i \<Longrightarrow> b \<in> set (slabs (A j)) \<Longrightarrow>
      table_page (hm h') b \<and> (\<forall>k < 512. ent h' b k = ent h b k)"
  shows "heap_ok h' (A(i := X))"
proof -
  have dm: "dmap h' = dmap h" using geo by (simp add: dmap_def geom_def fun_eq_iff)
  have "cache_ok h' j (caches h' ! j) ((A(i := X)) j) \<and> distinct (slabs ((A(i := X)) j))
      \<and> (\<forall>b \<in> set (slabs ((A(i := X)) j)). table_page (hm h') b)
      \<and> (\<forall>k < NUM_CACHES. k \<noteq> j \<longrightarrow> set (slabs ((A(i := X)) j)) \<inter> set (slabs ((A(i := X)) k)) = {})" if j: "j < NUM_CACHES" for j
  proof (cases "j = i")
    case True
    then show ?thesis using ok i c X pages apart caches by (auto simp: heap_ok_def)
  next
    case False
    have "cache_ok h' j (caches h ! j) (A j) = cache_ok h j (caches h ! j) (A j)"
      by (rule cache_ok_cong) (use others j False dm in auto)
    moreover have "set (slabs (A j)) \<inter> set (slabs X) = {}" using apart [OF j False] by auto
    ultimately show ?thesis using ok j False caches others by (auto simp: heap_ok_def)
  qed
  then show ?thesis using ok mem hhdm_ok_geom [OF geo] caches by (simp add: heap_ok_def)
qed

lemma upd_cache_fields [simp]:
  "hm (upd_cache i f h) = hm h" "dmap (upd_cache i f h) = dmap h" "ent (upd_cache i f h) = ent h"
  "s_used (upd_cache i f h) = s_used h" "s_total (upd_cache i f h) = s_total h" "s_next (upd_cache i f h) = s_next h"
  "s_free (upd_cache i f h) = s_free h" "slab_ok (upd_cache i f h) = slab_ok h" "slab_list (upd_cache i f h) = slab_list h"
proof -
  have e: "ent (upd_cache i f h) = ent h" "dmap (upd_cache i f h) = dmap h"
    by (intro ext; simp add: upd_cache_def ent_def dmap_def)+
  show "slab_ok (upd_cache i f h) = slab_ok h"
  proof (intro ext)
    fix y and x :: "u64 \<times> nat list"
    have "free_chain (upd_cache i f h) b y p fs = free_chain h b y p fs" for b p fs by (rule free_chain_cong) (simp_all add: e)
    then show "slab_ok (upd_cache i f h) y x = slab_ok h y x" by (cases x) (simp add: slab_ok_def e)
  qed
  show "slab_list (upd_cache i f h) = slab_list h"
    by (intro ext) (rule slab_list_cong, simp_all add: e)
qed (intro ext; simp add: upd_cache_def ent_def dmap_def s_used_def s_total_def s_next_def s_free_def ld64_def | simp add: upd_cache_def)+

lemma caches_upd_cache [simp]: "caches (upd_cache i f h) = (caches h)[i := f (caches h ! i)]"
  by (simp add: upd_cache_def)

lemma slab_ok_other:
  assumes "only_words S h h'" and "slab_ok h (2 ^ i) (b, fs)" and "\<And>j. 0 < j \<Longrightarrow> (b, j) \<notin> S"
  shows "slab_ok h' (2 ^ i) (b, fs)"
proof -
  have "frame b" using assms(2) by (simp add: slab_ok_def)
  then have "slab_ok h' (2 ^ i) (b, fs) = slab_ok h (2 ^ i) (b, fs)"
    using assms(1,3) by (intro slab_ok_cong) (auto simp: only_words_def)
  then show ?thesis using assms(2) by simp
qed

lemma slab_list_other:
  assumes "only_words S h h'" and "slab_list h p bs" and "\<And>b. b \<in> set bs \<Longrightarrow> frame b \<and> (b, 0) \<notin> S"
  shows "slab_list h' p bs"
proof -
  have "slab_list h' p bs = slab_list h p bs"
    by (rule slab_list_cong) (use assms(1,3) in \<open>auto simp: only_words_def\<close>)
  then show ?thesis using assms(2) by simp
qed

lemma free_length:
  assumes "slab_ok h y (b, fs)"
  shows "length fs \<le> capacity y"
proof -
  have "distinct fs" "set fs \<subseteq> {..<capacity y}" using assms by (auto simp: slab_ok_def)
  then show ?thesis using card_mono [of "{..<capacity y}" "set fs"] distinct_card [of fs] by simp
qed

lemma used_iff:
  assumes "slab_ok h y (b, fs)" and "class_words y"
  shows "s_used h (dmap h b) = s_total h (dmap h b) \<longleftrightarrow> fs = []" "s_used h (dmap h b) = 0 \<longleftrightarrow> length fs = capacity y"
proof -
  note cap = capacity_bounds [OF assms(2)] and len = free_length [OF assms(1)]
  have f: "s_used h (dmap h b) = of_nat (capacity y - length fs)" "s_total h (dmap h b) = of_nat (capacity y)"
    using assms(1) by (auto simp: slab_fields slab_ok_def)
  have inj: "(of_nat m :: u32) = of_nat n \<longleftrightarrow> m = n" if "m \<le> 508" "n \<le> 508" for m n
    using that by (simp add: word_unat_eq_iff unat_of_nat)
  have "capacity y - length fs = capacity y \<longleftrightarrow> fs = []" using cap len by (cases fs) auto
  then show "s_used h (dmap h b) = s_total h (dmap h b) \<longleftrightarrow> fs = []"
    unfolding f using inj [of "capacity y - length fs" "capacity y"] cap by (simp add: le_diff_conv trans_le_add1)
  have "capacity y - length fs = 0 \<longleftrightarrow> length fs = capacity y" using len by auto
  then show "s_used h (dmap h b) = 0 \<longleftrightarrow> length fs = capacity y"
    unfolding f using inj [of "capacity y - length fs" 0] cap by (simp add: le_diff_conv trans_le_add1)
qed

lemma slabs_ok_other:
  assumes "only_words S h h'" and "\<forall>x \<in> set P. slab_ok h (2 ^ i) x \<and> snd x \<noteq> []" and "\<forall>x \<in> set Q. slab_ok h (2 ^ i) (x, [])"
    and "\<And>x j. x \<in> set (slabs (P, Q)) \<Longrightarrow> 0 < j \<Longrightarrow> (x, j) \<notin> S"
  shows "\<forall>x \<in> set P. slab_ok h' (2 ^ i) x \<and> snd x \<noteq> []" and "\<forall>x \<in> set Q. slab_ok h' (2 ^ i) (x, [])"
proof -
  show "\<forall>x \<in> set P. slab_ok h' (2 ^ i) x \<and> snd x \<noteq> []"
  proof
    fix x assume x: "x \<in> set P"
    obtain b fs where b: "x = (b, fs)" by fastforce
    then have "b \<in> set (slabs (P, Q))" using x by force
    then have "slab_ok h' (2 ^ i) (b, fs)" using slab_ok_other [OF assms(1)] assms(2,4) x b by blast
    then show "slab_ok h' (2 ^ i) x \<and> snd x \<noteq> []" using assms(2) x b by auto
  qed
  show "\<forall>x \<in> set Q. slab_ok h' (2 ^ i) (x, [])"
  proof
    fix x assume x: "x \<in> set Q"
    then have "x \<in> set (slabs (P, Q))" by simp
    then show "slab_ok h' (2 ^ i) (x, [])" using slab_ok_other [OF assms(1)] assms(3,4) x by blast
  qed
qed

lemma heap_ok_words:
  assumes ok: "heap_ok h A" and i: "i < NUM_CACHES" and o: "only_words S h h0" and S: "fst ` S \<subseteq> set (slabs (A i))"
    and h': "hm h' = hm h0" "caches h' = (caches h)[i := c]" and c: "cache_ok h' i c X"
    and X: "distinct (slabs X)" "set (slabs X) \<subseteq> set (slabs (A i))"
  shows "heap_ok h' (A(i := X))"
proof (rule heap_ok_update [OF ok i _ _ h'(2) c X(1)])
  show "mem_ok (hm h')" "geom (hm h') = geom (hm h)" using o h'(1) heap_okD(1) [OF ok] by (simp_all add: only_words_def)
  have tp: "table_page (hm h') b = table_page (hm h) b" for b
    using o h'(1) geom_eqD(2,4) [of "hm h0" "hm h"] by (simp add: table_page_def only_words_def)
  show "table_page (hm h') b" if "b \<in> set (slabs X)" for b using heap_okD(6) [OF ok i] that X(2) tp by blast
  show "set (slabs X) \<inter> set (slabs (A j)) = {}" if "j < NUM_CACHES" "j \<noteq> i" for j
    using heap_okD(7) [OF ok i that] X(2) by blast
  show "table_page (hm h') b \<and> (\<forall>k < 512. ent h' b k = ent h b k)" if j: "j < NUM_CACHES" "j \<noteq> i" "b \<in> set (slabs (A j))" for j b
  proof -
    have b: "table_page (hm h) b" by (rule heap_okD(6) [OF ok j(1,3)])
    have "b \<notin> fst ` S" using heap_okD(7) [OF ok i j(1,2)] S j(3) by blast
    then have "(b, k) \<notin> S" for k by force
    moreover have "ent h' = ent h0" using h'(1) by (intro ext) (simp add: ent_def)
    ultimately show ?thesis
      using only_wordsD [OF o table_page_frame [OF heap_okD(1) [OF ok] b]] tp b by simp
  qed
qed

text \<open>Allocating from the first slab of the partial list.\<close>

lemma cache_alloc_partial:
  assumes ok: "heap_ok h A" and i: "i < NUM_CACHES" and Ai: "A i = ((b, k # ks) # P, Q)"
  shows "\<exists>h'. cache_alloc i h = Some (obj_addr h b (2 ^ i) k, h')
    \<and> heap_ok h' (A(i := if ks = [] then (P, b # Q) else ((b, ks) # P, Q)))
    \<and> geom (hm h') = geom (hm h) \<and> pgs (hm h') = pgs (hm h)
    \<and> (\<forall>b' j. frame b' \<and> j < 512 \<and> (b' \<noteq> b \<or> 4 \<le> j) \<longrightarrow> ent h' b' j = ent h b' j)"
proof -
  let ?c = "caches h ! i" and ?y = "2 ^ i" and ?d = "dmap h b"
  note cw = class_pow [OF i]
  have mem: "mem_ok (hm h)" "hhdm_ok (hm h)" and len: "length (caches h) = NUM_CACHES"
    and c: "cache_ok h i ?c ((b, k # ks) # P, Q)" and dist: "distinct (b # slabs (P, Q))"
    and pages: "\<And>x. x \<in> set (b # slabs (P, Q)) \<Longrightarrow> table_page (hm h) x"
    and apart: "\<And>j. j < NUM_CACHES \<Longrightarrow> j \<noteq> i \<Longrightarrow> set (b # slabs (P, Q)) \<inter> set (slabs (A j)) = {}"
    using heap_okD [OF ok] i Ai by (metis slabs_simps(1))+
  have tb: "table_page (hm h) b" and fr: "frame b" using pages table_page_frame [OF mem(1)] by auto
  note db = slab_dmap [OF mem tb]
  have sl: "slab_ok h ?y (b, k # ks)" "partial ?c = ?d" "slab_list h (ent h b 0) (map fst P)" "slab_list h (full ?c) Q"
      "obj_size ?c = of_nat (8 * 2 ^ i)" "\<forall>x \<in> set P. slab_ok h ?y x \<and> snd x \<noteq> []" "\<forall>x \<in> set Q. slab_ok h ?y (x, [])"
    using c by (auto simp: cache_ok_def)
  have k: "k < capacity ?y" using sl(1) by (simp add: slab_ok_def)
  have "obj_addr h b ?y k \<noteq> 0"
    using obj_addr_unat(1) [OF db(1) k] capacity_bounds [OF cw] db(3) by (metis add_is_0 unat_0 unat_eq_zero)
  note al = slab_obj_alloc_ok [OF sl(1) cw, unfolded snd_conv, OF conjI [OF db(3) this]]
  define h1 where "h1 = put_word b 2 (set_high32 (of_nat (capacity ?y - length ks)) (ent h b 2)) (put_word b 1 (ent h b (obj_word ?y k)) h)"
  have h1: "slab_obj_alloc ?d h = (obj_addr h b ?y k, h1)" "slab_ok h1 ?y (b, ks)" using al by (simp_all add: h1_def)
  have o1: "only_words {(b, 1), (b, 2)} h h1"
    unfolding h1_def by (rule only_words_trans [OF only_words_put only_words_put]) (use fr in auto)
  have d1: "dmap h1 = dmap h" "caches h1 = caches h" using o1 by (simp_all add: only_words_def h1_def)
  have full_iff: "s_used h1 ?d = s_total h1 ?d \<longleftrightarrow> ks = []" using used_iff(1) [OF h1(2) cw] d1 by simp
  have frs: "frame x" "x \<noteq> b" if "x \<in> set (slabs (P, Q))" for x
    using pages [of x] that table_page_frame [OF mem(1)] dist by auto
  have call: "cache_alloc i h = (if ks = []
      then Some (obj_addr h b ?y k, upd_cache i (\<lambda>c. c\<lparr>full := ?d\<rparr>)
        (st64 ?d (full ?c) (upd_cache i (\<lambda>c. c\<lparr>partial := s_next h1 ?d\<rparr>) h1)))
      else Some (obj_addr h b ?y k, h1))"
    using sl(2) db(3) h1(1) full_iff d1 i len by (simp add: cache_alloc_def Let_def)
  show ?thesis
  proof (cases "ks = []")
    case False
    have "slab_list h1 (partial ?c) (b # map fst P)" "slab_list h1 (full ?c) Q"
      by (rule slab_list_other [OF o1]; use sl(2-4) fr frs in auto)+
    moreover have "\<forall>x \<in> set P. slab_ok h1 ?y x \<and> snd x \<noteq> []" "\<forall>x \<in> set Q. slab_ok h1 ?y (x, [])"
      by (rule slabs_ok_other [OF o1 sl(6,7)]; use frs in auto)+
    ultimately have "cache_ok h1 i ?c ((b, ks) # P, Q)" using False h1(2) sl(5) by (simp add: cache_ok_def)
    then have "heap_ok h1 (A(i := ((b, ks) # P, Q)))"
      by (intro heap_ok_words [OF ok i o1]) (use Ai d1 dist in auto)
    then show ?thesis using call False o1 by (auto simp: only_words_def)
  next
    case True
    let ?h2 = "upd_cache i (\<lambda>c. c\<lparr>partial := s_next h1 ?d\<rparr>) h1"
    let ?h3 = "put_word b 0 (full ?c) ?h2"
    let ?h4 = "upd_cache i (\<lambda>c. c\<lparr>full := ?d\<rparr>) ?h3"
    have h3: "st64 ?d (full ?c) ?h2 = ?h3" using slab_sets(1) [of ?h2 b] d1 by simp
    have "only_words {(b, 0), (b, 1), (b, 2)} h (put_word b 0 (full ?c) h1)"
      by (rule only_words_trans [OF o1 only_words_put]) (use fr in auto)
    moreover have "hm ?h4 = hm (put_word b 0 (full ?c) h1)" by (simp add: put_word_def)
    ultimately have o4: "only_words {(b, 0), (b, 1), (b, 2)} h ?h4" by (rule only_words_hm)
    have c4: "caches ?h4 = (caches h)[i := ?c\<lparr>partial := ent h b 0, full := ?d\<rparr>]"
      using d1 i len slab_fields(1) [of h1 b] only_wordsD [OF o1 fr, of 0] by simp
    have d4: "dmap ?h4 = dmap h" "ent ?h4 b 0 = full ?c" using d1 fr by (simp_all add: ent_put_word)
    have "slab_list ?h4 (ent h b 0) (map fst P)" "slab_list ?h4 (full ?c) Q"
      by (rule slab_list_other [OF o4]; use sl(3,4) frs in auto)+
    moreover have "\<forall>x \<in> set P. slab_ok ?h4 ?y x \<and> snd x \<noteq> []" "\<forall>x \<in> set Q. slab_ok ?h4 ?y (x, [])"
      by (rule slabs_ok_other [OF o4 sl(6,7)]; use frs in auto)+
    moreover have "slab_ok ?h4 ?y (b, [])"
    proof -
      have "slab_ok (put_word b 0 (full ?c) ?h2) ?y (b, []) = slab_ok ?h2 ?y (b, [])"
        by (rule slab_ok_cong) (use fr in \<open>auto simp: ent_put_word\<close>)
      then show ?thesis using h1(2) True by simp
    qed
    ultimately have "cache_ok ?h4 i (?c\<lparr>partial := ent h b 0, full := ?d\<rparr>) (P, b # Q)" using sl(5) d4 by (simp add: cache_ok_def)
    then have "heap_ok ?h4 (A(i := (P, b # Q)))"
      by (intro heap_ok_words [OF ok i o4 _ refl c4]) (use Ai dist in \<open>auto simp: slabs_def\<close>)
    moreover have "cache_alloc i h = Some (obj_addr h b ?y k, ?h4)" using call True h3 by simp
    moreover have "geom (hm ?h4) = geom (hm h)" "pgs (hm ?h4) = pgs (hm h)" using o4 by (simp_all only: only_words_def)
    moreover have "ent ?h4 b' j = ent h b' j" if "frame b'" "j < 512" "b' \<noteq> b \<or> 4 \<le> j" for b' j
      using only_wordsD [OF o4 that(1,2)] that(3) by auto
    ultimately show ?thesis unfolding True by (simp only: simp_thms if_True) blast
  qed
qed

text \<open>An empty partial list is first refilled with a new slab.\<close>

lemma table_page_keep:
  assumes "table_page s t" and "geom s' = geom s" and "\<forall>x \<in> page_ptrs s - free_set s. pgs s' x = pgs s x"
  shows "table_page s' t"
proof -
  obtain q where q: "q \<in> page_ptrs s" "pfndb_page_to_phys s q = t" "used_page (pgs s q)" "refcount (pgs s q) = 1" "u2 (pgs s q) = 0"
    using assms(1) by (auto simp: table_page_def)
  then have "q \<in> page_ptrs s - free_set s" by (simp add: free_set_def used_page_def)
  then show ?thesis using q assms(3) geom_eqD(2,4) [OF assms(2)] by (auto simp: table_page_def)
qed

lemma cache_alloc_refill:
  assumes ok: "heap_ok h A" and i: "i < NUM_CACHES" and Ai: "A i = ([], Q)" and free: "free_set (hm h) \<noteq> {}"
  shows "\<exists>b h'. cache_alloc i h = cache_alloc i h' \<and> heap_ok h' (A(i := ([(b, [0..<capacity (2 ^ i)])], Q)))
    \<and> geom (hm h') = geom (hm h) \<and> (\<forall>j < NUM_CACHES. b \<notin> set (slabs (A j)))
    \<and> (\<forall>x \<in> page_ptrs (hm h) - free_set (hm h). pgs (hm h') x = pgs (hm h) x)
    \<and> (\<forall>b' j. frame b' \<and> b' \<noteq> b \<and> j < 512 \<longrightarrow> ent h' b' j = ent h b' j)"
proof -
  let ?c = "caches h ! i" and ?y = "2 ^ i"
  note okD = heap_okD [OF ok]
  note cw = class_pow [OF i]
  have c: "obj_size ?c = of_nat (8 * 2 ^ i)" "partial ?c = 0" "slab_list h (full ?c) Q" "\<forall>x \<in> set Q. slab_ok h ?y (x, [])"
    using okD(4) [OF i] Ai by (auto simp: cache_ok_def)
  obtain q b g where g: "slab_create (of_nat (8 * ?y)) h = Some (dmap h b, g)" "q \<in> free_set (hm h)"
      "b = pfndb_page_to_phys (hm h) q" "slab_ok g ?y (b, [0..<capacity ?y])" "ent g b 0 = 0" "mem_ok (hm g)"
      "geom (hm g) = geom (hm h)" "caches g = caches h" "dmap g = dmap h" "table_page (hm g) b"
      "\<forall>x \<in> page_ptrs (hm h) - free_set (hm h). pgs (hm g) x = pgs (hm h) x"
      "\<forall>b' j. frame b' \<and> b' \<noteq> b \<and> j < 512 \<longrightarrow> ent g b' j = ent h b' j"
    using slab_create_ok [OF okD(1,2) free cw] by (elim exE conjE) (rule that)
  have fr: "frame b" using table_page_frame [OF g(6,10)] .
  have db: "dmap h b \<noteq> 0" using slab_dmap(3) [OF g(6) _ g(10)] okD(2) hhdm_ok_geom [OF g(7)] g(9) by simp
  have bA: "b \<notin> set (slabs (A j))" if "j < NUM_CACHES" for j
  proof
    assume "b \<in> set (slabs (A j))"
    then have "table_page (hm h) b" using okD(6) [OF that] by blast
    then show False using table_page_not_free [OF okD(1)] g(2,3) free_set_sub by blast
  qed
  let ?h = "upd_cache i (\<lambda>c. c\<lparr>partial := dmap h b\<rparr>) (put_word b 0 0 g)"
  have st: "st64 (dmap h b) (partial ?c) g = put_word b 0 0 g" using slab_sets(1) [of g b] g(9) c(2) by simp
  have len: "i < length (caches g)" using okD(3) i g(8) by simp
  have call: "cache_alloc i h = cache_alloc i ?h"
    using g(1) c(1,2) st g(8) db len by (simp add: cache_alloc_def)
  have e0: "ent ?h b 0 = 0" "slab_ok ?h ?y (b, [0..<capacity ?y])"
  proof -
    show "ent ?h b 0 = 0" using fr by (simp add: ent_put_word)
    have "slab_ok (put_word b 0 0 g) ?y (b, [0..<capacity ?y]) = slab_ok g ?y (b, [0..<capacity ?y])"
      by (rule slab_ok_cong) (use fr in \<open>auto simp: ent_put_word\<close>)
    then show "slab_ok ?h ?y (b, [0..<capacity ?y])" using g(4) by simp
  qed
  have e: "ent ?h b' j = ent h b' j" if "frame b'" "b' \<noteq> b" "j < 512" for b' j
    using g(12) that fr by (simp add: ent_put_word)
  have dm: "dmap ?h = dmap h" using g(9) by simp
  have tp: "table_page (hm ?h) x" if "table_page (hm h) x" for x
    using table_page_keep [OF that g(7,11)] g(7) geom_eqD(2,4) [of "hm ?h" "hm g"] by (simp add: table_page_def)
  have Qf: "frame x" "x \<noteq> b" if "x \<in> set Q" for x
    using table_page_frame [OF okD(1) okD(6) [OF i]] bA [OF i] Ai that by (force simp: slabs_def)+
  have cok: "cache_ok ?h i (?c\<lparr>partial := dmap h b\<rparr>) ([(b, [0..<capacity ?y])], Q)"
  proof -
    have "slab_list ?h (full ?c) Q = slab_list h (full ?c) Q" by (rule slab_list_cong) (use e Qf dm in auto)
    moreover have "slab_ok ?h ?y (x, []) = slab_ok h ?y (x, [])" if "x \<in> set Q" for x
      by (rule slab_ok_cong) (use e Qf [OF that] dm in auto)
    ultimately show ?thesis using c e0 dm capacity_bounds [OF cw] by (simp add: cache_ok_def)
  qed
  have "heap_ok ?h (A(i := ([(b, [0..<capacity ?y])], Q)))"
  proof (rule heap_ok_update [OF ok i _ _ _ cok])
    show "distinct (slabs ([(b, [0..<capacity ?y])], Q))" using okD(5) [OF i] bA [OF i] Ai by (simp add: slabs_def)
    show "table_page (hm ?h) x" if "x \<in> set (slabs ([(b, [0..<capacity ?y])], Q))" for x
    proof (cases "x = b")
      case True
      then show ?thesis using g(10) geom_eqD(2,4) [of "hm ?h" "hm g"] by (simp add: table_page_def)
    next
      case False
      then show ?thesis using that tp okD(6) [OF i, of x] Ai by (auto simp: slabs_def)
    qed
    show "set (slabs ([(b, [0..<capacity ?y])], Q)) \<inter> set (slabs (A j)) = {}" if "j < NUM_CACHES" "j \<noteq> i" for j
      using bA [OF that(1)] okD(7) [OF i that] Ai by (auto simp: slabs_def)
    show "table_page (hm ?h) x \<and> (\<forall>k < 512. ent ?h x k = ent h x k)" if "j < NUM_CACHES" "j \<noteq> i" "x \<in> set (slabs (A j))" for j x
      using tp okD(6) [OF that(1,3)] e [of x] table_page_frame [OF okD(1) okD(6) [OF that(1,3)]] bA [OF that(1)] that(3) by metis
  qed (use g(6-8) in auto)
  then show ?thesis using call bA e g(7,11) by (intro exI [of _ b] exI [of _ ?h]) simp
qed

section \<open>Live blocks\<close>

text \<open>The objects in use, by cache, slab and index, and their addresses with the size they can hold.\<close>

definition live :: "heap_lists \<Rightarrow> (nat \<times> u64 \<times> nat) set" where
  "live A = {(i, b, k). i < NUM_CACHES \<and> k < capacity (2 ^ i)
     \<and> (b \<in> set (snd (A i)) \<or> (\<exists>fs. (b, fs) \<in> set (fst (A i)) \<and> k \<notin> set fs))}"

definition block_of :: "heap \<Rightarrow> nat \<times> u64 \<times> nat \<Rightarrow> u64 \<times> nat" where
  "block_of h = (\<lambda>(i, b, k). (obj_addr h b (2 ^ i) k, 8 * 2 ^ i))"

definition blocks :: "heap \<Rightarrow> heap_lists \<Rightarrow> (u64 \<times> nat) set" where
  "blocks h A = block_of h ` live A"

definition apart :: "u64 \<times> nat \<Rightarrow> u64 \<times> nat \<Rightarrow> bool" where
  "apart x y \<longleftrightarrow> unat (fst x) + snd x \<le> unat (fst y) \<or> unat (fst y) + snd y \<le> unat (fst x)"

text \<open>Two heaps hold the same words in a block.\<close>

definition same_block :: "heap \<Rightarrow> heap \<Rightarrow> u64 \<times> nat \<Rightarrow> bool" where
  "same_block h h' x \<longleftrightarrow> (\<forall>w < snd x div 8. ld64 h' (fst x + 8 * of_nat w) = ld64 h (fst x + 8 * of_nat w))"

lemma liveD:
  assumes "heap_ok h A" "(i, b, k) \<in> live A"
  shows "i < NUM_CACHES" "k < capacity (2 ^ i)" "b \<in> set (slabs (A i))" "table_page (hm h) b" "frame b"
    "unat (dmap h b) + 4096 \<le> unat LARGE_REGION_BASE" "paged (dmap h b)"
proof -
  show i: "i < NUM_CACHES" "k < capacity (2 ^ i)" using assms(2) by (simp_all add: live_def)
  show b: "b \<in> set (slabs (A i))" using assms(2) by (cases "A i") (force simp: live_def slabs_def)
  show tp: "table_page (hm h) b" using heap_okD(6) [OF assms(1) i(1) b] .
  then show "frame b" by (rule table_page_frame [OF heap_okD(1) [OF assms(1)]])
  show "unat (dmap h b) + 4096 \<le> unat LARGE_REGION_BASE" "paged (dmap h b)"
    using slab_dmap [OF heap_okD(1,2) [OF assms(1)] tp] by simp_all
qed

lemma block_of_unat:
  assumes "heap_ok h A" "(i, b, k) \<in> live A"
  shows "unat (fst (block_of h (i, b, k))) = unat (dmap h b) + 8 * obj_word (2 ^ i) k" "obj_word (2 ^ i) k + 2 ^ i \<le> 512"
    "snd (block_of h (i, b, k)) = 8 * 2 ^ i"
  using obj_addr_unat [OF liveD(6,2) [OF assms], of] by (simp_all add: block_of_def)

lemma live_apart:
  assumes "heap_ok h A" "x \<in> live A" "y \<in> live A" "x \<noteq> y"
  shows "apart (block_of h x) (block_of h y)"
proof -
  obtain i b k j c l where x: "x = (i, b, k)" and y: "y = (j, c, l)" by (cases x; cases y)
  note bx = block_of_unat [OF assms(1) assms(2) [unfolded x]] and by' = block_of_unat [OF assms(1) assms(3) [unfolded y]]
  note lx = liveD [OF assms(1) assms(2) [unfolded x]] and ly = liveD [OF assms(1) assms(3) [unfolded y]]
  show ?thesis
  proof (cases "b = c")
    case True
    then have "i = j" using heap_okD(7) [OF assms(1) lx(1) ly(1)] lx(3) ly(3) by auto
    then have "k \<noteq> l" using assms(4) True by (simp add: x y)
    then have "Suc k \<le> l \<or> Suc l \<le> k" by auto
    then have "obj_word (2 ^ i) k + 2 ^ i \<le> obj_word (2 ^ i) l \<or> obj_word (2 ^ i) l + 2 ^ i \<le> obj_word (2 ^ i) k"
      using mult_le_mono1 [of "Suc k" l "2 ^ i"] mult_le_mono1 [of "Suc l" k "2 ^ i"] by (auto simp: obj_word_def)
    then show ?thesis using bx by' True \<open>i = j\<close> by (auto simp: apart_def x y)
  next
    case False
    obtain s t where st: "unat (dmap h b) = 4096 * s" "unat (dmap h c) = 4096 * t"
      using paged_obtain [OF lx(7)] paged_obtain [OF ly(7)] by metis
    have "dmap h b \<noteq> dmap h c" using False by (simp add: dmap_inj)
    then have "s \<noteq> t" using st by (metis word_unat_eq_iff)
    then have "4096 * s + 4096 \<le> 4096 * t \<or> 4096 * t + 4096 \<le> 4096 * s" by linarith
    then show ?thesis using bx by' st by (auto simp: apart_def x y)
  qed
qed


lemma same_block_trans: "same_block h g x \<Longrightarrow> same_block g h' x \<Longrightarrow> same_block h h' x"
  by (simp add: same_block_def)

lemma same_block_words:
  assumes "heap_ok h A" "(i, b, k) \<in> live A" "dmap h' = dmap h"
    and "\<And>w. w < 2 ^ i \<Longrightarrow> ent h' b (obj_word (2 ^ i) k + w) = ent h b (obj_word (2 ^ i) k + w)"
  shows "same_block h h' (block_of h (i, b, k))"
proof -
  have a: "obj_addr h b (2 ^ i) k + 8 * of_nat w = dmap h b + 8 * of_nat (obj_word (2 ^ i) k + w)" for w
    by (simp add: obj_addr_def algebra_simps)
  show ?thesis
    unfolding same_block_def block_of_def prod.case fst_conv snd_conv a
    using assms(4) ld64_word [of h b] ld64_word [of h' b] assms(3) by (simp del: of_nat_add)
qed

lemma live_take:
  assumes "heap_ok h A" "i < NUM_CACHES" "A i = ((b, k # ks) # P, Q)"
  shows "(i, b, k) \<notin> live A" "live (A(i := if ks = [] then (P, b # Q) else ((b, ks) # P, Q))) = insert (i, b, k) (live A)"
proof -
  have d: "b \<notin> fst ` set P" "b \<notin> set Q" "k \<notin> set ks" "k < capacity (2 ^ i)"
    using heap_okD(4,5) [OF assms(1,2)] assms(3) by (auto simp: slabs_def cache_ok_def slab_ok_def)
  then have P: "(b, fs) \<notin> set P" for fs by force
  show "(i, b, k) \<notin> live A" using d P assms(3) by (simp add: live_def)
  have "(x \<in> live (A(i := if ks = [] then (P, b # Q) else ((b, ks) # P, Q)))) = (x \<in> insert (i, b, k) (live A))" for x
  proof -
    obtain j c l where x: "x = (j, c, l)" by (cases x)
    show ?thesis using d P assms(2,3) by (cases "j = i"; cases "ks = []"; cases "c = b") (auto simp: live_def x)
  qed
  then show "live (A(i := if ks = [] then (P, b # Q) else ((b, ks) # P, Q))) = insert (i, b, k) (live A)" by blast
qed

lemma live_new_slab:
  assumes "A i = ([], Q)"
  shows "live (A(i := ([(b, [0..<capacity (2 ^ i)])], Q))) = live A"
  using assms by (auto simp: live_def split: if_splits)

lemma dmap_geom: "geom (hm h') = geom (hm h) \<Longrightarrow> dmap h' = dmap h"
  by (simp add: dmap_def geom_def fun_eq_iff)

lemma cache_alloc_first:
  assumes ok: "heap_ok h A" and i: "i < NUM_CACHES" and Ai: "A i = ((b, k # ks) # P, Q)"
  shows "\<exists>h' A'. cache_alloc i h = Some (fst (block_of h' (i, b, k)), h') \<and> heap_ok h' A' \<and> dmap h' = dmap h
    \<and> (i, b, k) \<notin> live A \<and> live A' = insert (i, b, k) (live A) \<and> (\<forall>x \<in> live A. same_block h h' (block_of h x))"
proof -
  let ?A = "A(i := if ks = [] then (P, b # Q) else ((b, ks) # P, Q))"
  obtain h' where h': "cache_alloc i h = Some (obj_addr h b (2 ^ i) k, h')" "heap_ok h' ?A" "geom (hm h') = geom (hm h)"
      "\<forall>b' j. frame b' \<and> j < 512 \<and> (b' \<noteq> b \<or> 4 \<le> j) \<longrightarrow> ent h' b' j = ent h b' j"
    using cache_alloc_partial [OF assms] by (elim exE conjE) (rule that)
  have dm: "dmap h' = dmap h" using h'(3) by (rule dmap_geom)
  have "same_block h h' (block_of h x)" if "x \<in> live A" for x
  proof -
    obtain j c l where x: "x = (j, c, l)" by (cases x)
    note l = liveD [OF ok that [unfolded x]] block_of_unat(2) [OF ok that [unfolded x]]
    show ?thesis unfolding x
      by (rule same_block_words [OF ok that [unfolded x] dm]) (use h'(4) l in \<open>auto simp: obj_word_def\<close>)
  qed
  moreover have "obj_addr h b (2 ^ i) k = fst (block_of h' (i, b, k))" using dm by (simp add: block_of_def obj_addr_def)
  ultimately show ?thesis using h'(1,2) dm live_take [OF assms] by auto
qed

lemma cache_alloc_ok:
  assumes ok: "heap_ok h A" and i: "i < NUM_CACHES" and free: "fst (A i) \<noteq> [] \<or> free_set (hm h) \<noteq> {}"
  shows "\<exists>b k h' A'. cache_alloc i h = Some (fst (block_of h' (i, b, k)), h') \<and> heap_ok h' A' \<and> dmap h' = dmap h
    \<and> (i, b, k) \<notin> live A \<and> live A' = insert (i, b, k) (live A) \<and> (\<forall>x \<in> live A. same_block h h' (block_of h x))"
proof (cases "fst (A i)")
  case (Cons x P)
  obtain b fs Q where x: "x = (b, fs)" "A i = ((b, fs) # P, Q)" using Cons by (cases x; cases "A i") auto
  then obtain k ks where "fs = k # ks" using heap_okD(4) [OF ok i] by (cases fs) (auto simp: cache_ok_def)
  then show ?thesis using cache_alloc_first [OF ok i, of b k ks P Q] x by blast
next
  case Nil
  obtain Q where Ai: "A i = ([], Q)" using Nil by (cases "A i") auto
  have fr: "free_set (hm h) \<noteq> {}" using free Nil by simp
  obtain b g where g: "cache_alloc i h = cache_alloc i g" "heap_ok g (A(i := ([(b, [0..<capacity (2 ^ i)])], Q)))"
      "geom (hm g) = geom (hm h)" "\<forall>j < NUM_CACHES. b \<notin> set (slabs (A j))"
      "\<forall>b' j. frame b' \<and> b' \<noteq> b \<and> j < 512 \<longrightarrow> ent g b' j = ent h b' j"
    using cache_alloc_refill [OF ok i Ai fr] by (elim exE conjE) (rule that)
  have dm: "dmap g = dmap h" using g(3) by (rule dmap_geom)
  have lv: "live (A(i := ([(b, [0..<capacity (2 ^ i)])], Q))) = live A" using Ai by (rule live_new_slab [of A])
  have cap: "[0..<capacity (2 ^ i)] = 0 # [1..<capacity (2 ^ i)]" using capacity_bounds [OF class_pow [OF i]] by (simp add: upt_conv_Cons)
  obtain h' A' where h': "cache_alloc i g = Some (fst (block_of h' (i, b, 0)), h')" "heap_ok h' A'" "dmap h' = dmap g"
      "(i, b, 0) \<notin> live A" "live A' = insert (i, b, 0) (live A)" "\<forall>x \<in> live A. same_block g h' (block_of g x)"
    using cache_alloc_first [OF g(2) i, of b 0 "[1..<capacity (2 ^ i)]" "[]" Q] cap lv by (simp only: fun_upd_same) blast
  have "same_block h h' (block_of h x)" if "x \<in> live A" for x
  proof -
    obtain j c l where x: "x = (j, c, l)" by (cases x)
    note l = liveD [OF ok that [unfolded x]] block_of_unat(2) [OF ok that [unfolded x]]
    have "c \<noteq> b" using g(4) l(1,3) by auto
    then have "same_block h g (block_of h x)" unfolding x
      by (intro same_block_words [OF ok that [unfolded x] dm]) (use g(5) l(5,8) in auto)
    moreover have "block_of g x = block_of h x" using dm by (simp add: block_of_def obj_addr_def x)
    ultimately show ?thesis using same_block_trans bspec [OF h'(6) that] by metis
  qed
  then show ?thesis using g(1) h'(1-5) dm by auto
qed


lemma cache_idx_fits: "unat sz \<le> 2048 \<Longrightarrow> cache_idx sz < NUM_CACHES \<and> unat sz \<le> 8 * 2 ^ cache_idx sz"
  unfolding cache_idx_cases by (auto simp: word_le_nat_alt)

text \<open>C36.  \<open>kmalloc\<close> of up to 2048 bytes succeeds while a page is free: the block is new, aligned and large enough, it
  overlaps no block in use, all of them keep their contents, and the heap stays well formed.\<close>

theorem kmalloc_fresh:
  assumes "heap_ok h A" "sz \<noteq> 0" "unat sz \<le> 2048" "free_set (hm h) \<noteq> {}"
  shows "\<exists>p n h' A'. kmalloc sz h = Some (p, h') \<and> heap_ok h' A' \<and> blocks h' A' = insert (p, n) (blocks h A)
    \<and> p \<noteq> 0 \<and> p mod 8 = 0 \<and> unat sz \<le> n
    \<and> (\<forall>x \<in> blocks h A. apart (p, n) x \<and> same_block h h' x)"
proof -
  define i where "i = cache_idx sz"
  have i: "i < NUM_CACHES" "unat sz \<le> 8 * 2 ^ i" using cache_idx_fits [OF assms(3)] by (simp_all add: i_def)
  obtain b k h' A' where a: "cache_alloc i h = Some (fst (block_of h' (i, b, k)), h')" "heap_ok h' A'" "dmap h' = dmap h"
      "(i, b, k) \<notin> live A" "live A' = insert (i, b, k) (live A)" "\<forall>x \<in> live A. same_block h h' (block_of h x)"
    using cache_alloc_ok [OF assms(1) i(1) disjI2 [OF assms(4)]] by (elim exE conjE) (rule that)
  let ?x = "(i, b, k)"
  obtain p n where pn: "block_of h' ?x = (p, n)" by fastforce
  have x: "?x \<in> live A'" using a(5) by simp
  note bu = block_of_unat [OF a(2) x, unfolded pn fst_conv snd_conv] and lx = liveD [OF a(2) x]
  have bo: "block_of h' = block_of h" using a(3) by (simp add: block_of_def obj_addr_def fun_eq_iff)
  obtain t where t: "unat (dmap h' b) = 4096 * t" using paged_obtain [OF lx(7)] by blast
  have "unat p = 8 * (512 * t + obj_word (2 ^ i) k)" unfolding bu(1) t by simp
  then have "unat p mod 8 = 0" by simp
  then have "p mod 8 = 0" by (simp add: word_unat_eq_iff unat_mod)
  moreover have "p \<noteq> 0" using bu(1) by (auto simp: obj_word_def)
  moreover have "kmalloc sz h = Some (p, h')" using assms(2) i(1) a(1) pn by (simp add: kmalloc_def i_def)
  moreover have "blocks h' A' = insert (p, n) (blocks h A)" using a(5) bo pn by (simp add: blocks_def)
  moreover have "\<forall>y \<in> blocks h A. apart (p, n) y \<and> same_block h h' y"
    using live_apart [OF a(2) x, unfolded pn] a(4-6) bo by (auto simp: blocks_def)
  moreover have "unat sz \<le> n" using i(2) bu(3) by simp
  ultimately show ?thesis using a(2)
    by (intro exI [where x = p], intro exI [where x = n], intro exI [where x = h'], intro exI [where x = A'] conjI)
qed

lemma kheap_init_ok:
  assumes "mem_ok (hm h)" "hhdm_ok (hm h)"
  shows "heap_ok (kheap_init h) (\<lambda>_. ([], []))"
proof -
  have "cache_ok (kheap_init h) i (caches (kheap_init h) ! i) ([], [])" if "i < NUM_CACHES" for i
    using that by (simp add: cache_ok_def kheap_init_def push_bit_eq_mult)
  then show ?thesis using assms by (simp add: heap_ok_def) (simp add: kheap_init_def)
qed


definition boot_heap :: heap where
  "boot_heap = kheap_init \<lparr>hm = booted\<lparr>hhdm_offset := 65536, ram := (\<lambda>_. 0)\<rparr>, caches = [], next_large_base = LARGE_REGION_BASE\<rparr>"

lemma boot_heap_ok: "heap_ok boot_heap (\<lambda>_. ([], []))" "free_set (hm boot_heap) \<noteq> {}"
proof -
  have "mem_ok (booted\<lparr>hhdm_offset := 65536, ram := (\<lambda>_. 0)\<rparr>) = mem_ok booted" "free_set (booted\<lparr>hhdm_offset := 65536, ram := (\<lambda>_. 0)\<rparr>) = free_set booted"
    by (simp_all add: mem_ok_def pmm_inv_def pages_ok_def db_ok_def freelist_is_def free_set_def page_at_def page_ptrs_def)
  moreover have "hhdm_ok (booted\<lparr>hhdm_offset := 65536, ram := (\<lambda>_. 0)\<rparr>)"
    using booted_state(5) by (simp add: hhdm_ok_def paged_def LARGE_REGION_BASE_def)
  ultimately show "heap_ok boot_heap (\<lambda>_. ([], []))" "free_set (hm boot_heap) \<noteq> {}"
    using booted_mem kheap_init_ok [of "\<lparr>hm = booted\<lparr>hhdm_offset := 65536, ram := (\<lambda>_. 0)\<rparr>, caches = [], next_large_base = LARGE_REGION_BASE\<rparr>"]
    by (auto simp: boot_heap_def vm_ok_def kheap_init_def)
qed

theorem kmalloc_fresh_witness:
  "\<exists>p n h' A'. kmalloc 100 boot_heap = Some (p, h') \<and> heap_ok h' A' \<and> blocks h' A' = {(p, n)} \<and> 100 \<le> n"
proof -
  have "blocks boot_heap (\<lambda>_. ([], [])) = {}" by (simp add: blocks_def live_def)
  then show ?thesis using kmalloc_fresh [OF boot_heap_ok(1) _ _ boot_heap_ok(2), of 100] by auto
qed

section \<open>Freeing\<close>





























section \<open>Growing a large block\<close>

lemma large_class: "2048 < sz \<Longrightarrow> cache_idx sz = NUM_CACHES"
  unfolding cache_idx_cases word_less_nat_alt word_le_nat_alt by simp

text \<open>C38.  \<open>krealloc\<close> does not grow a large block: it compares the size classes of the old and the new size, and all sizes above
  2048 are of the same class.  For a large block of \<open>npages\<close> pages any request above 2048 bytes gives the block back
  unchanged, also when it holds fewer bytes than were asked for.\<close>

theorem krealloc_large_not_grown:
  assumes "vld64 (p - PAGE_SIZE) h = Some w" "low32 w = LARGE_MAGIC" "vld64 (p - PAGE_SIZE + 8) h = Some npages"
    and "1 < npages" "unat npages \<le> 2 ^ 50" "p \<noteq> 0" "(npages - 1) * PAGE_SIZE < sz"
  shows "block_size p h = Some ((npages - 1) * PAGE_SIZE) \<and> (npages - 1) * PAGE_SIZE < sz \<and> krealloc p sz h = Some (p, h)"
proof -
  have b: "block_size p h = Some ((npages - 1) * PAGE_SIZE)" using assms(1-3) by (simp add: block_size_def)
  define m where "m = npages - 1"
  have "unat m = unat npages - 1" using unat_sub [of 1 npages] assms(4) by (simp add: m_def word_less_nat_alt word_le_nat_alt)
  moreover have "1 < unat npages" using assms(4) by (simp add: word_less_nat_alt)
  ultimately have "unat (m * PAGE_SIZE) = unat m * 4096" "1 \<le> unat m" using assms(5) by (simp_all add: unat_word_ariths)
  then have "2048 < (npages - 1) * PAGE_SIZE" unfolding word_less_nat_alt m_def [symmetric] by simp
  moreover from this have "2048 < sz" "sz \<noteq> 0" using assms(7) by auto
  ultimately show ?thesis using b assms(6,7) large_class by (simp add: krealloc_def)
qed

theorem krealloc_large_not_grown_witness:
  "\<exists>h p. block_size p h = Some 8192 \<and> krealloc p 100000 h = Some (p, h)"
proof -
  let ?b = "8192 :: u64"
  let ?h = "put_word ?b 1 3 (put_word ?b 0 (ucast LARGE_MAGIC) boot_heap)"
  let ?p = "dmap ?h ?b + PAGE_SIZE"
  have fr: "frame ?b" by (simp add: frame_iff)
  have d: "dmap ?h ?b = 73728" by (simp add: dmap_def boot_heap_def kheap_init_def)
  have "ent ?h ?b 0 = ucast LARGE_MAGIC" "ent ?h ?b 1 = 3" using fr by (simp_all add: ent_put_word)
  then have l: "ld64 ?h (dmap ?h ?b) = ucast LARGE_MAGIC" "ld64 ?h (dmap ?h ?b + 8) = 3"
    using ld64_word [of ?h ?b 0] ld64_word [of ?h ?b 1] by simp_all
  have "vld64 (?p - PAGE_SIZE) ?h = Some (ucast LARGE_MAGIC)" "vld64 (?p - PAGE_SIZE + 8) ?h = Some 3"
    using l unfolding d by (simp_all add: vld64_def heap_phys_def ld64_def LARGE_REGION_BASE_def)
  moreover have "low32 (ucast LARGE_MAGIC) = LARGE_MAGIC" by (simp add: low32_def LARGE_MAGIC_def)
  moreover have "?p \<noteq> 0" unfolding d by simp
  ultimately show ?thesis using krealloc_large_not_grown [of ?p ?h "ucast LARGE_MAGIC" 3 100000] by auto
qed

end
