(* ===== verification/Pipe.thy ===== *)
theory Pipe
  imports Heap Bytes
begin

unbundle bit_operations_syntax

text \<open>
  Pipes, \<open>kernel/src/fs/pipe.c\<close>.  A pipe keeps everything that was ever written in one buffer that grows by doubling;
  the two ends are files with an offset of their own.

  The buffer is the block the heap returned, with the bytes the block really has; a write outside it is \<open>None\<close>.  What
  \<open>krealloc\<close> does with it is an argument of \<open>vfs_pipe_write\<close>: one theorem is about a heap that
  keeps the contract of \<open>krealloc\<close>, the other about the heap of \<open>mm/heap.c\<close>, whose large blocks do not grow.
  A read that has to wait for the other side ends with \<open>PipeBlocks\<close>; the sequence of operations of both sides is
  explicit.
\<close>

section \<open>State\<close>

abbreviation (input) PIPE_INITIAL_CAPACITY :: nat where "PIPE_INITIAL_CAPACITY \<equiv> 4096"

datatype pipe_side = PIPE_READER | PIPE_WRITER

record pipe_shared =
  pbuffer :: octets
  pcapacity :: nat
  write_offset :: u64
  readers :: u32
  writers :: u32
  pnodes :: u32

record pipe_file =
  pf_offset :: u64
  pf_flags :: u32

datatype 'a pipe_result = PipeDone 'a | PipeError errno | PipeBlocks

section \<open>Operations\<close>

definition pipe_close :: "pipe_side \<Rightarrow> pipe_shared \<Rightarrow> pipe_shared" where
  "pipe_close side p =
     (case side of
        PIPE_READER \<Rightarrow> if 0 < readers p then p\<lparr>readers := readers p - 1\<rparr> else p
      | PIPE_WRITER \<Rightarrow> if 0 < writers p then p\<lparr>writers := writers p - 1\<rparr> else p)"

definition vfs_pipe_ref :: "pipe_side \<Rightarrow> pipe_shared \<Rightarrow> pipe_shared" where
  "vfs_pipe_ref side p =
     (case side of PIPE_READER \<Rightarrow> p\<lparr>readers := readers p + 1\<rparr> | PIPE_WRITER \<Rightarrow> p\<lparr>writers := writers p + 1\<rparr>)"

text \<open>Releasing an end; the result says whether the buffer and the shared state are freed.\<close>

definition pipe_release :: "pipe_shared \<Rightarrow> bool \<times> pipe_shared" where
  "pipe_release p = (let n = (if 0 < pnodes p then pnodes p - 1 else pnodes p) in (n = 0, p\<lparr>pnodes := n\<rparr>))"

abbreviation (input) LYR_POLLIN :: u32 where "LYR_POLLIN \<equiv> 0x001"
abbreviation (input) LYR_POLLOUT :: u32 where "LYR_POLLOUT \<equiv> 0x004"
abbreviation (input) LYR_POLLERR :: u32 where "LYR_POLLERR \<equiv> 0x008"
abbreviation (input) LYR_POLLHUP :: u32 where "LYR_POLLHUP \<equiv> 0x010"
abbreviation (input) LYR_POLLRDNORM :: u32 where "LYR_POLLRDNORM \<equiv> 0x040"
abbreviation (input) LYR_POLLWRNORM :: u32 where "LYR_POLLWRNORM \<equiv> 0x100"

definition pipe_poll :: "pipe_file \<Rightarrow> u32 \<Rightarrow> pipe_shared \<Rightarrow> u32" where
  "pipe_poll f events p =
     (let rd = (if events AND 0x0c1 \<noteq> 0
                then (if pf_offset f < write_offset p \<or> writers p = 0 then LYR_POLLIN OR LYR_POLLRDNORM else 0)
                  OR (if writers p = 0 then LYR_POLLHUP else 0)
                else 0);
          wr = (if events AND 0x304 \<noteq> 0
                then (if readers p = 0 then LYR_POLLERR else LYR_POLLOUT OR LYR_POLLWRNORM)
                else 0)
      in rd OR wr)"

text \<open>The outcomes of the six allocations are \<open>as\<close>, in order.  Next to the result stands the number of heap blocks the call leaves
  allocated.\<close>

definition usable :: "nat \<Rightarrow> nat" where
  "usable n = unat ((large_npages (of_nat n) - 1) * PAGE_SIZE)"

definition new_pipe :: pipe_shared where
  "new_pipe = \<lparr>pbuffer = replicate (usable (PIPE_INITIAL_CAPACITY + 1)) 0, pcapacity = PIPE_INITIAL_CAPACITY, write_offset = 0,
     readers = 1, writers = 1, pnodes = 2\<rparr>"

definition vfs_pipe_create :: "bool list \<Rightarrow> (errno + pipe_shared \<times> pipe_file \<times> pipe_file) \<times> nat" where
  "vfs_pipe_create as =
     (let f = (\<lambda>i. i < length as \<and> \<not> as ! i) in
      if f 0 then (Inl ENOMEM, 0)
      else if f 1 then (Inl ENOMEM, 0)
      else if f 2 then (Inl ENOMEM, 1)
      else if f 3 then (let (free, p) = pipe_release new_pipe in (Inl ENOMEM, if free then 0 else 2))
      else if f 4 \<or> f 5 then (let (_, p) = pipe_release new_pipe; (free, p) = pipe_release p in (Inl ENOMEM, if free then 0 else 2))
      else (Inr (new_pipe, \<lparr>pf_offset = 0, pf_flags = 0\<rparr>, \<lparr>pf_offset = 0, pf_flags = 1\<rparr>), 6))"

text \<open>One pass through the loop of \<open>vfs_pipe_read\<close>.  A pass that copies nothing and has nothing to report ends in
  \<open>pipe_wait_interruptible\<close>, or in \<open>EAGAIN\<close>.\<close>

definition vfs_pipe_read :: "pipe_side \<Rightarrow> pipe_file \<Rightarrow> nat \<Rightarrow> pipe_shared \<Rightarrow> (octets pipe_result \<times> pipe_file) option" where
  "vfs_pipe_read side f len p =
     (if side \<noteq> PIPE_READER then Some (PipeError EBADF, f)
      else if len = 0 then Some (PipeDone [], f)
      else let available = (if pf_offset f < write_offset p then unat (write_offset p - pf_offset f) else 0);
               chunk = (if available < len then available else len) in
        if 0 < available
        then if unat (pf_offset f) + chunk \<le> length (pbuffer p)
          then Some (PipeDone (slice (unat (pf_offset f)) chunk (pbuffer p)), f\<lparr>pf_offset := pf_offset f + of_nat chunk\<rparr>)
          else None
        else if writers p = 0 \<and> write_offset p \<le> pf_offset f then Some (PipeDone [], f)
        else if pf_flags f AND 0x800 \<noteq> 0 then Some (PipeError EAGAIN, f)
        else Some (PipeBlocks, f))"

text \<open>The doubling loop.  The capacity is a power of two times 4096, so a doubling that leaves 64 bits gives \<open>0\<close> and the loop does not
  end.\<close>

function grow_to :: "nat \<Rightarrow> nat \<Rightarrow> nat option" where
  "grow_to need cap = (if need \<le> cap then Some cap else if cap = 0 \<or> 2 ^ 64 \<le> cap * 2 then None else grow_to need (cap * 2))"
  by pat_completeness auto
termination by (relation "measure (\<lambda>(need, cap). need - cap)") auto

declare grow_to.simps [simp del]

text \<open>\<open>kr b n\<close> is \<open>krealloc\<close> of the block \<open>b\<close> to \<open>n\<close> bytes.\<close>

definition vfs_pipe_write ::
    "(octets \<Rightarrow> nat \<Rightarrow> octets option) \<Rightarrow> pipe_side \<Rightarrow> pipe_file \<Rightarrow> octets \<Rightarrow> pipe_shared \<Rightarrow> (nat pipe_result \<times> pipe_file \<times> pipe_shared) option" where
  "vfs_pipe_write kr side f data p =
     (if side \<noteq> PIPE_WRITER then Some (PipeError EBADF, f, p)
      else if data = [] then Some (PipeDone 0, f, p)
      else if readers p = 0 then Some (PipeError EPIPE, f, p)
      else do {
        let start = unat (pf_offset f);
        let need = unat (pf_offset f + of_nat (length data));
        grown \<leftarrow> (if pcapacity p < need
          then do {
            cap \<leftarrow> grow_to need (if pcapacity p \<noteq> 0 then pcapacity p else PIPE_INITIAL_CAPACITY);
            case kr (pbuffer p) (cap + 1) of
              None \<Rightarrow> Some None
            | Some b \<Rightarrow> do {
                b \<leftarrow> (if pcapacity p < cap then patch (pcapacity p) (replicate (cap + 1 - pcapacity p) 0) b else Some b);
                Some (Some (b, cap)) } }
          else Some (Some (pbuffer p, pcapacity p)));
        case grown of
          None \<Rightarrow> Some (PipeError ENOMEM, f, p)
        | Some (b, cap) \<Rightarrow> do {
            b \<leftarrow> (if write_offset p < pf_offset f
                 then patch (unat (write_offset p)) (replicate (start - unat (write_offset p)) 0) b else Some b);
            b \<leftarrow> patch start data b;
            let off = pf_offset f + of_nat (length data);
            let w = (if write_offset p < off then off else write_offset p);
            b \<leftarrow> patch (unat w) [0] b;
            Some (PipeDone (length data), f\<lparr>pf_offset := off\<rparr>, p\<lparr>pbuffer := b, pcapacity := cap, write_offset := w\<rparr>) } })"

definition vfs_pipe_seek :: "pipe_file \<Rightarrow> nat \<Rightarrow> u64 \<Rightarrow> pipe_shared \<Rightarrow> (errno + u64) \<times> pipe_file" where
  "vfs_pipe_seek f whence off p =
     (if 2 < whence then (Inl EINVAL, f)
      else let base = (if whence = 0 then 0 else if whence = 1 then pf_offset f else write_offset p) in
        if sint off < 0 \<and> base < - off then (Inl EINVAL, f)
        else let o' = (if sint off < 0 then base - (- off) else base + off) in (Inr o', f\<lparr>pf_offset := o'\<rparr>))"

section \<open>A pipe is a queue\<close>

text \<open>What the C standard and the callers expect of \<open>krealloc\<close>: a failure, or a block of at least the size asked for that starts with
  the old contents.\<close>

definition honest_realloc :: "(octets \<Rightarrow> nat \<Rightarrow> octets option) \<Rightarrow> bool" where
  "honest_realloc kr \<longleftrightarrow> (\<forall>b n b'. kr b n = Some b' \<longrightarrow> n \<le> length b' \<and> take (min n (length b)) b' = take (min n (length b)) b)"

lemma grow_to_ok: "0 < cap \<Longrightarrow> need \<le> 2 ^ 62 \<Longrightarrow> \<exists>c. grow_to need cap = Some c \<and> need \<le> c \<and> cap \<le> c"
proof (induction need cap rule: grow_to.induct)
  case (1 need cap)
  show ?case
  proof (cases "need \<le> cap")
    case True
    then show ?thesis by (subst grow_to.simps) simp
  next
    case False
    then have n: "\<not> (cap = 0 \<or> 2 ^ 64 \<le> cap * 2)" using 1(2,3) by simp
    from 1(1) [OF False n] 1(2,3) obtain c where "grow_to need (cap * 2) = Some c" "need \<le> c" "cap * 2 \<le> c" by auto
    then show ?thesis using False n by (subst grow_to.simps) auto
  qed
qed

text \<open>\<open>W\<close> is everything that was written.\<close>

definition pipe_ok :: "octets \<Rightarrow> pipe_shared \<Rightarrow> pipe_file \<Rightarrow> pipe_file \<Rightarrow> bool" where
  "pipe_ok W p rf wo \<longleftrightarrow> unat (write_offset p) = length W \<and> pf_offset wo = write_offset p \<and> pf_offset rf \<le> write_offset p
     \<and> take (length W) (pbuffer p) = W \<and> length W \<le> pcapacity p \<and> pcapacity p < length (pbuffer p) \<and> 4096 \<le> pcapacity p"

lemma take_eq_splice:
  assumes "take n b = W" "n = length W" "n + length ys \<le> length b"
  shows "take (n + length ys) (splice n ys b) = W @ ys"
  using assms by (simp add: splice_def)

lemma vfs_pipe_write_ok:
  assumes kr: "honest_realloc kr" and ok: "pipe_ok W p rf wo" and len: "length W + length data < 2 ^ 62"
    and d: "data \<noteq> []" and r: "readers p \<noteq> 0"
  shows "vfs_pipe_write kr PIPE_WRITER wo data p = Some (PipeError ENOMEM, wo, p)
    \<or> (\<exists>wo' p'. vfs_pipe_write kr PIPE_WRITER wo data p = Some (PipeDone (length data), wo', p') \<and> pipe_ok (W @ data) p' rf wo')"
proof -
  let ?n = "length W + length data"
  note o = ok [unfolded pipe_ok_def]
  have off: "unat (pf_offset wo) = length W" using o by simp
  have l: "unat (of_nat (length data) :: u64) = length data" using len by (simp add: unat_of_nat)
  have need: "unat (pf_offset wo + of_nat (length data)) = ?n" using off l len by (simp add: unat_word_ariths)
  have lt: "write_offset p < pf_offset wo + of_nat (length data)" using need o d by (simp add: word_less_nat_alt)
  have fin: "\<exists>b2 b3. patch (length W) data b = Some b2 \<and> patch ?n [0] b2 = Some b3
      \<and> pipe_ok (W @ data) (p\<lparr>pbuffer := b3, pcapacity := cap, write_offset := pf_offset wo + of_nat (length data)\<rparr>) rf
          (wo\<lparr>pf_offset := pf_offset wo + of_nat (length data)\<rparr>)"
    if b: "take (length W) b = W" "cap < length b" "?n \<le> cap" "4096 \<le> cap" for b cap
  proof -
    let ?b2 = "splice (length W) data b" let ?b3 = "splice ?n [0] ?b2"
    have p2: "patch (length W) data b = Some ?b2" "length ?b2 = length b" "take ?n ?b2 = W @ data"
      using b take_eq_splice [OF b(1) refl, of data] by (simp_all add: patch_def)
    have p3: "patch ?n [0] ?b2 = Some ?b3" "length ?b3 = length b" using b p2(2) by (simp_all add: patch_def)
    have "take ?n ?b3 = W @ data" using p2 b by (simp add: splice_def [of ?n])
    moreover have "pf_offset rf \<le> pf_offset wo + of_nat (length data)" using o lt by auto
    ultimately show ?thesis using p2(1) p3 b need o by (simp add: pipe_ok_def)
  qed
  have nw: "\<not> write_offset p < pf_offset wo" using o by simp
  show ?thesis
  proof (cases "pcapacity p < ?n")
    case False
    then have "?n \<le> pcapacity p" by simp
    from fin [OF _ _ this] o obtain b2 b3 where f: "patch (length W) data (pbuffer p) = Some b2" "patch ?n [0] b2 = Some b3"
        "pipe_ok (W @ data) (p\<lparr>pbuffer := b3, pcapacity := pcapacity p, write_offset := pf_offset wo + of_nat (length data)\<rparr>) rf
          (wo\<lparr>pf_offset := pf_offset wo + of_nat (length data)\<rparr>)"
      by blast
    then have "vfs_pipe_write kr PIPE_WRITER wo data p = Some (PipeDone (length data), wo\<lparr>pf_offset := pf_offset wo + of_nat (length data)\<rparr>,
        p\<lparr>pbuffer := b3, pcapacity := pcapacity p, write_offset := pf_offset wo + of_nat (length data)\<rparr>)"
      using False d r nw need lt off by (simp add: vfs_pipe_write_def Let_def)
    then show ?thesis using f(3) by blast
  next
    case True
    have "0 < pcapacity p" "?n \<le> 2 ^ 62" using o len by simp_all
    from grow_to_ok [OF this] obtain c where c: "grow_to ?n (pcapacity p) = Some c" "?n \<le> c" "pcapacity p \<le> c" by blast
    have pc: "pcapacity p \<noteq> 0" "pcapacity p < c" using o True c(2) by simp_all
    show ?thesis
    proof (cases "kr (pbuffer p) (c + 1)")
      case None
      then have "vfs_pipe_write kr PIPE_WRITER wo data p = Some (PipeError ENOMEM, wo, p)"
        using True c pc d r need by (simp add: vfs_pipe_write_def Let_def)
      then show ?thesis ..
    next
      case (Some b)
      then have b: "c + 1 \<le> length b" "take (min (c + 1) (length (pbuffer p))) b = take (min (c + 1) (length (pbuffer p))) (pbuffer p)"
        using kr by (simp_all add: honest_realloc_def)
      have lw: "length W \<le> min (c + 1) (length (pbuffer p))" using o pc by simp
      then have "take (length W) b = take (length W) (pbuffer p)"
        using arg_cong [OF b(2), of "take (length W)"] by (simp add: min_def split: if_splits)
      then have tw: "take (length W) b = W" using o by simp
      let ?b1 = "splice (pcapacity p) (replicate (c + 1 - pcapacity p) 0) b"
      have p1: "patch (pcapacity p) (replicate (c + 1 - pcapacity p) 0) b = Some ?b1" "length ?b1 = length b"
        using b(1) pc by (simp_all add: patch_def)
      have "take (length W) ?b1 = W" using tw o b(1) pc by (simp add: splice_def min_def)
      from fin [OF this _ c(2)] p1(2) b(1) o pc obtain b2 b3 where f: "patch (length W) data ?b1 = Some b2" "patch ?n [0] b2 = Some b3"
          "pipe_ok (W @ data) (p\<lparr>pbuffer := b3, pcapacity := c, write_offset := pf_offset wo + of_nat (length data)\<rparr>) rf
            (wo\<lparr>pf_offset := pf_offset wo + of_nat (length data)\<rparr>)"
        by auto
      then have "vfs_pipe_write kr PIPE_WRITER wo data p = Some (PipeDone (length data), wo\<lparr>pf_offset := pf_offset wo + of_nat (length data)\<rparr>,
          p\<lparr>pbuffer := b3, pcapacity := c, write_offset := pf_offset wo + of_nat (length data)\<rparr>)"
        using True Some c(1) pc p1(1) d r nw need lt off by (simp add: vfs_pipe_write_def Let_def)
      then show ?thesis using f(3) by blast
    qed
  qed
qed

lemma vfs_pipe_read_ok:
  assumes ok: "pipe_ok W p rf wo" and n: "0 < n"
  defines "k \<equiv> unat (pf_offset rf)" and "m \<equiv> min n (length W - unat (pf_offset rf))"
  shows "k \<le> length W"
    and "0 < m \<Longrightarrow> vfs_pipe_read PIPE_READER rf n p = Some (PipeDone (slice k m W), rf\<lparr>pf_offset := pf_offset rf + of_nat m\<rparr>)"
    and "0 < m \<Longrightarrow> pipe_ok W p (rf\<lparr>pf_offset := pf_offset rf + of_nat m\<rparr>) wo \<and> unat (pf_offset rf + of_nat m) = k + m"
    and "m = 0 \<Longrightarrow> \<exists>q. vfs_pipe_read PIPE_READER rf n p = Some (q, rf) \<and> (\<forall>x. q = PipeDone x \<longrightarrow> x = [] \<and> writers p = 0)"
proof -
  note o = ok [unfolded pipe_ok_def]
  show kw: "k \<le> length W" using o by (simp add: k_def word_le_nat_alt)
  have av: "(pf_offset rf < write_offset p) = (k < length W)" using o by (simp add: k_def word_less_nat_alt)
  have df: "unat (write_offset p - pf_offset rf) = length W - k" using o by (simp add: k_def unat_sub)
  have m: "m = min n (length W - k)" by (simp add: m_def k_def)
  show "vfs_pipe_read PIPE_READER rf n p = Some (PipeDone (slice k m W), rf\<lparr>pf_offset := pf_offset rf + of_nat m\<rparr>)" if "0 < m"
  proof -
    have "k < length W" using that m by simp
    moreover have "slice k m (pbuffer p) = slice k m W"
    proof -
      have "slice k m W = slice k m (slice 0 (length W) (pbuffer p))" using o by (simp add: slice_def)
      also have "\<dots> = slice k m (pbuffer p)" using slice_slice [of k m "length W" 0 "pbuffer p"] kw m by simp
      finally show ?thesis by simp
    qed
    moreover have "(if length W - k < n then length W - k else n) = m" using m by auto
    moreover have "k + m \<le> length (pbuffer p)" using o kw unfolding m by linarith
    ultimately show ?thesis using n av df by (simp add: vfs_pipe_read_def Let_def k_def [symmetric])
  qed
  have mb: "m < 2 ^ 64" using unat_bound64 [of "write_offset p"] o m by (simp add: min_def) linarith
  show "pipe_ok W p (rf\<lparr>pf_offset := pf_offset rf + of_nat m\<rparr>) wo \<and> unat (pf_offset rf + of_nat m) = k + m" if "0 < m"
  proof -
    have "k + m \<le> length W" using m kw by simp
    moreover have "length W < 2 ^ 64" using unat_bound64 [of "write_offset p"] o by simp
    ultimately have "unat (pf_offset rf + of_nat m) = k + m" using mb by (simp add: unat_word_ariths unat_of_nat k_def)
    then show ?thesis using o \<open>k + m \<le> length W\<close> by (simp add: pipe_ok_def word_le_nat_alt)
  qed
  show "\<exists>q. vfs_pipe_read PIPE_READER rf n p = Some (q, rf) \<and> (\<forall>x. q = PipeDone x \<longrightarrow> x = [] \<and> writers p = 0)" if "m = 0"
  proof -
    have "\<not> pf_offset rf < write_offset p" using that m n av by auto
    then show ?thesis using n by (auto simp: vfs_pipe_read_def Let_def)
  qed
qed

text \<open>The operations of both sides in any order: \<open>W\<close> is what was written so far and \<open>R\<close> what was read.  Ends are duplicated and
  closed at any time.  No write is longer than memory can be.\<close>

inductive pipe_run ::
    "(octets \<Rightarrow> nat \<Rightarrow> octets option) \<Rightarrow> pipe_shared \<Rightarrow> pipe_file \<Rightarrow> pipe_file \<Rightarrow> octets \<Rightarrow> octets \<Rightarrow> bool" for kr where
  create: "vfs_pipe_create as = (Inr (p, rf, wo), n) \<Longrightarrow> pipe_run kr p rf wo [] []"
| put: "pipe_run kr p rf wo W R \<Longrightarrow> length data < 2 ^ 61 \<Longrightarrow> vfs_pipe_write kr PIPE_WRITER wo data p = Some (q, wo', p') \<Longrightarrow>
    pipe_run kr p' rf wo' (case q of PipeDone n \<Rightarrow> W @ take n data | _ \<Rightarrow> W) R"
| get: "pipe_run kr p rf wo W R \<Longrightarrow> vfs_pipe_read PIPE_READER rf n p = Some (q, rf') \<Longrightarrow>
    pipe_run kr p rf' wo W (case q of PipeDone x \<Rightarrow> R @ x | _ \<Rightarrow> R)"
| dup: "pipe_run kr p rf wo W R \<Longrightarrow> pipe_run kr (vfs_pipe_ref side p) rf wo W R"
| close: "pipe_run kr p rf wo W R \<Longrightarrow> pipe_run kr (pipe_close side p) rf wo W R"

lemma pipe_ends [simp]:
  "pipe_ok W (vfs_pipe_ref side p) rf wo = pipe_ok W p rf wo" "pipe_ok W (pipe_close side p) rf wo = pipe_ok W p rf wo"
  "pcapacity (vfs_pipe_ref side p) = pcapacity p" "pcapacity (pipe_close side p) = pcapacity p"
  "pbuffer (vfs_pipe_ref side p) = pbuffer p" "pbuffer (pipe_close side p) = pbuffer p"
  by (cases side; simp add: pipe_ok_def vfs_pipe_ref_def pipe_close_def)+

lemma new_pipe_ok: "pipe_ok [] new_pipe \<lparr>pf_offset = 0, pf_flags = a\<rparr> \<lparr>pf_offset = 0, pf_flags = b\<rparr>"
proof -
  have "usable 4097 = 8192" by (simp add: usable_def large_npages_def Let_def)
  then show ?thesis by (simp add: pipe_ok_def new_pipe_def)
qed

lemma pipe_get_ok:
  assumes ok: "pipe_ok W p rf wo" and r: "vfs_pipe_read PIPE_READER rf n p = Some (q, rf')"
  shows "pipe_ok W p rf' wo \<and> (case q of PipeDone x \<Rightarrow> take (unat (pf_offset rf)) W @ x | _ \<Rightarrow> take (unat (pf_offset rf)) W) = take (unat (pf_offset rf')) W"
proof (cases "n = 0")
  case True
  then show ?thesis using assms by (auto simp: vfs_pipe_read_def)
next
  case False
  then have n: "0 < n" by simp
  note r' = vfs_pipe_read_ok [OF ok n]
  show ?thesis
  proof (cases "min n (length W - unat (pf_offset rf)) = 0")
    case True
    then show ?thesis using r'(4) assms by (auto split: pipe_result.splits)
  next
    case False
    then show ?thesis using r'(1-3) assms by (auto simp: take_add slice_def)
  qed
qed

lemma vfs_pipe_create_new:
  "vfs_pipe_create as = (Inr (p, rf, wo), n) \<Longrightarrow>
     p = new_pipe \<and> rf = \<lparr>pf_offset = 0, pf_flags = 0\<rparr> \<and> wo = \<lparr>pf_offset = 0, pf_flags = 1\<rparr>"
  by (simp add: vfs_pipe_create_def Let_def split: if_splits prod.splits)






section \<open>Over the kernel heap\<close>

text \<open>\<open>krealloc\<close> of \<open>mm/heap.c\<close>, seen from a block of \<open>length b\<close> usable bytes: the block itself when the size classes agree, and
  otherwise a new block with a copy.\<close>

definition heap_realloc :: "octets \<Rightarrow> nat \<Rightarrow> octets option" where
  "heap_realloc b n =
     (if cache_idx (of_nat n) = cache_idx (of_nat (length b)) then Some b
      else let m = min (length b) n in Some (take m b @ replicate (usable n - m) 0))"

lemma heap_realloc_krealloc:
  assumes "block_size ptr h = Some (of_nat (length b))" "ptr \<noteq> 0" "sz \<noteq> 0" "cache_idx sz = cache_idx (of_nat (length b))"
  shows "krealloc ptr sz h = Some (ptr, h) \<and> heap_realloc b (unat sz) = Some b"
  using assms by (simp add: krealloc_def heap_realloc_def)

lemma heap_realloc_large:
  assumes "2048 < n" "n < 2 ^ 64" "2048 < length b" "length b < 2 ^ 64"
  shows "heap_realloc b n = Some b"
proof -
  have "2048 < (of_nat n :: u64)" "2048 < (of_nat (length b) :: u64)" using assms by (simp_all add: word_less_nat_alt unat_of_nat)
  then show ?thesis by (simp add: heap_realloc_def large_class)
qed

lemma write_in_capacity:
  assumes "unat (pf_offset f + of_nat (length data)) \<le> pcapacity p"
  shows "vfs_pipe_write kr side f data p = vfs_pipe_write kr' side f data p"
  using assms by (simp add: vfs_pipe_write_def Let_def not_less)

text \<open>The first block of a pipe has 8192 bytes and stays the same.\<close>

lemma write_past_capacity:
  assumes ok: "pipe_ok W p rf wo" and c: "pcapacity p = 4096" "length (pbuffer p) = 8192" and r: "readers p \<noteq> 0"
    and n: "4096 < length W + length data" "length W + length data < 2 ^ 62"
  shows "vfs_pipe_write heap_realloc PIPE_WRITER wo data p = None"
proof -
  let ?n = "length W + length data"
  note o = ok [unfolded pipe_ok_def]
  have d: "data \<noteq> []" using o c(1) n(1) by auto
  have need: "unat (pf_offset wo + of_nat (length data)) = ?n" using o n(2) by (simp add: unat_word_ariths unat_of_nat)
  have c62: "\<exists>k. grow_to ?n 4096 = Some k \<and> 8192 \<le> k \<and> k < 2 ^ 63"
  proof -
    have step: "\<exists>k. grow_to m a = Some k \<and> a \<le> k \<and> k < 2 ^ 63" if "0 < a" "a < 2 ^ 63" "m < 2 ^ 62" for m a
      using that
    proof (induction m a rule: grow_to.induct)
      case (1 m a)
      show ?case
      proof (cases "m \<le> a")
        case True
        then show ?thesis using 1(3) by (subst grow_to.simps) simp
      next
        case False
        then have "\<not> (a = 0 \<or> 2 ^ 64 \<le> a * 2)" "0 < a * 2" "a * 2 < 2 ^ 63" using 1(2,4) by simp_all
        from 1(1) [OF False this 1(4)] show ?thesis using False \<open>\<not> (a = 0 \<or> 2 ^ 64 \<le> a * 2)\<close>
          by (subst grow_to.simps) auto
      qed
    qed
    have "grow_to ?n 4096 = grow_to ?n 8192" using n(1) by (subst grow_to.simps) simp
    then show ?thesis using step [of 8192 ?n] n(2) by simp
  qed
  then obtain k where k: "grow_to ?n 4096 = Some k" "8192 \<le> k" "k < 2 ^ 63" by blast
  have "heap_realloc (pbuffer p) (k + 1) = Some (pbuffer p)" using heap_realloc_large [of "k + 1" "pbuffer p"] k c(2) by simp
  moreover have "patch 4096 (replicate (k + 1 - 4096) 0) (pbuffer p) = None" using k c(2) by (simp add: patch_def)
  ultimately show ?thesis using k n(1) c(1) d r need by (simp add: vfs_pipe_write_def Let_def)
qed

lemma pipe_run_heap:
  "pipe_run heap_realloc p rf wo W R \<Longrightarrow> pipe_ok W p rf wo \<and> pcapacity p = 4096 \<and> length (pbuffer p) = 8192"
proof (induction rule: pipe_run.induct)
  case (create as p rf wo n)
  have "usable 4097 = 8192" by (simp add: usable_def large_npages_def Let_def)
  then have "pcapacity new_pipe = 4096" "length (pbuffer new_pipe) = 8192" by (simp_all add: new_pipe_def)
  then show ?case using new_pipe_ok vfs_pipe_create_new [OF create(1)] by simp
next
  case (put p rf wo W R data q wo' p')
  then have ih: "pipe_ok W p rf wo" "pcapacity p = 4096" "length (pbuffer p) = 8192" by simp_all
  show ?case
  proof (cases "data = [] \<or> readers p = 0")
    case True
    then show ?thesis using put(3) ih by (auto simp: vfs_pipe_write_def split: if_splits)
  next
    case F: False
    have lw: "length W \<le> 4096" "unat (pf_offset wo) = length W" using ih by (simp_all add: pipe_ok_def)
    then have total: "length W + length data < 2 ^ 62" using put(2) by simp
    have small: "length W + length data \<le> 4096"
    proof (rule ccontr)
      assume "\<not> length W + length data \<le> 4096"
      then show False using write_past_capacity [OF ih _ _ total] F put(3) by simp
    qed
    have "unat (pf_offset wo + of_nat (length data)) = length W + length data" using lw small by (simp add: unat_word_ariths unat_of_nat)
    then have cap: "unat (pf_offset wo + of_nat (length data)) \<le> pcapacity p" using small ih by simp
    have "honest_realloc (\<lambda>_ _. None)" by (simp add: honest_realloc_def)
    from vfs_pipe_write_ok [OF this ih(1) total] F put(3) write_in_capacity [OF cap, of heap_realloc PIPE_WRITER "\<lambda>_ _. None"]
    have "q = PipeError ENOMEM \<and> wo' = wo \<and> p' = p \<or> q = PipeDone (length data) \<and> pipe_ok (W @ data) p' rf wo'" by auto
    moreover have "pcapacity p' = 4096 \<and> length (pbuffer p') = 8192"
      using put(3) ih cap F by (auto simp: vfs_pipe_write_def Let_def patch_def split: if_splits)
    ultimately show ?thesis using ih(1) by auto
  qed
next
  case (get p rf wo W R n q rf')
  then show ?case using pipe_get_ok [of W p rf wo n q rf'] by simp
qed simp_all

text \<open>C16.  Over the kernel heap a pipe does not survive its 4097th byte.  The buffer of a new pipe is a large block of 8192 bytes, which
  \<open>krealloc\<close> does not grow; the first write that takes the total above 4096 bytes clears the new capacity and one byte more, and
  so writes behind the end of the block.\<close>

theorem pipe_write_overflows_block:
  assumes "pipe_run heap_realloc p rf wo W R" "readers p \<noteq> 0" "4096 < length W + length data" "length data < 2 ^ 61"
  shows "length (pbuffer p) = 8192 \<and> vfs_pipe_write heap_realloc PIPE_WRITER wo data p = None"
proof -
  have i: "pipe_ok W p rf wo" "pcapacity p = 4096" "length (pbuffer p) = 8192" using pipe_run_heap [OF assms(1)] by simp_all
  then have "length W + length data < 2 ^ 62" using assms(4) by (simp add: pipe_ok_def)
  from write_past_capacity [OF i assms(2,3) this] show ?thesis using i(3) by simp
qed

theorem pipe_write_overflows_block_witness:
  "vfs_pipe_write heap_realloc PIPE_WRITER \<lparr>pf_offset = 0, pf_flags = 1\<rparr> (replicate 4097 7) new_pipe = None"
proof -
  have "vfs_pipe_create [] = (Inr (new_pipe, \<lparr>pf_offset = 0, pf_flags = 0\<rparr>, \<lparr>pf_offset = 0, pf_flags = 1\<rparr>), 6)" by (simp add: vfs_pipe_create_def)
  from pipe_write_overflows_block [OF pipe_run.create [OF this], of "replicate 4097 7"] have "readers new_pipe \<noteq> 0 \<Longrightarrow> ?thesis" by simp
  then show ?thesis by (simp add: new_pipe_def)
qed

end
