(* ===== verification/Clock.thy ===== *)
theory Clock
  imports Prelude
begin

unbundle bit_operations_syntax

text \<open>
  Time keeping: the interval timer (\<open>kernel/src/dev/pit.c\<close>), the real time clock (\<open>kernel/src/dev/rtc.c\<close>) and the time
  manager over them (\<open>kernel/src/dev/time.c\<close>).

  The registers of the real time clock are given by what each read of them returns: an attempt to read the time takes two
  samples and the mode register.  The bounded wait for the end of an update has no result.  A C \<open>int\<close> is an integer, the clocks
  are 64-bit words.
\<close>

section \<open>The interval timer\<close>

abbreviation (input) PIT_CLOCK :: nat where "PIT_CLOCK \<equiv> 1193182"

record pit =
  pit_init_done :: bool
  pit_tick_count :: u64
  pit_hz :: u16
  pit_divisor :: u16

definition pit_tick :: "pit \<Rightarrow> pit" where
  "pit_tick p = p\<lparr>pit_tick_count := pit_tick_count p + 1\<rparr>"

text \<open>Dividing by zero does not return.\<close>

definition pit_init :: "u16 \<Rightarrow> pit \<Rightarrow> pit option" where
  "pit_init freq p =
     (if pit_init_done p then Some p
      else if freq = 0 then None
      else Some \<lparr>pit_init_done = True, pit_tick_count = 0, pit_hz = freq, pit_divisor = of_nat (PIT_CLOCK div unat freq)\<rparr>)"

definition pit_reload :: "pit \<Rightarrow> pit option" where
  "pit_reload p = (if pit_hz p = 0 then None else Some (p\<lparr>pit_divisor := of_nat (PIT_CLOCK div unat (pit_hz p))\<rparr>))"

definition pit_set_freq :: "u16 \<Rightarrow> pit \<Rightarrow> pit option" where
  "pit_set_freq freq p = (if freq = 0 then Some p else pit_reload (p\<lparr>pit_hz := freq, pit_tick_count := 0\<rparr>))"

definition pit_set_div :: "u16 \<Rightarrow> pit \<Rightarrow> pit option" where
  "pit_set_div d p = (if d = 0 then Some p else pit_reload (p\<lparr>pit_hz := of_nat (PIT_CLOCK div unat d), pit_tick_count := 0\<rparr>))"

section \<open>The real time clock\<close>

record rtc_sample =
  rtc_sec :: u8
  rtc_min :: u8
  rtc_hour :: u8
  rtc_day :: u8
  rtc_month :: u8
  rtc_year :: u8

record rtc_date =
  d_year :: int
  d_month :: int
  d_day :: int
  d_hour :: int
  d_minute :: int
  d_second :: int

definition bcd_to_bin :: "u8 \<Rightarrow> u8" where
  "bcd_to_bin v = (v AND 0x0f) + drop_bit 4 v * 10"

definition is_leap_year :: "int \<Rightarrow> bool" where
  "is_leap_year year \<longleftrightarrow> year mod 4 = 0 \<and> (year mod 100 \<noteq> 0 \<or> year mod 400 = 0)"

function days_from :: "int \<Rightarrow> int \<Rightarrow> int \<Rightarrow> int" where
  "days_from year y days = (if y < year then days_from year (y + 1) (days + (if is_leap_year y then 366 else 365)) else days)"
  by pat_completeness auto
termination by (relation "measure (\<lambda>(year, y, days). nat (year - y))") auto

declare days_from.simps [simp del]

definition days_before_year :: "int \<Rightarrow> int" where
  "days_before_year year = days_from year 1970 0"

definition days_before_month :: "int \<Rightarrow> int \<Rightarrow> int" where
  "days_before_month year month =
     [0, 31, 59, 90, 120, 151, 181, 212, 243, 273, 304, 334] ! nat (month - 1) + (if 2 < month \<and> is_leap_year year then 1 else 0)"

definition rtc_to_unix :: "int \<Rightarrow> int \<Rightarrow> int \<Rightarrow> int \<Rightarrow> int \<Rightarrow> int \<Rightarrow> int" where
  "rtc_to_unix year month day hour minute second =
     (days_before_year year + days_before_month year month + (day - 1)) * 86400 + hour * 3600 + minute * 60 + second"

definition rtc_binary :: "rtc_sample \<Rightarrow> rtc_sample" where
  "rtc_binary s =
     \<lparr>rtc_sec = bcd_to_bin (rtc_sec s), rtc_min = bcd_to_bin (rtc_min s),
      rtc_hour = (rtc_hour s AND 0x80) OR bcd_to_bin (rtc_hour s AND 0x7f), rtc_day = bcd_to_bin (rtc_day s),
      rtc_month = bcd_to_bin (rtc_month s), rtc_year = bcd_to_bin (rtc_year s)\<rparr>"

definition rtc_read_consistent :: "rtc_sample \<Rightarrow> rtc_sample \<Rightarrow> u8 \<Rightarrow> errno + rtc_date" where
  "rtc_read_consistent s1 s2 status_b =
     (if s1 \<noteq> s2 then Inl EAGAIN
      else let s = (if status_b AND 0x04 = 0 then rtc_binary s1 else s1);
               h = (if status_b AND 0x02 = 0 \<and> rtc_hour s AND 0x80 \<noteq> 0
                    then of_nat ((unat (rtc_hour s AND 0x7f) + 12) mod 24) else rtc_hour s);
               full_year = (if 70 \<le> rtc_year s then 1900 + uint (rtc_year s) else 2000 + uint (rtc_year s)) in
        if rtc_month s < 1 \<or> 12 < rtc_month s \<or> rtc_day s < 1 \<or> 31 < rtc_day s \<or> 23 < h \<or> 59 < rtc_min s \<or> 60 < rtc_sec s
           \<or> full_year < 1970
        then Inl EINVAL
        else Inr \<lparr>d_year = full_year, d_month = uint (rtc_month s), d_day = uint (rtc_day s), d_hour = uint h,
               d_minute = uint (rtc_min s), d_second = uint (rtc_sec s)\<rparr>)"

text \<open>What the reads of the (at most four) attempts return.\<close>

primrec rtc_attempts :: "nat \<Rightarrow> (rtc_sample \<times> rtc_sample \<times> u8) list \<Rightarrow> errno + int" where
  "rtc_attempts 0 rs = Inl EAGAIN"
| "rtc_attempts (Suc n) rs =
     (case rs of
        [] \<Rightarrow> Inl EAGAIN
      | (s1, s2, b) # rs \<Rightarrow>
          (case rtc_read_consistent s1 s2 b of
             Inl e \<Rightarrow> if e = EAGAIN then rtc_attempts n rs else Inl e
           | Inr d \<Rightarrow> Inr (rtc_to_unix (d_year d) (d_month d) (d_day d) (d_hour d) (d_minute d) (d_second d))))"

definition rtc_read_time :: "(rtc_sample \<times> rtc_sample \<times> u8) list \<Rightarrow> errno + int" where
  "rtc_read_time rs = rtc_attempts 4 rs"

section \<open>The time manager\<close>

abbreviation (input) NSEC_PER_SEC :: u64 where "NSEC_PER_SEC \<equiv> 1000000000"

record time_state =
  wall_registered :: bool
  wall_base_sec :: int
  wall_base_nsec :: int
  wall_base_mono_ns :: u64
  monotonic_base_ticks :: u64
  monotonic_base_hz :: u16
  time_ready :: bool

record time_timeout =
  finite_timeout :: bool
  deadline_ns :: u64

definition time_init :: "pit \<Rightarrow> time_state" where
  "time_init p = \<lparr>wall_registered = False, wall_base_sec = 0, wall_base_nsec = 0, wall_base_mono_ns = 0,
     monotonic_base_ticks = pit_tick_count p, monotonic_base_hz = pit_hz p, time_ready = True\<rparr>"

definition time_monotonic_ns :: "pit \<Rightarrow> time_state \<Rightarrow> u64" where
  "time_monotonic_ns p t =
     (let hz = (if pit_hz p = 0 then monotonic_base_hz t else pit_hz p) in
      if hz = 0 then 0
      else let ticks = pit_tick_count p; base = (if ticks < monotonic_base_ticks t then 0 else monotonic_base_ticks t)
        in ((ticks - base) * NSEC_PER_SEC) div ucast hz)"

definition time_ms_to_ns :: "u64 \<Rightarrow> u64" where
  "time_ms_to_ns ms = (if - 1 div 1000000 < ms then - 1 else ms * 1000000)"

definition time_add_ns_saturating :: "u64 \<Rightarrow> u64 \<Rightarrow> u64" where
  "time_add_ns_saturating a b = (if - 1 - a < b then - 1 else a + b)"

definition time_timeout_after_ms :: "int \<Rightarrow> pit \<Rightarrow> time_state \<Rightarrow> time_timeout" where
  "time_timeout_after_ms timeout_ms p t =
     (if timeout_ms < 0 then \<lparr>finite_timeout = False, deadline_ns = 0\<rparr>
      else \<lparr>finite_timeout = True, deadline_ns = time_add_ns_saturating (time_monotonic_ns p t) (time_ms_to_ns (of_int timeout_ms))\<rparr>)"

definition time_timeout_after_timespec :: "int \<Rightarrow> int \<Rightarrow> pit \<Rightarrow> time_state \<Rightarrow> errno + time_timeout" where
  "time_timeout_after_timespec sec nsec p t =
     (if sec < 0 \<or> nsec < 0 \<or> 1000000000 \<le> nsec then Inl EINVAL
      else let sec_ns = (if - 1 div NSEC_PER_SEC < of_int sec then - 1 else of_int sec * NSEC_PER_SEC);
               duration = time_add_ns_saturating sec_ns (of_int nsec)
        in Inr \<lparr>finite_timeout = True, deadline_ns = time_add_ns_saturating (time_monotonic_ns p t) duration\<rparr>)"

definition time_timeout_expired :: "time_timeout \<Rightarrow> pit \<Rightarrow> time_state \<Rightarrow> bool" where
  "time_timeout_expired tm p t \<longleftrightarrow> finite_timeout tm \<and> 0 \<le> sint (time_monotonic_ns p t - deadline_ns tm)"

text \<open>\<open>src\<close> is what reading the source returns, seconds and nanoseconds.\<close>

definition time_register_source :: "errno + int \<times> int \<Rightarrow> pit \<Rightarrow> time_state \<Rightarrow> (errno + unit) \<times> time_state" where
  "time_register_source src p t =
     (case src of
        Inl e \<Rightarrow> (Inl e, t)
      | Inr (sec, nsec) \<Rightarrow>
          if nsec < 0 \<or> 1000000000 \<le> nsec then (Inl EINVAL, t)
          else (Inr (), t\<lparr>wall_base_sec := sec, wall_base_nsec := nsec, wall_base_mono_ns := time_monotonic_ns p t, wall_registered := True\<rparr>))"

definition time_get :: "nat \<Rightarrow> pit \<Rightarrow> time_state \<Rightarrow> errno + int \<times> int" where
  "time_get clock_id p t =
     (if \<not> time_ready t then Inl ENODEV
      else if clock_id = 0
      then if \<not> wall_registered t then Inl ENODEV
        else let now_ns = time_monotonic_ns p t;
                 elapsed_ns = (if wall_base_mono_ns t \<le> now_ns then now_ns - wall_base_mono_ns t else 0);
                 out_sec = wall_base_sec t + uint (elapsed_ns div NSEC_PER_SEC);
                 out_nsec = wall_base_nsec t + uint (elapsed_ns mod NSEC_PER_SEC)
          in Inr (if 1000000000 \<le> out_nsec then (out_sec + 1, out_nsec - 1000000000) else (out_sec, out_nsec))
      else if clock_id = 1 \<or> clock_id = 4
      then let ns = time_monotonic_ns p t in Inr (uint (ns div NSEC_PER_SEC), uint (ns mod NSEC_PER_SEC))
      else Inl EINVAL)"

section \<open>Dates\<close>






lemma days_from_acc: "days_from year y (a + b) = days_from year y a + b"
proof (induction year y a arbitrary: b rule: days_from.induct)
  case (1 year y a)
  show ?case
  proof (cases "y < year")
    case True
    let ?l = "if is_leap_year y then 366 else 365 :: int"
    have "days_from year y (a + b) = days_from year (y + 1) (a + ?l + b)"
      using True by (subst days_from.simps) (simp add: algebra_simps)
    also have "\<dots> = days_from year (y + 1) (a + ?l) + b" using "1" [OF True, of b] by simp
    also have "days_from year (y + 1) (a + ?l) = days_from year y a" using True by (subst (2) days_from.simps) simp
    finally show ?thesis .
  qed (simp add: days_from.simps)
qed



lemma month_cases:
  assumes "1 \<le> m" "m \<le> (12 :: int)"
  shows "m = 1 \<or> m = 2 \<or> m = 3 \<or> m = 4 \<or> m = 5 \<or> m = 6 \<or> m = 7 \<or> m = 8 \<or> m = 9 \<or> m = 10 \<or> m = 11 \<or> m = 12"
  using assms by presburger






section \<open>Timeouts\<close>

lemma sint_nonneg: "0 \<le> sint (w :: u64) \<longleftrightarrow> unat w < 2 ^ 63"
proof -
  have w: "uint w < 2 ^ 64" "0 \<le> uint w" using unsigned_less [of w, where 'a = int] by simp_all
  have "0 \<le> sint w \<longleftrightarrow> even (uint w div 2 ^ 63)" by (simp add: sint_uint bit_iff_odd)
  also have "\<dots> \<longleftrightarrow> uint w < 2 ^ 63"
  proof (cases "uint w < 2 ^ 63")
    case True
    then show ?thesis using w(2) by simp
  next
    case False
    then have "uint w div 2 ^ 63 = 1" using w by (intro int_div_pos_eq [of _ _ 1 "uint w - 2 ^ 63"]) simp_all
    then show ?thesis using False by simp
  qed
  also have "\<dots> \<longleftrightarrow> unat w < 2 ^ 63" using w(2) by (simp add: unat_eq_nat_uint nat_less_iff del: nat_uint_eq)
  finally show ?thesis .
qed

lemma unat_max64: "unat (- 1 :: u64) = 18446744073709551615"
  by (simp add: unsigned_minus_1_eq_mask mask_eq_exp_minus_1)

lemma saturating_add: "unat (time_add_ns_saturating a b) = min (unat a + unat b) (2 ^ 64 - 1)"
proof -
  have m: "unat (- 1 - a) = 18446744073709551615 - unat a" by (simp add: unat_max64 unat_sub)
  show ?thesis
  proof (cases "- 1 - a < b")
    case True
    then show ?thesis using m by (simp add: time_add_ns_saturating_def word_less_nat_alt unat_max64)
  next
    case False
    then have "unat a + unat b < 18446744073709551616" using m unat_bound64 [of a] unfolding word_less_nat_alt by linarith
    then show ?thesis using False by (simp add: time_add_ns_saturating_def unat_word_ariths)
  qed
qed

lemma timespec_ns:
  assumes "0 \<le> sec" "sec < 2 ^ 63"
  shows "unat (if - 1 div NSEC_PER_SEC < (of_int sec :: u64) then - 1 else of_int sec * NSEC_PER_SEC)
    = (if 18446744073 < sec then 2 ^ 64 - 1 else nat sec * 1000000000)"
proof -
  have u: "unat (of_int sec :: u64) = nat sec" using assms by (simp add: unat_eq_nat_uint uint_word_of_int_eq take_bit_eq_mod)
  have d: "unat (- 1 div NSEC_PER_SEC) = 18446744073" by (simp add: unat_div_distrib unat_max64)
  have c: "(- 1 div NSEC_PER_SEC < (of_int sec :: u64)) = (18446744073 < sec)"
    unfolding word_less_nat_alt u d using assms(1) by linarith
  show ?thesis
  proof (cases "18446744073 < sec")
    case True
    then show ?thesis unfolding c by (simp add: unat_max64)
  next
    case False
    then have "nat sec * 1000000000 < 2 ^ 64" by simp
    then show ?thesis using False u unfolding c by (simp add: unat_word_ariths)
  qed
qed

text \<open>The deadline that a timeout of \<open>d\<close> nanoseconds gets.\<close>

lemma timespec_deadline:
  assumes "0 \<le> sec" "sec < 2 ^ 63" "0 \<le> nsec" "nsec < 1000000000"
  shows "\<exists>tm. time_timeout_after_timespec sec nsec p t = Inr tm \<and> finite_timeout tm
    \<and> unat (deadline_ns tm) = min (unat (time_monotonic_ns p t) + (nat sec * 1000000000 + nat nsec)) (2 ^ 64 - 1)"
proof -
  let ?s = "if - 1 div NSEC_PER_SEC < (of_int sec :: u64) then - 1 else of_int sec * NSEC_PER_SEC"
  have n: "unat (of_int nsec :: u64) = nat nsec" using assms(3,4) by (simp add: unat_eq_nat_uint uint_word_of_int_eq take_bit_eq_mod del: nat_uint_eq)
  have "unat (time_add_ns_saturating ?s (of_int nsec)) = min (nat sec * 1000000000 + nat nsec) (2 ^ 64 - 1)"
    unfolding saturating_add timespec_ns [OF assms(1,2)] n using assms(1,3) by (simp add: min_def) linarith
  then have "unat (time_add_ns_saturating (time_monotonic_ns p t) (time_add_ns_saturating ?s (of_int nsec)))
      = min (unat (time_monotonic_ns p t) + (nat sec * 1000000000 + nat nsec)) (2 ^ 64 - 1)"
    unfolding saturating_add by (simp add: min_def)
  then show ?thesis using assms by (simp add: time_timeout_after_timespec_def Let_def)
qed

text \<open>C32.  A timeout set at one moment and tested at a later one.  While clock and deadline stay below \<open>2\<^sup>63\<close> nanoseconds (292 years)
  the timeout has expired exactly when the clock has reached the deadline.  A timeout of more than \<open>2\<^sup>63\<close> nanoseconds, which
  the code saturates rather than refuses, has expired at once: the difference of clock and deadline is tested as a signed
  number.\<close>

theorem time_timeout_expires:
  assumes "0 \<le> sec" "sec < 2 ^ 63" "0 \<le> nsec" "nsec < 1000000000"
    and "unat (time_monotonic_ns p t) < 2 ^ 62" "unat (time_monotonic_ns p' t') < 2 ^ 63"
  shows "\<exists>tm. time_timeout_after_timespec sec nsec p t = Inr tm
    \<and> (unat (time_monotonic_ns p t) + (nat sec * 1000000000 + nat nsec) < 2 ^ 63 \<longrightarrow>
         (time_timeout_expired tm p' t' \<longleftrightarrow> unat (time_monotonic_ns p t) + (nat sec * 1000000000 + nat nsec) \<le> unat (time_monotonic_ns p' t')))
    \<and> (9223372037 \<le> sec \<longrightarrow> time_timeout_expired tm p t)"
proof -
  let ?d = "nat sec * 1000000000 + nat nsec" and ?n = "time_monotonic_ns p t" and ?n' = "time_monotonic_ns p' t'"
  obtain tm where tm: "time_timeout_after_timespec sec nsec p t = Inr tm" "finite_timeout tm"
      "unat (deadline_ns tm) = min (unat ?n + ?d) (2 ^ 64 - 1)"
    using timespec_deadline [OF assms(1-4), of p t] by blast
  have e: "time_timeout_expired tm q u \<longleftrightarrow> unat (time_monotonic_ns q u - deadline_ns tm) < 2 ^ 63" for q u
    using tm(2) by (simp only: time_timeout_expired_def sint_nonneg) simp
  have sub: "unat (a - b) = (if unat b \<le> unat a then unat a - unat b else unat a + 2 ^ 64 - unat b)" for a b :: u64
    by (simp add: unat_sub_if')
  have near: "time_timeout_expired tm p' t' \<longleftrightarrow> unat ?n + ?d \<le> unat ?n'" if l: "unat ?n + ?d < 2 ^ 63"
  proof -
    have "unat (deadline_ns tm) = unat ?n + ?d" using tm(3) l by simp
    then show ?thesis unfolding e sub using l assms(6) by auto
  qed
  have far: "time_timeout_expired tm p t" if "9223372037 \<le> sec"
  proof -
    have "9223372037000000000 \<le> ?d" using that by simp
    then have "unat (deadline_ns tm) \<ge> unat ?n + 9223372037000000000" using tm(3) assms(5) by simp
    moreover have "unat (deadline_ns tm) < 2 ^ 64" by simp
    ultimately show ?thesis unfolding e sub using assms(5) by auto
  qed
  show ?thesis using tm(1) near far by blast
qed

definition sample_pit :: "u64 \<Rightarrow> pit" where
  "sample_pit n = \<lparr>pit_init_done = True, pit_tick_count = n, pit_hz = 1000, pit_divisor = 1193\<rparr>"

theorem time_timeout_expires_witness:
  "(\<exists>tm. time_timeout_after_timespec 2 0 (sample_pit 0) (time_init (sample_pit 0)) = Inr tm
     \<and> (time_timeout_expired tm (sample_pit 2000) (time_init (sample_pit 0)) \<longleftrightarrow> True))
   \<and> (\<exists>tm. time_timeout_after_timespec 10000000000 0 (sample_pit 0) (time_init (sample_pit 0)) = Inr tm
     \<and> time_timeout_expired tm (sample_pit 0) (time_init (sample_pit 0)))"
proof -
  let ?t = "time_init (sample_pit 0)"
  have c: "time_monotonic_ns (sample_pit 0) ?t = 0" "time_monotonic_ns (sample_pit 2000) ?t = 2000000000"
    by (simp_all add: time_monotonic_ns_def sample_pit_def time_init_def Let_def)
  then show ?thesis
    using time_timeout_expires [of 2 0 "sample_pit 0" ?t "sample_pit 2000" ?t] time_timeout_expires [of 10000000000 0 "sample_pit 0" ?t "sample_pit 2000" ?t]
    by auto
qed

section \<open>Limits of the clocks\<close>

text \<open>The monotonic clock multiplies the tick count before it divides: at 1000 Hz it falls back to the start after
  18446744073 ticks, 213 days.\<close>

lemma time_monotonic_wraps:
  "time_monotonic_ns (sample_pit 18446744074) (time_init (sample_pit 0)) = 290448"
  "time_monotonic_ns (sample_pit 18446744073) (time_init (sample_pit 0)) = 18446744073000000"
  by (simp_all add: time_monotonic_ns_def sample_pit_def time_init_def Let_def)

text \<open>A clock in twelve hour mode: 12 PM, noon, is read as hour 0, and 12 AM, midnight, as hour 12.\<close>

lemma rtc_twelve_hour_mode:
  defines "noon \<equiv> \<lparr>rtc_sec = 0, rtc_min = 0, rtc_hour = 0x92, rtc_day = 1, rtc_month = 1, rtc_year = 0x26\<rparr>"
  shows "map_sum id d_hour (rtc_read_consistent noon noon 0) = Inr 0"
    "map_sum id d_hour (rtc_read_consistent (noon\<lparr>rtc_hour := 0x12\<rparr>) (noon\<lparr>rtc_hour := 0x12\<rparr>) 0) = Inr 12"
  by (simp_all add: noon_def rtc_read_consistent_def rtc_binary_def bcd_to_bin_def drop_bit_eq_div Let_def)

end
