(* ===== verification/InitScript.thy ===== *)
theory InitScript
  imports Prelude
begin

text \<open>
  The language of start-up scripts, \<open>src/init/src/lexer.c\<close> and \<open>src/init/src/parser.c\<close>.  A source is the bytes of a file; reading at
  or behind a zero byte, or behind the last byte, gives the terminator.  The lexer keeps the rest of its source where the
  code keeps a position.  The outcomes of the allocations are a list \<open>mem\<close> of flags, in order; an exhausted list is success.
\<close>

section \<open>Lexer\<close>

abbreviation (input) MAX_ARGS :: nat where "MAX_ARGS \<equiv> 32"
abbreviation (input) MAX_TOKEN :: nat where "MAX_TOKEN \<equiv> 256"
abbreviation (input) NUL :: char where "NUL \<equiv> CHR 0x00"

datatype token_type = TOK_EOF | TOK_WORD | TOK_NEWLINE | TOK_SEMICOLON | TOK_ERROR

record token =
  tok_type :: token_type
  tok_text :: string
  tok_line :: nat
  tok_column :: nat

record lexer =
  lx_rest :: string
  lx_line :: nat
  lx_column :: nat
  lx_error :: string

definition lx_peek :: "lexer \<Rightarrow> char" where
  "lx_peek lx = (case lx_rest lx of [] \<Rightarrow> NUL | c # _ \<Rightarrow> c)"

definition lx_get :: "lexer \<Rightarrow> char \<times> lexer" where
  "lx_get lx =
     (case lx_rest lx of
        [] \<Rightarrow> (NUL, lx)
      | c # r \<Rightarrow>
          if c = NUL then (NUL, lx)
          else if c = CHR 0x0A then (c, lx\<lparr>lx_rest := r, lx_line := lx_line lx + 1, lx_column := 1\<rparr>)
          else (c, lx\<lparr>lx_rest := r, lx_column := lx_column lx + 1\<rparr>))"

definition token_set_error :: "token \<Rightarrow> lexer \<Rightarrow> string \<Rightarrow> token \<times> lexer" where
  "token_set_error tok lx msg =
     (tok\<lparr>tok_type := TOK_ERROR, tok_line := lx_line lx, tok_column := lx_column lx, tok_text := msg\<rparr>, lx\<lparr>lx_error := msg\<rparr>)"

definition lexer_init :: "string \<Rightarrow> lexer" where
  "lexer_init src = \<lparr>lx_rest = src, lx_line = 1, lx_column = 1, lx_error = []\<rparr>"

lemma lx_get_shorter [termination_simp]: "lx_peek lx \<noteq> NUL \<Longrightarrow> length (lx_rest (snd (lx_get lx))) < length (lx_rest lx)"
  by (auto simp: lx_peek_def lx_get_def split: list.split)

lemma lx_get_no_longer: "length (lx_rest (snd (lx_get lx))) \<le> length (lx_rest lx)"
  by (auto simp: lx_get_def split: list.split)

definition blank :: "char \<Rightarrow> bool" where
  "blank c \<longleftrightarrow> c = CHR 0x20 \<or> c = CHR 0x09 \<or> c = CHR 0x0D"

text \<open>The loop that skips blanks and comments; \<open>comment\<close> says that it is in the inner loop.\<close>

function lexer_skip :: "bool \<Rightarrow> lexer \<Rightarrow> lexer" where
  "lexer_skip comment lx =
     (let c = lx_peek lx in
      if c = NUL then lx
      else if comment then (if c \<noteq> CHR 0x0A then lexer_skip True (snd (lx_get lx)) else lx)
      else if blank c then lexer_skip False (snd (lx_get lx))
      else if c = CHR ''#'' then lexer_skip True (snd (lx_get lx))
      else lx)"
  by pat_completeness auto
termination by (relation "measure (\<lambda>(b, lx). length (lx_rest lx))") (auto intro: lx_get_shorter)

text \<open>The loop that reads a word, with the inner loops for the two kinds of quotes; \<open>out\<close> is the text so far.\<close>

datatype quoting = Unquoted | Single | Double

definition escaped :: "char \<Rightarrow> char" where
  "escaped c = (if c = CHR ''n'' then CHR 0x0A else if c = CHR ''t'' then CHR 0x09 else c)"

function lexer_word :: "quoting \<Rightarrow> token \<Rightarrow> string \<Rightarrow> lexer \<Rightarrow> token \<times> lexer" where
  "lexer_word q tok out lx =
     (let c = lx_peek lx; full = length out + 1 \<ge> MAX_TOKEN; lx' = snd (lx_get lx) in
      case q of
        Unquoted \<Rightarrow>
          if c = NUL \<or> blank c \<or> c = CHR 0x0A \<or> c = CHR '';'' \<or> c = CHR ''#'' then (tok\<lparr>tok_text := out\<rparr>, lx)
          else if full then token_set_error tok lx ''token too long''
          else if c = CHR 0x27 then lexer_word Single tok out lx'
          else if c = CHR 0x22 then lexer_word Double tok out lx'
          else if c = CHR 0x5C then
            (let (d, lx'') = lx_get lx' in
             if d = NUL then token_set_error tok lx'' ''unterminated escape''
             else lexer_word Unquoted tok (out @ [d]) lx'')
          else lexer_word Unquoted tok (out @ [c]) lx'
      | Single \<Rightarrow>
          if c = NUL then token_set_error tok lx ''unterminated single quote''
          else if c = CHR 0x27 then lexer_word Unquoted tok out lx'
          else if full then token_set_error tok lx ''token too long''
          else lexer_word Single tok (out @ [c]) lx'
      | Double \<Rightarrow>
          if c = NUL then token_set_error tok lx ''unterminated double quote''
          else if c = CHR 0x22 then lexer_word Unquoted tok out lx'
          else if c = CHR 0x5C then
            (let (d, lx'') = lx_get lx' in
             if d = NUL then token_set_error tok lx'' ''unterminated escape''
             else if full then token_set_error tok lx'' ''token too long''
             else lexer_word Double tok (out @ [escaped d]) lx'')
          else if full then token_set_error tok lx' ''token too long''
          else lexer_word Double tok (out @ [c]) lx')"
  by pat_completeness auto
termination
  by (relation "measure (\<lambda>(q, tok, out, lx). length (lx_rest lx))")
     (auto simp: lx_get_shorter intro: le_less_trans [OF lx_get_no_longer lx_get_shorter] dest!: arg_cong [where f = snd]
       | metis lx_get_shorter lx_get_no_longer le_less_trans snd_conv)+

definition lexer_next :: "lexer \<Rightarrow> token \<times> lexer" where
  "lexer_next lx =
     (let lx = lexer_skip False lx;
          tok = \<lparr>tok_type = TOK_EOF, tok_text = [], tok_line = lx_line lx, tok_column = lx_column lx\<rparr> in
      if lx_peek lx = NUL then (tok, lx)
      else if lx_peek lx = CHR 0x0A then (tok\<lparr>tok_type := TOK_NEWLINE\<rparr>, snd (lx_get lx))
      else if lx_peek lx = CHR '';'' then (tok\<lparr>tok_type := TOK_SEMICOLON\<rparr>, snd (lx_get lx))
      else lexer_word Unquoted (tok\<lparr>tok_type := TOK_WORD\<rparr>) [] lx)"

declare lexer_skip.simps [simp del] lexer_word.simps [simp del]

lemma lexer_skip_no_longer: "length (lx_rest (lexer_skip b lx)) \<le> length (lx_rest lx)"
proof (induction "length (lx_rest lx)" arbitrary: b lx rule: less_induct)
  case less
  have "length (lx_rest (lexer_skip b' (snd (lx_get lx)))) \<le> length (lx_rest lx)" if "lx_peek lx \<noteq> NUL" for b'
    using less [OF lx_get_shorter [OF that], of b'] lx_get_no_longer [of lx] by simp
  then show ?case by (subst lexer_skip.simps) (simp add: Let_def)
qed

lemma token_set_error_rest [simp]: "lx_rest (snd (token_set_error tok lx msg)) = lx_rest lx"
  by (simp add: token_set_error_def)

lemma lexer_word_no_longer: "length (lx_rest (snd (lexer_word q tok out lx))) \<le> length (lx_rest lx)"
proof (induction "length (lx_rest lx)" arbitrary: q out lx rule: less_induct)
  case less
  have g: "length (lx_rest (snd (lx_get lx))) \<le> length (lx_rest lx)" by (rule lx_get_no_longer)
  have h: "length (lx_rest x) \<le> length (lx_rest lx)" if "lx_get (snd (lx_get lx)) = (d, x)" for d x
    using lx_get_no_longer [of "snd (lx_get lx)"] that g by simp
  have a: "length (lx_rest (snd (lexer_word q tok out (snd (lx_get lx))))) \<le> length (lx_rest lx)" if "lx_peek lx \<noteq> NUL" for q out
    using less [OF lx_get_shorter [OF that], of q out] g by simp
  have b: "length (lx_rest (snd (lexer_word q tok out x))) \<le> length (lx_rest lx)"
    if "lx_peek lx \<noteq> NUL" "lx_get (snd (lx_get lx)) = (d, x)" for q out d x
  proof -
    have "length (lx_rest x) < length (lx_rest lx)"
      using lx_get_no_longer [of "snd (lx_get lx)"] lx_get_shorter [OF that(1)] that(2) by simp
    from less [OF this, of q out] this show ?thesis by simp
  qed
  show ?case by (cases q; subst lexer_word.simps) (simp_all add: Let_def g a b h split: prod.split)
qed

lemma lexer_skip_stops: "\<not> blank (lx_peek (lexer_skip b lx)) \<and> lx_peek (lexer_skip b lx) \<noteq> CHR ''#''"
proof (induction "length (lx_rest lx)" arbitrary: b lx rule: less_induct)
  case less
  note IH = less [OF lx_get_shorter]
  have "\<not> blank NUL" "\<not> blank (CHR 0x0A)" by (simp_all add: blank_def)
  then show ?case using IH by (subst (1 2) lexer_skip.simps) (simp add: Let_def)
qed

lemma lexer_next_shorter:
  assumes "lexer_next lx = (tok, lx')" "tok_type tok \<noteq> TOK_EOF" "tok_type tok \<noteq> TOK_ERROR"
  shows "length (lx_rest lx') < length (lx_rest lx)"
proof -
  define s where "s = lexer_skip False lx"
  have le: "length (lx_rest s) \<le> length (lx_rest lx)" by (simp add: s_def lexer_skip_no_longer)
  have ne: "lx_peek s \<noteq> NUL" using assms by (auto simp: lexer_next_def Let_def s_def)
  note sh = lx_get_shorter [OF ne]
  have w: "length (lx_rest (snd (lexer_word q t out (snd (lx_get s))))) < length (lx_rest s)" for q t out
    using lexer_word_no_longer [of q t out "snd (lx_get s)"] sh by simp
  have w2: "length (lx_rest (snd (lexer_word q t out x))) < length (lx_rest s)" if "lx_get (snd (lx_get s)) = (d, x)" for q t out d x
    using lexer_word_no_longer [of q t out x] lx_get_no_longer [of "snd (lx_get s)"] that sh by simp
  have w3: "length (lx_rest (snd (token_set_error t x msg))) < length (lx_rest s)" if "lx_get (snd (lx_get s)) = (d, x)" for t d x msg
    using lx_get_no_longer [of "snd (lx_get s)"] that sh by simp
  have stop: "\<not> blank (lx_peek s)" "lx_peek s \<noteq> CHR ''#''" using lexer_skip_stops [of False lx] by (simp_all add: s_def)
  have word: "length (lx_rest (snd (lexer_word Unquoted t [] s))) < length (lx_rest s)"
    if "lx_peek s \<noteq> CHR 0x0A" "lx_peek s \<noteq> CHR '';''" for t
    by (subst lexer_word.simps) (simp add: Let_def ne stop that w w2 w3 del: token_set_error_rest split: prod.split)
  have "lx' = snd (lexer_next lx)" using assms(1) by simp
  also have "length (lx_rest \<dots>) < length (lx_rest s)"
    unfolding lexer_next_def s_def [symmetric] Let_def using ne sh word by simp
  finally show ?thesis using le by simp
qed

section \<open>Parser\<close>

record command =
  argv :: "string list"
  cmd_line :: nat

record script =
  commands :: "command list"
  capacity :: nat

definition no_command :: command where
  "no_command = \<lparr>argv = [], cmd_line = 0\<rparr>"

definition script_init :: script where
  "script_init = \<lparr>commands = [], capacity = 0\<rparr>"

definition allocate :: "bool list \<Rightarrow> bool \<times> bool list" where
  "allocate mem = (case mem of [] \<Rightarrow> (True, []) | b # mem \<Rightarrow> (b, mem))"

definition script_add_command :: "command \<Rightarrow> script \<Rightarrow> bool list \<Rightarrow> (script \<times> command) option \<times> bool list" where
  "script_add_command cmd s mem =
     (if argv cmd = [] then (Some (s, cmd), mem)
      else let push = (\<lambda>s. Some (s\<lparr>commands := commands s @ [cmd]\<rparr>, no_command)) in
        if length (commands s) = capacity s
        then let (ok, mem) = allocate mem in
          (if ok then push (s\<lparr>capacity := (if capacity s \<noteq> 0 then capacity s * 2 else 16)\<rparr>) else None, mem)
        else (push s, mem))"

definition command_add_arg :: "string \<Rightarrow> command \<Rightarrow> bool list \<Rightarrow> command option \<times> bool list" where
  "command_add_arg arg cmd mem =
     (if length (argv cmd) \<ge> MAX_ARGS - 1 then (None, mem)
      else let (ok, mem) = allocate mem in (if ok then Some (cmd\<lparr>argv := argv cmd @ [arg]\<rparr>) else None, mem))"

text \<open>The loop of \<open>parse_source\<close>.  The result is the return value, \<open>True\<close> for \<open>0\<close>, the commands found, also in case of an error,
  and the allocations that are left.\<close>

function parse_loop :: "lexer \<Rightarrow> command \<Rightarrow> script \<Rightarrow> bool list \<Rightarrow> bool \<times> script \<times> bool list" where
  "parse_loop lx current s mem =
     (let (tok, lx') = lexer_next lx in
      if tok_type tok = TOK_EOF
      then (case script_add_command current s mem of (None, mem) \<Rightarrow> (False, s, mem) | (Some (s, _), mem) \<Rightarrow> (True, s, mem))
      else if tok_type tok = TOK_ERROR then (False, s, mem)
      else if tok_type tok = TOK_WORD
      then (case command_add_arg (tok_text tok) (if argv current = [] then current\<lparr>cmd_line := tok_line tok\<rparr> else current) mem of
              (None, mem) \<Rightarrow> (False, s, mem)
            | (Some current, mem) \<Rightarrow> parse_loop lx' current s mem)
      else (case script_add_command current s mem of
              (None, mem) \<Rightarrow> (False, s, mem)
            | (Some (s, current), mem) \<Rightarrow> parse_loop lx' current s mem))"
  by pat_completeness auto
termination
  by (relation "measure (\<lambda>(lx, current, s, mem). length (lx_rest lx))") (auto intro!: lexer_next_shorter dest!: sym [of _ "lexer_next _"])

declare parse_loop.simps [simp del]

definition parse_source :: "string \<Rightarrow> script \<Rightarrow> bool list \<Rightarrow> bool \<times> script \<times> bool list" where
  "parse_source src s mem = parse_loop (lexer_init src) no_command s mem"

section \<open>Writing a script and reading it back\<close>

text \<open>A word in double quotes with the two special characters escaped, a command as a line of such words.\<close>

definition quote_char :: "char \<Rightarrow> string" where
  "quote_char c = (if c = CHR 0x22 \<or> c = CHR 0x5C then [CHR 0x5C, c] else [c])"

definition quote_word :: "string \<Rightarrow> string" where
  "quote_word w = [CHR 0x22] @ concat (map quote_char w) @ [CHR 0x22]"

definition print_command :: "string list \<Rightarrow> string" where
  "print_command ws = concat (map (\<lambda>w. CHR 0x20 # quote_word w) ws) @ [CHR 0x0A]"

definition print_script :: "string list list \<Rightarrow> string" where
  "print_script cs = concat (map print_command cs)"

definition newlines :: "string \<Rightarrow> nat" where
  "newlines w = length (filter (\<lambda>c. c = CHR 0x0A) w)"

primrec number_lines :: "nat \<Rightarrow> string list list \<Rightarrow> command list" where
  "number_lines l [] = []"
| "number_lines l (ws # cs) = \<lparr>argv = ws, cmd_line = l\<rparr> # number_lines (l + newlines (concat ws) + 1) cs"

lemma newlines_simps [simp]: "newlines [] = 0" "newlines (c # w) = (if c = CHR 0x0A then 1 else 0) + newlines w"
  "newlines (v @ w) = newlines v + newlines w"
  by (simp_all add: newlines_def)

lemma lx_peek_Cons [simp]: "lx_rest lx = c # r \<Longrightarrow> lx_peek lx = c"
  by (simp add: lx_peek_def)

lemma lx_get_Cons [simp]:
  assumes "lx_rest lx = c # r" "c \<noteq> NUL"
  shows "fst (lx_get lx) = c" "lx_rest (snd (lx_get lx)) = r"
    "lx_line (snd (lx_get lx)) = (if c = CHR 0x0A then 1 else 0) + lx_line lx"
  using assms by (simp_all add: lx_get_def)

lemma lexer_word_quoted:
  assumes "lx_rest lx = concat (map quote_char w) @ CHR 0x22 # r" "length out + length w < MAX_TOKEN" "NUL \<notin> set w"
  shows "\<exists>lx'. lexer_word Double tok out lx = lexer_word Unquoted tok (out @ w) lx' \<and> lx_rest lx' = r
    \<and> lx_line lx' = newlines w + lx_line lx"
  using assms
proof (induction w arbitrary: out lx)
  case Nil
  then have "lexer_word Double tok out lx = lexer_word Unquoted tok out (snd (lx_get lx))" by (subst lexer_word.simps) (simp add: Let_def)
  then show ?case using Nil by (intro exI [of _ "snd (lx_get lx)"]) simp
next
  case (Cons c w)
  define lx' where "lx' = (if c = CHR 0x22 \<or> c = CHR 0x5C then snd (lx_get (snd (lx_get lx))) else snd (lx_get lx))"
  have r: "lx_rest lx' = concat (map quote_char w) @ CHR 0x22 # r" "lx_line lx' = (if c = CHR 0x0A then 1 else 0) + lx_line lx"
    using Cons.prems(1,3) by (auto simp: lx'_def quote_char_def [of c] split: if_splits)
  have "lexer_word Double tok out lx = lexer_word Double tok (out @ [c]) lx'"
  proof (cases "c = CHR 0x22 \<or> c = CHR 0x5C")
    case True
    then have "lx_get (snd (lx_get lx)) = (c, lx')"
      using Cons.prems(1,3) by (intro prod_eqI) (auto simp: lx'_def quote_char_def [of c])
    moreover have "escaped c = c" using True by (auto simp: escaped_def)
    ultimately show ?thesis using True Cons.prems by (subst lexer_word.simps) (auto simp: Let_def quote_char_def [of c])
  next
    case False
    then show ?thesis using Cons.prems by (subst lexer_word.simps) (auto simp: Let_def quote_char_def [of c] lx'_def)
  qed
  moreover obtain lx'' where "lexer_word Double tok (out @ [c]) lx' = lexer_word Unquoted tok ((out @ [c]) @ w) lx''" "lx_rest lx'' = r"
      "lx_line lx'' = newlines w + lx_line lx'"
    using Cons.IH [OF r(1), of "out @ [c]"] Cons.prems by auto
  ultimately show ?case using r(2) by (intro exI [of _ lx'']) simp
qed

lemma lexer_next_quoted:
  assumes "lx_rest lx = CHR 0x20 # quote_word w @ d # r" "length w < MAX_TOKEN" "NUL \<notin> set w" "d = CHR 0x20 \<or> d = CHR 0x0A"
  shows "\<exists>tok lx'. lexer_next lx = (tok, lx') \<and> tok_type tok = TOK_WORD \<and> tok_text tok = w \<and> tok_line tok = lx_line lx
    \<and> lx_rest lx' = d # r \<and> lx_line lx' = newlines w + lx_line lx"
proof -
  let ?a = "snd (lx_get lx)"
  let ?b = "snd (lx_get ?a)"
  let ?tok = "\<lparr>tok_type = TOK_WORD, tok_text = [], tok_line = lx_line ?a, tok_column = lx_column ?a\<rparr>"
  have a: "lx_rest ?a = CHR 0x22 # concat (map quote_char w) @ CHR 0x22 # d # r" "lx_line ?a = lx_line lx"
    using assms(1) by (simp_all add: quote_word_def)
  then have b: "lx_rest ?b = concat (map quote_char w) @ CHR 0x22 # d # r" "lx_line ?b = lx_line lx" by simp_all
  have "lexer_skip False ?a = ?a" using a(1) by (subst lexer_skip.simps) (simp add: blank_def Let_def)
  then have s: "lexer_skip False lx = ?a" using assms(1) by (subst lexer_skip.simps) (simp add: blank_def Let_def)
  have "lexer_word Unquoted ?tok [] ?a = lexer_word Double ?tok [] ?b" using a(1) by (subst lexer_word.simps) (simp add: blank_def Let_def)
  moreover obtain lx' where l: "lexer_word Double ?tok [] ?b = lexer_word Unquoted ?tok w lx'" "lx_rest lx' = d # r" "lx_line lx' = newlines w + lx_line ?b"
    using lexer_word_quoted [OF b(1), of "[]" ?tok] assms(2,3) by auto
  moreover have "lexer_word Unquoted ?tok w lx' = (?tok\<lparr>tok_text := w\<rparr>, lx')"
    using l(2) assms(4) by (subst lexer_word.simps) (auto simp: blank_def Let_def)
  ultimately have "lexer_next lx = (?tok\<lparr>tok_text := w\<rparr>, lx')" using a(1) by (simp add: lexer_next_def s Let_def)
  then show ?thesis using l(2,3) a(2) b(2) by simp
qed

lemma lexer_next_newline:
  assumes "lx_rest lx = CHR 0x0A # r"
  shows "\<exists>tok lx'. lexer_next lx = (tok, lx') \<and> tok_type tok = TOK_NEWLINE \<and> lx_rest lx' = r \<and> lx_line lx' = lx_line lx + 1"
proof -
  have "lexer_skip False lx = lx" using assms by (subst lexer_skip.simps) (simp add: blank_def Let_def)
  then show ?thesis using assms by (simp add: lexer_next_def Let_def)
qed

lemma parse_words:
  assumes "lx_rest lx = concat (map (\<lambda>w. CHR 0x20 # quote_word w) ws) @ CHR 0x0A # r" "length (argv cur) + length ws < MAX_ARGS"
    and "\<forall>w\<in>set ws. length w < MAX_TOKEN \<and> NUL \<notin> set w"
  shows "\<exists>lx'. parse_loop lx cur s [] = parse_loop lx' \<lparr>argv = argv cur @ ws, cmd_line = (if argv cur = [] \<and> ws \<noteq> [] then lx_line lx else cmd_line cur)\<rparr> s []
    \<and> lx_rest lx' = CHR 0x0A # r \<and> lx_line lx' = newlines (concat ws) + lx_line lx"
  using assms
proof (induction ws arbitrary: lx cur)
  case Nil
  then show ?case by (intro exI [of _ lx]) (cases cur, simp)
next
  case (Cons w ws)
  define rest where "rest = concat (map (\<lambda>w. CHR 0x20 # quote_word w) ws) @ CHR 0x0A # r"
  obtain d t where d: "rest = d # t" "d = CHR 0x20 \<or> d = CHR 0x0A" by (cases ws) (auto simp: rest_def)
  have "lx_rest lx = CHR 0x20 # quote_word w @ d # t" using Cons.prems(1) d(1) by (simp add: rest_def)
  from lexer_next_quoted [OF this _ _ d(2)] obtain tok lx' where t: "lexer_next lx = (tok, lx')" "tok_type tok = TOK_WORD" "tok_text tok = w"
      "tok_line tok = lx_line lx" "lx_rest lx' = rest" "lx_line lx' = newlines w + lx_line lx"
    using Cons.prems(3) d(1) by auto
  let ?cur = "\<lparr>argv = argv cur @ [w], cmd_line = (if argv cur = [] then lx_line lx else cmd_line cur)\<rparr>"
  have "parse_loop lx cur s [] = parse_loop lx' ?cur s []"
    using t(1-4) Cons.prems(2) by (subst parse_loop.simps, cases cur) (auto simp: command_add_arg_def allocate_def)
  then show ?case using Cons.IH [of lx' ?cur] t(5,6) Cons.prems(2,3) by (auto simp: rest_def)
qed

lemma script_add_ok:
  assumes "argv cur \<noteq> []"
  shows "\<exists>cap. script_add_command cur s [] = (Some (\<lparr>commands = commands s @ [cur], capacity = cap\<rparr>, no_command), [])"
  using assms by (cases s) (simp add: script_add_command_def allocate_def)

lemma parse_commands:
  assumes "lx_rest lx = print_script cs" "\<forall>ws\<in>set cs. ws \<noteq> [] \<and> length ws < MAX_ARGS \<and> (\<forall>w\<in>set ws. length w < MAX_TOKEN \<and> NUL \<notin> set w)"
  shows "\<exists>cap. parse_loop lx no_command s [] = (True, \<lparr>commands = commands s @ number_lines (lx_line lx) cs, capacity = cap\<rparr>, [])"
  using assms
proof (induction cs arbitrary: lx s)
  case Nil
  then have "lx_peek lx = NUL" by (simp add: print_script_def lx_peek_def)
  then have "lexer_skip False lx = lx" by (subst lexer_skip.simps) (simp add: Let_def)
  then have "\<exists>tok. lexer_next lx = (tok, lx) \<and> tok_type tok = TOK_EOF" using \<open>lx_peek lx = NUL\<close> by (simp add: lexer_next_def Let_def)
  then show ?case by (subst parse_loop.simps) (auto simp: script_add_command_def no_command_def intro: exI [of _ "capacity s"])
next
  case (Cons ws cs)
  have r: "lx_rest lx = concat (map (\<lambda>w. CHR 0x20 # quote_word w) ws) @ CHR 0x0A # print_script cs"
    using Cons.prems(1) by (simp add: print_script_def print_command_def)
  have ws: "ws \<noteq> []" "length ws < MAX_ARGS" "\<forall>w\<in>set ws. length w < MAX_TOKEN \<and> NUL \<notin> set w" using Cons.prems(2) by simp_all
  let ?cmd = "\<lparr>argv = ws, cmd_line = lx_line lx\<rparr>"
  obtain lx1 where l1: "parse_loop lx no_command s [] = parse_loop lx1 ?cmd s []" "lx_rest lx1 = CHR 0x0A # print_script cs"
      "lx_line lx1 = newlines (concat ws) + lx_line lx"
    using parse_words [OF r, of no_command s] ws by (auto simp: no_command_def)
  obtain tok lx2 where l2: "lexer_next lx1 = (tok, lx2)" "tok_type tok = TOK_NEWLINE" "lx_rest lx2 = print_script cs" "lx_line lx2 = lx_line lx1 + 1"
    using lexer_next_newline [OF l1(2)] by blast
  obtain cap where cap: "script_add_command ?cmd s [] = (Some (\<lparr>commands = commands s @ [?cmd], capacity = cap\<rparr>, no_command), [])"
    using script_add_ok [of ?cmd s] ws(1) by auto
  have "parse_loop lx1 ?cmd s [] = parse_loop lx2 no_command \<lparr>commands = commands s @ [?cmd], capacity = cap\<rparr> []"
    by (subst parse_loop.simps) (simp add: l2(1,2) cap)
  then show ?case using Cons.IH [OF l2(3), of "\<lparr>commands = commands s @ [?cmd], capacity = cap\<rparr>"] Cons.prems(2) l1(1,3) l2(4)
    by (simp add: add.commute add.left_commute)
qed

text \<open>C29.  Any list of commands can be written as a script and is read back as it was, with the lines on which the commands start: commands of
  one to 31 words, each of at most 255 characters other than the terminator, whatever blanks, quotes or line
  breaks they contain.\<close>

theorem init_script_roundtrip:
  assumes "\<forall>ws\<in>set cs. ws \<noteq> [] \<and> length ws < MAX_ARGS \<and> (\<forall>w\<in>set ws. length w < MAX_TOKEN \<and> NUL \<notin> set w)"
  shows "\<exists>cap. parse_source (print_script cs) script_init [] = (True, \<lparr>commands = number_lines 1 cs, capacity = cap\<rparr>, [])"
  using parse_commands [OF _ assms, of "lexer_init (print_script cs)" script_init]
  by (simp add: parse_source_def lexer_init_def script_init_def)

theorem init_script_roundtrip_witness:
  "\<exists>cap. parse_source (print_script [[''echo'', [CHR 0x22, CHR 0x0A]], [''set'', ''A=b c'']]) script_init []
     = (True, \<lparr>commands = [\<lparr>argv = [''echo'', [CHR 0x22, CHR 0x0A]], cmd_line = 1\<rparr>, \<lparr>argv = [''set'', ''A=b c''], cmd_line = 3\<rparr>], capacity = cap\<rparr>, [])"
  using init_script_roundtrip [of "[[''echo'', [CHR 0x22, CHR 0x0A]], [''set'', ''A=b c'']]"] by (simp add: eval_nat_numeral)

section \<open>Bounds of tokens and commands\<close>

definition word_ok :: "string \<Rightarrow> bool" where
  "word_ok w \<longleftrightarrow> length w < MAX_TOKEN \<and> NUL \<notin> set w"

lemma lx_get_fst: "fst (lx_get lx) = lx_peek lx"
  by (auto simp: lx_get_def lx_peek_def split: list.split)

lemma lexer_word_ok:
  assumes "word_ok out"
  shows "tok_type (fst (lexer_word q tok out lx)) = TOK_ERROR
    \<or> tok_type (fst (lexer_word q tok out lx)) = tok_type tok \<and> word_ok (tok_text (fst (lexer_word q tok out lx)))"
  (is "?P q out lx")
  using assms
proof (induction "length (lx_rest lx)" arbitrary: q out lx rule: less_induct)
  case less
  have err [simp]: "tok_type (fst (token_set_error t x m)) = TOK_ERROR" for t x m by (simp add: token_set_error_def)
  have ext: "word_ok (out @ [d])" if "\<not> length out + 1 \<ge> MAX_TOKEN" "d \<noteq> NUL" for d using that less.prems by (auto simp: word_ok_def)
  have esc: "escaped d \<noteq> NUL" if "d \<noteq> NUL" for d using that by (simp add: escaped_def)
  have a: "?P q' out' (snd (lx_get lx))" if "lx_peek lx \<noteq> NUL" "word_ok out'" for q' out'
    by (rule less.hyps [OF lx_get_shorter [OF that(1)] that(2)])
  have b: "?P q' out' x" if "lx_peek lx \<noteq> NUL" "lx_get (snd (lx_get lx)) = (d, x)" "word_ok out'" for q' out' d x
  proof -
    have "length (lx_rest x) < length (lx_rest lx)"
      using lx_get_no_longer [of "snd (lx_get lx)"] lx_get_shorter [OF that(1)] that(2) by simp
    from less.hyps [OF this that(3)] show ?thesis .
  qed
  show ?case
  proof (cases q)
    case Unquoted
    show ?thesis unfolding Unquoted lexer_word.simps [of Unquoted tok out lx] Let_def
      using a b ext esc less.prems by (simp split: prod.split)
  next
    case Single
    show ?thesis unfolding Single lexer_word.simps [of Single tok out lx] Let_def
      using a b ext esc less.prems by (simp split: prod.split)
  next
    case Double
    show ?thesis unfolding Double lexer_word.simps [of Double tok out lx] Let_def
      using a b ext esc less.prems by (simp split: prod.split)
  qed
qed

lemma lexer_next_ok:
  assumes "lexer_next lx = (tok, lx')" "tok_type tok = TOK_WORD"
  shows "word_ok (tok_text tok)"
proof -
  let ?l = "lexer_skip False lx"
  have "word_ok []" by (simp add: word_ok_def)
  from lexer_word_ok [OF this, of Unquoted "\<lparr>tok_type = TOK_WORD, tok_text = [], tok_line = lx_line ?l, tok_column = lx_column ?l\<rparr>" ?l]
  show ?thesis using assms by (auto simp: lexer_next_def Let_def split: if_splits)
qed

definition args_ok :: "string list \<Rightarrow> bool" where
  "args_ok ws \<longleftrightarrow> length ws < MAX_ARGS \<and> (\<forall>w\<in>set ws. word_ok w)"

definition script_ok :: "script \<Rightarrow> bool" where
  "script_ok s \<longleftrightarrow> length (commands s) \<le> capacity s \<and> (\<forall>c\<in>set (commands s). argv c \<noteq> [] \<and> args_ok (argv c))"

lemma script_add_command_ok:
  assumes "script_add_command cur s mem = (Some (s', cur'), mem')" "script_ok s" "args_ok (argv cur)"
  shows "script_ok s' \<and> args_ok (argv cur')"
  using assms by (auto simp: script_add_command_def script_ok_def args_ok_def no_command_def Let_def split: if_splits prod.splits)

lemma command_add_arg_ok:
  assumes "command_add_arg w cur mem = (Some cur', mem')" "args_ok (argv cur)" "word_ok w"
  shows "args_ok (argv cur')"
  using assms by (auto simp: command_add_arg_def args_ok_def split: if_splits prod.splits)

lemma parse_loop_ok:
  assumes "script_ok s" "args_ok (argv cur)"
  shows "script_ok (fst (snd (parse_loop lx cur s mem)))"
  using assms
proof (induction lx cur s mem rule: parse_loop.induct)
  case (1 lx cur s mem)
  obtain tok lx' where t: "lexer_next lx = (tok, lx')" by fastforce
  obtain a m1 where a: "script_add_command cur s mem = (a, m1)" by fastforce
  let ?c = "if argv cur = [] then cur\<lparr>cmd_line := tok_line tok\<rparr> else cur"
  obtain c m2 where c: "command_add_arg (tok_text tok) ?c mem = (c, m2)" by fastforce
  have a': "script_ok s' \<and> args_ok (argv cur')" if "a = Some (s', cur')" for s' cur'
    using script_add_command_ok a that "1.prems" by blast
  have k: "args_ok (argv ?c)" using "1.prems"(2) by (auto split: if_split)
  have c': "args_ok (argv cur')" if "c = Some cur'" "tok_type tok = TOK_WORD" for cur'
    using command_add_arg_ok [OF _ k lexer_next_ok [OF t that(2)]] c that(1) by blast
  note IH = "1.IH" [OF t [symmetric]]
  show ?case
  proof (cases "tok_type tok")
    case TOK_EOF
    then show ?thesis using t a a' "1.prems" by (subst parse_loop.simps) (auto split: option.split)
  next
    case TOK_ERROR
    then show ?thesis using t "1.prems" by (subst parse_loop.simps) simp
  next
    case TOK_WORD
    then show ?thesis using t c c' IH(1) "1.prems" by (subst parse_loop.simps) (auto split: option.split)
  next
    case TOK_NEWLINE
    then show ?thesis using t a a' IH(2) "1.prems" by (subst parse_loop.simps) (auto split: option.split)
  next
    case TOK_SEMICOLON
    then show ?thesis using t a a' IH(2) "1.prems" by (subst parse_loop.simps) (auto split: option.split)
  qed
qed

text \<open>C13.  Whatever the bytes of the file are and whichever allocations fail, parsing returns, and every command it has stored has at least one and
  at most 31 words of at most 255 characters: the arrays for tokens and arguments, which have one place more
  for their terminators, are never overrun, nor is the array of commands.\<close>

theorem init_parse_bounds:
  "script_ok (fst (snd (parse_source src script_init mem)))"
  unfolding parse_source_def by (rule parse_loop_ok) (simp_all add: script_ok_def script_init_def args_ok_def no_command_def)

end
