(* ===== verification/InitExec.thy ===== *)
theory InitExec
  imports InitScript Bytes
begin

unbundle bit_operations_syntax

text \<open>
  The interpreter of start-up scripts and the main program of init, \<open>src/init/src/exec.c\<close> and \<open>src/init/src/main.c\<close>.

  The system below the C library is a parameter: a record \<open>os\<close> of the calls the program makes, on a world of any type.  An error is
  \<open>Some\<close> of its number, success \<open>None\<close>.  \<open>fork\<close> gets a description of what the child does before it runs its program.  The
  state of the program is \<open>runtime\<close>, with the world and the outcomes of the allocations in it.  Messages on the error
  output are left out.

  A command may never come back: \<open>wait\<close> collects children for ever, a successful \<open>exec\<close> replaces the program, and a wait or a sleep
  that is interrupted again and again does not end.  That is the \<open>stop\<close> side of a result.
\<close>

section \<open>The system\<close>

record child =
  child_home :: "string option"
  child_argv :: "string list"
  child_envp :: "string list"

record 'w os =
  os_mkdir :: "string \<Rightarrow> u32 \<Rightarrow> 'w \<Rightarrow> errno option \<times> 'w"
  os_rmdir :: "string \<Rightarrow> 'w \<Rightarrow> errno option \<times> 'w"
  os_unlink :: "string \<Rightarrow> 'w \<Rightarrow> errno option \<times> 'w"
  os_create :: "string \<Rightarrow> u32 \<Rightarrow> 'w \<Rightarrow> errno option \<times> 'w"
  os_chmod :: "string \<Rightarrow> u32 \<Rightarrow> 'w \<Rightarrow> errno option \<times> 'w"
  os_chown :: "string \<Rightarrow> u32 \<Rightarrow> u32 \<Rightarrow> 'w \<Rightarrow> errno option \<times> 'w"
  os_chdir :: "string \<Rightarrow> 'w \<Rightarrow> errno option \<times> 'w"
  os_getcwd :: "nat \<Rightarrow> 'w \<Rightarrow> errno + string"
  os_mount :: "string \<Rightarrow> string \<Rightarrow> string \<Rightarrow> u64 \<Rightarrow> 'w \<Rightarrow> errno option \<times> 'w"
  os_fork :: "child \<Rightarrow> 'w \<Rightarrow> (errno + int) \<times> 'w"
  os_waitpid :: "int \<Rightarrow> 'w \<Rightarrow> (errno + int \<times> int) \<times> 'w"
  os_execve :: "string list \<Rightarrow> string list \<Rightarrow> 'w \<Rightarrow> errno option \<times> 'w"
  os_sleep :: "u32 \<Rightarrow> 'w \<Rightarrow> u32 \<times> 'w"
  os_read_file :: "string \<Rightarrow> 'w \<Rightarrow> string option \<times> 'w"
  os_read_lines :: "string \<Rightarrow> 'w \<Rightarrow> (string \<times> bool) option \<times> 'w"
  os_send_icmp :: "string \<Rightarrow> octets \<Rightarrow> 'w \<Rightarrow> errno option \<times> 'w"
  os_print :: "string \<Rightarrow> 'w \<Rightarrow> 'w"
  os_getpid :: "'w \<Rightarrow> int"
  os_geteuid :: "'w \<Rightarrow> u32"
  os_getenv :: "string \<Rightarrow> 'w \<Rightarrow> string option"
  os_is_regular :: "string \<Rightarrow> 'w \<Rightarrow> errno + bool"
  os_readable :: "string \<Rightarrow> 'w \<Rightarrow> bool"

record 'w runtime =
  rt_env :: "string list"
  include_depth :: nat
  rt_mem :: "bool list"
  world :: 'w

abbreviation (input) MAX_ENV :: nat where "MAX_ENV \<equiv> 64"
abbreviation (input) MAX_INCLUDE :: nat where "MAX_INCLUDE \<equiv> 8"

datatype stop = Reaping | Became "string list" | Hung | NoFuel

definition runtime_init :: "bool list \<Rightarrow> 'w \<Rightarrow> 'w runtime" where
  "runtime_init mem w = \<lparr>rt_env = [], include_depth = 0, rt_mem = mem, world = w\<rparr>"

definition rt_alloc :: "'w runtime \<Rightarrow> bool \<times> 'w runtime" where
  "rt_alloc rt = (let (ok, mem) = allocate (rt_mem rt) in (ok, rt\<lparr>rt_mem := mem\<rparr>))"

text \<open>A call of the system whose failure makes the command fail.\<close>

definition sys :: "('w \<Rightarrow> errno option \<times> 'w) \<Rightarrow> 'w runtime \<Rightarrow> int \<times> 'w runtime" where
  "sys f rt = (let (e, w) = f (world rt) in (if e = None then 0 else -1, rt\<lparr>world := w\<rparr>))"

definition rt_print :: "'w os \<Rightarrow> string \<Rightarrow> 'w runtime \<Rightarrow> 'w runtime" where
  "rt_print os s rt = rt\<lparr>world := os_print os s (world rt)\<rparr>"

section \<open>Environment variables\<close>

text \<open>\<open>strncmp(var, name, n) == 0 && var[n] == '='\<close> with \<open>n\<close> the length of the name.\<close>

definition var_is :: "string \<Rightarrow> string \<Rightarrow> bool" where
  "var_is name var \<longleftrightarrow> take (length name) var = name \<and> length name < length var \<and> var ! length name = CHR ''=''"

primrec var_index :: "string \<Rightarrow> string list \<Rightarrow> nat option" where
  "var_index name [] = None"
| "var_index name (v # vs) = (if var_is name v then Some 0 else map_option Suc (var_index name vs))"

definition env_set :: "string \<Rightarrow> 'w runtime \<Rightarrow> int \<times> 'w runtime" where
  "env_set a rt =
     (let name = takeWhile (\<lambda>c. c \<noteq> CHR ''='') a in
      if CHR ''='' \<notin> set a \<or> name = [] then (-1, rt)
      else case var_index name (rt_env rt) of
        Some i \<Rightarrow> let (ok, rt) = rt_alloc rt in if ok then (0, rt\<lparr>rt_env := (rt_env rt)[i := a]\<rparr>) else (-1, rt)
      | None \<Rightarrow>
          if length (rt_env rt) \<ge> MAX_ENV then (-1, rt)
          else let (ok, rt) = rt_alloc rt in if ok then (0, rt\<lparr>rt_env := rt_env rt @ [a]\<rparr>) else (-1, rt))"

definition env_get :: "string \<Rightarrow> 'w runtime \<Rightarrow> string option" where
  "env_get name rt = map_option (\<lambda>i. drop (length name + 1) (rt_env rt ! i)) (var_index name (rt_env rt))"

definition env_unset :: "string \<Rightarrow> 'w runtime \<Rightarrow> int \<times> 'w runtime" where
  "env_unset name rt =
     (if name = [] \<or> CHR ''='' \<in> set name then (-1, rt)
      else case var_index name (rt_env rt) of
        None \<Rightarrow> (0, rt)
      | Some i \<Rightarrow> (0, rt\<lparr>rt_env := take i (rt_env rt) @ drop (i + 1) (rt_env rt)\<rparr>))"

section \<open>Numbers\<close>

text \<open>\<open>strtoul\<close> of the C library for bases up to ten: blanks, a sign, digits.  The result is the value, whether it is out of range,
  and the rest of the string, \<open>None\<close> when there are no digits.\<close>

definition c_space :: "char \<Rightarrow> bool" where
  "c_space c \<longleftrightarrow> c = CHR 0x20 \<or> (9 \<le> (of_char c :: nat) \<and> (of_char c :: nat) \<le> 13)"

definition c_digit :: "nat \<Rightarrow> char \<Rightarrow> bool" where
  "c_digit base c \<longleftrightarrow> 48 \<le> (of_char c :: nat) \<and> (of_char c :: nat) < 48 + base"

definition strtoul :: "nat \<Rightarrow> string \<Rightarrow> u64 \<times> bool \<times> string option" where
  "strtoul base s =
     (let s1 = dropWhile c_space s;
          neg = (s1 \<noteq> [] \<and> hd s1 = CHR ''-'');
          s2 = (if s1 \<noteq> [] \<and> (hd s1 = CHR ''-'' \<or> hd s1 = CHR ''+'') then tl s1 else s1);
          ds = takeWhile (c_digit base) s2;
          v = foldl (\<lambda>n c. n * base + (of_char c - 48)) (0 :: nat) ds in
      if ds = [] then (0, False, None)
      else if v \<ge> 2 ^ 64 then (- 1, True, Some (dropWhile (c_digit base) s2))
      else (if neg then - of_nat v else of_nat v, False, Some (dropWhile (c_digit base) s2)))"

definition parse_ulong_arg :: "string \<Rightarrow> nat \<Rightarrow> u64 option" where
  "parse_ulong_arg s base =
     (case strtoul base s of
        (v, erange, Some []) \<Rightarrow> if erange then None else Some v
      | _ \<Rightarrow> None)"

section \<open>Commands on files\<close>

definition builtin_mkdir :: "'w os \<Rightarrow> string list \<Rightarrow> 'w runtime \<Rightarrow> int \<times> 'w runtime" where
  "builtin_mkdir os av rt =
     (if length av \<noteq> 2 \<and> length av \<noteq> 3 then (-1, rt)
      else case (if length av = 3 then parse_ulong_arg (av ! 2) 8 else Some 0x1ED) of
        None \<Rightarrow> (-1, rt)
      | Some mode \<Rightarrow>
          let (e, w) = os_mkdir os (av ! 1) (ucast mode) (world rt) in
          (if e = None \<or> e = Some EEXIST then 0 else -1, rt\<lparr>world := w\<rparr>))"

definition builtin_rmdir :: "'w os \<Rightarrow> string list \<Rightarrow> 'w runtime \<Rightarrow> int \<times> 'w runtime" where
  "builtin_rmdir os av rt = (if length av \<noteq> 2 then (-1, rt) else sys (os_rmdir os (av ! 1)) rt)"

definition builtin_unlink :: "'w os \<Rightarrow> string list \<Rightarrow> 'w runtime \<Rightarrow> int \<times> 'w runtime" where
  "builtin_unlink os av rt = (if length av \<noteq> 2 then (-1, rt) else sys (os_unlink os (av ! 1)) rt)"

definition builtin_touch :: "'w os \<Rightarrow> string list \<Rightarrow> 'w runtime \<Rightarrow> int \<times> 'w runtime" where
  "builtin_touch os av rt = (if length av \<noteq> 2 then (-1, rt) else sys (os_create os (av ! 1) 0x1A4) rt)"

definition builtin_chmod :: "'w os \<Rightarrow> string list \<Rightarrow> 'w runtime \<Rightarrow> int \<times> 'w runtime" where
  "builtin_chmod os av rt =
     (if length av \<noteq> 3 then (-1, rt)
      else case parse_ulong_arg (av ! 1) 8 of
        None \<Rightarrow> (-1, rt)
      | Some mode \<Rightarrow> sys (os_chmod os (av ! 2) (ucast mode)) rt)"

definition builtin_chown :: "'w os \<Rightarrow> string list \<Rightarrow> 'w runtime \<Rightarrow> int \<times> 'w runtime" where
  "builtin_chown os av rt =
     (if length av \<noteq> 4 then (-1, rt)
      else case (parse_ulong_arg (av ! 1) 10, parse_ulong_arg (av ! 2) 10) of
        (Some uid, Some gid) \<Rightarrow> sys (os_chown os (av ! 3) (ucast uid) (ucast gid)) rt
      | _ \<Rightarrow> (-1, rt))"

definition builtin_pwd :: "'w os \<Rightarrow> string list \<Rightarrow> 'w runtime \<Rightarrow> int \<times> 'w runtime" where
  "builtin_pwd os av rt =
     (if length av \<noteq> 1 then (-1, rt)
      else case os_getcwd os 512 (world rt) of
        Inl _ \<Rightarrow> (-1, rt)
      | Inr d \<Rightarrow> (0, rt_print os (d @ [CHR 0x0A]) rt))"

definition builtin_printenv :: "'w os \<Rightarrow> string list \<Rightarrow> 'w runtime \<Rightarrow> int \<times> 'w runtime" where
  "builtin_printenv os av rt =
     (if length av = 1 then (0, fold (\<lambda>v. rt_print os (v @ [CHR 0x0A])) (rt_env rt) rt)
      else if length av = 2
      then (case env_get (av ! 1) rt of None \<Rightarrow> (0, rt) | Some v \<Rightarrow> (0, rt_print os (v @ [CHR 0x0A]) rt))
      else (-1, rt))"

section \<open>Programs\<close>

definition home_dir :: "'w runtime \<Rightarrow> string option" where
  "home_dir rt = (case env_get ''HOME'' rt of Some h \<Rightarrow> if h = [] then None else Some h | None \<Rightarrow> None)"

definition enter_home_if_set :: "'w os \<Rightarrow> 'w runtime \<Rightarrow> int \<times> 'w runtime" where
  "enter_home_if_set os rt = (case home_dir rt of None \<Rightarrow> (0, rt) | Some home \<Rightarrow> sys (os_chdir os home) rt)"

definition mount_or_report :: "'w os \<Rightarrow> string \<Rightarrow> string \<Rightarrow> string \<Rightarrow> u64 \<Rightarrow> 'w runtime \<Rightarrow> int \<times> 'w runtime" where
  "mount_or_report os source target filesystem flags rt =
     (let (r, rt) = sys (os_mount os source target filesystem flags) rt in
      if r < 0 then (-1, rt)
      else (0, rt_print os (''init: mounted '' @ filesystem @ '' at '' @ target @ [CHR 0x0A]) rt))"

partial_function (option) wait_for_child :: "'w os \<Rightarrow> int \<Rightarrow> 'w \<Rightarrow> (int \<times> 'w) option" where
  "wait_for_child os pid w =
     (case os_waitpid os pid w of
        (Inr (got, status), w) \<Rightarrow> if got = pid then Some (status, w) else Some (-1, w)
      | (Inl e, w) \<Rightarrow> if e = EINTR then wait_for_child os pid w else Some (-1, w))"

text \<open>The allocation of \<open>envp_make\<close> and the fork.  What the child does: it changes to the home directory, if one is set, and runs the program; a
  failure of the former ends it with status 126, of the latter with 127.\<close>

definition spawn_program :: "'w os \<Rightarrow> string list \<Rightarrow> 'w runtime \<Rightarrow> int \<times> 'w runtime" where
  "spawn_program os av rt =
     (let (ok, rt) = rt_alloc rt in
      if \<not> ok then (-1, rt)
      else case os_fork os \<lparr>child_home = home_dir rt, child_argv = av, child_envp = rt_env rt\<rparr> (world rt) of
        (Inl _, w) \<Rightarrow> (-1, rt\<lparr>world := w\<rparr>)
      | (Inr pid, w) \<Rightarrow> (pid, rt\<lparr>world := w\<rparr>))"

definition run_program :: "'w os \<Rightarrow> string list \<Rightarrow> 'w runtime \<Rightarrow> (stop + int) \<times> 'w runtime" where
  "run_program os av rt =
     (let (pid, rt) = spawn_program os av rt in
      if pid < 0 then (Inr (-1), rt)
      else case wait_for_child os pid (world rt) of
        None \<Rightarrow> (Inl Hung, rt)
      | Some (status, w) \<Rightarrow> (Inr status, rt\<lparr>world := w\<rparr>))"

definition start_program :: "'w os \<Rightarrow> string list \<Rightarrow> 'w runtime \<Rightarrow> int \<times> 'w runtime" where
  "start_program os av rt = (let (pid, rt) = spawn_program os av rt in (if pid < 0 then -1 else 0, rt))"

definition exec_program :: "'w os \<Rightarrow> string list \<Rightarrow> 'w runtime \<Rightarrow> (stop + int) \<times> 'w runtime" where
  "exec_program os av rt =
     (let (ok, rt) = rt_alloc rt in
      if \<not> ok then (Inr (-1), rt)
      else let (r, rt) = enter_home_if_set os rt in
        if r < 0 then (Inr (-1), rt)
        else let (e, w) = os_execve os av (rt_env rt) (world rt) in
          (if e = None then Inl (Became av) else Inr (-1), rt\<lparr>world := w\<rparr>))"

partial_function (option) sleep_loop :: "'w os \<Rightarrow> u32 \<Rightarrow> 'w \<Rightarrow> 'w option" where
  "sleep_loop os secs w = (let (left, w) = os_sleep os secs w in if left \<noteq> 0 then sleep_loop os secs w else Some w)"

section \<open>Network interfaces\<close>

text \<open>\<open>icmp_checksum\<close> adds the 16-bit words in the byte order of the machine; the sum of 32 words does not overflow.\<close>

fun sum_words :: "octets \<Rightarrow> u32" where
  "sum_words (a # b # bs) = ucast a + 256 * ucast b + sum_words bs"
| "sum_words [a] = ucast a"
| "sum_words [] = 0"

definition icmp_checksum :: "octets \<Rightarrow> u16" where
  "icmp_checksum bs =
     (let sum = sum_words bs;
          sum = drop_bit 16 sum + (sum AND 0xFFFF);
          sum = sum + drop_bit 16 sum in
      ucast (NOT sum))"

definition le16 :: "u16 \<Rightarrow> octets" where
  "le16 x = [ucast x, ucast (drop_bit 8 x)]"

definition echo_packet :: "u16 \<Rightarrow> octets" where
  "echo_packet ident =
     (let packet = (\<lambda>check. [8, 0] @ le16 check @ le16 ident @ le16 1 @ map of_nat [0..<56]) in
      packet (icmp_checksum (packet 0)))"

definition ping_ip_once :: "'w os \<Rightarrow> string \<Rightarrow> 'w runtime \<Rightarrow> int \<times> 'w runtime" where
  "ping_ip_once os ip rt = sys (os_send_icmp os ip (echo_packet (of_int (os_getpid os (world rt))))) rt"

text \<open>\<open>strstr\<close>, as the rest of the line behind the first occurrence of the key.\<close>

fun behind :: "string \<Rightarrow> string \<Rightarrow> string option" where
  "behind key line =
     (if take (length key) line = key then Some (drop (length key) line)
      else case line of [] \<Rightarrow> None | _ # line \<Rightarrow> behind key line)"

declare behind.simps [simp del]

definition get_field :: "string \<Rightarrow> string \<Rightarrow> nat \<Rightarrow> string option" where
  "get_field line key out_size =
     (case behind key line of
        None \<Rightarrow> None
      | Some pos \<Rightarrow>
          let f = takeWhile (\<lambda>c. c \<noteq> CHR 0x20 \<and> c \<noteq> CHR 0x0A \<and> c \<noteq> CHR 0x09) pos in
          if f = [] \<or> length f \<ge> out_size then None else Some f)"

text \<open>\<open>fgets\<close> with a buffer of 512 bytes: at most 511 characters, up to and with a line break.\<close>

fun fgets_lines :: "string \<Rightarrow> string \<Rightarrow> string list" where
  "fgets_lines cur [] = (if cur = [] then [] else [cur])"
| "fgets_lines cur (c # cs) =
     (if c = CHR 0x0A \<or> length cur = 510 then (cur @ [c]) # fgets_lines [] cs else fgets_lines (cur @ [c]) cs)"

definition ping_target :: "string \<Rightarrow> string option" where
  "ping_target line =
     (let iface = take 63 (takeWhile (\<lambda>c. \<not> c_space c) (dropWhile c_space line)) in
      if iface = [] \<or> get_field line ''link='' 16 \<noteq> Some ''up'' then None
      else if behind ''loopback'' line \<noteq> None \<or> iface = ''lo'' then Some ''127.0.0.1''
      else case get_field line ''gateway='' 64 of
          Some g \<Rightarrow> if g \<noteq> ''0.0.0.0'' then Some g else None
        | None \<Rightarrow> None)"

primrec ping_lines :: "'w os \<Rightarrow> string list \<Rightarrow> int \<Rightarrow> 'w runtime \<Rightarrow> int \<times> 'w runtime" where
  "ping_lines os [] found rt = (found, rt)"
| "ping_lines os (line # ls) found rt =
     (let line = takeWhile (\<lambda>c. c \<noteq> NUL) line in
      case ping_target line of
        None \<Rightarrow> ping_lines os ls found rt
      | Some target \<Rightarrow>
          let (r, rt) = ping_ip_once os target rt in
          ping_lines os ls (if r = 0 then 0 else found)
            (if r = 0
             then rt_print os (''init: iface '' @ take 63 (takeWhile (\<lambda>c. \<not> c_space c) (dropWhile c_space line))
               @ '' has working ICMP target '' @ target @ [CHR 0x0A]) rt
             else rt))"

definition check_ifaces :: "'w os \<Rightarrow> 'w runtime \<Rightarrow> int \<times> 'w runtime" where
  "check_ifaces os rt =
     (case os_read_lines os ''/dev/net/devices'' (world rt) of
        (None, w) \<Rightarrow> (-1, rt\<lparr>world := w\<rparr>)
      | (Some (text, failed), w) \<Rightarrow>
          let (found, rt) = ping_lines os (fgets_lines [] text) (-1) (rt\<lparr>world := w\<rparr>) in
          (if failed then -1 else found, rt))"

section \<open>The interpreter\<close>

text \<open>\<open>inc\<close> is what the command \<open>include\<close> does.\<close>

definition execute_command ::
    "'w os \<Rightarrow> (string \<Rightarrow> 'w runtime \<Rightarrow> (stop + int) \<times> 'w runtime) \<Rightarrow> command \<Rightarrow> 'w runtime \<Rightarrow> (stop + int) \<times> 'w runtime" where
  "execute_command os inc cmd rt =
     (let av = argv cmd; n = length av; ret = apfst Inr; bad = (Inr (-1), rt) in
      if n = 0 then (Inr 0, rt)
      else if av ! 0 = ''echo'' then
        (Inr 0, rt_print os
          (CHR 0x1B # ''[2m['' @ CHR 0x1B # ''[0m'' @ CHR 0x1B # ''[1m'' @ CHR 0x1B # ''[36minitrc'' @ CHR 0x1B # ''[0m'' @
           CHR 0x1B # ''[2m]'' @ CHR 0x1B # ''[0m'' @ CHR 0x1B # ''[2m :: '' @ CHR 0x1B # ''[0m'' @
           concat (map (\<lambda>i. (if i > 1 then [CHR 0x20] else []) @ av ! i) [1..<n]) @ [CHR 0x0A]) rt)
      else if av ! 0 = ''set'' then (if n \<noteq> 2 then bad else ret (env_set (av ! 1) rt))
      else if av ! 0 = ''unset'' then (if n \<noteq> 2 then bad else ret (env_unset (av ! 1) rt))
      else if av ! 0 = ''printenv'' then ret (builtin_printenv os av rt)
      else if av ! 0 = ''pwd'' then ret (builtin_pwd os av rt)
      else if av ! 0 = ''mkdir'' then ret (builtin_mkdir os av rt)
      else if av ! 0 = ''rmdir'' then ret (builtin_rmdir os av rt)
      else if av ! 0 = ''rm'' \<or> av ! 0 = ''unlink'' then ret (builtin_unlink os av rt)
      else if av ! 0 = ''touch'' then ret (builtin_touch os av rt)
      else if av ! 0 = ''chmod'' then ret (builtin_chmod os av rt)
      else if av ! 0 = ''chown'' then ret (builtin_chown os av rt)
      else if av ! 0 = ''cd'' then (if n \<noteq> 2 then bad else ret (sys (os_chdir os (av ! 1)) rt))
      else if av ! 0 = ''mount'' then (if n \<noteq> 4 then bad else ret (mount_or_report os (av ! 1) (av ! 2) (av ! 3) 0 rt))
      else if av ! 0 = ''include'' then (if n \<noteq> 2 then bad else inc (av ! 1) rt)
      else if av ! 0 = ''ifaces'' then ret (check_ifaces os rt)
      else if av ! 0 = ''run'' then (if n < 2 then bad else run_program os (tl av) rt)
      else if av ! 0 = ''sleep'' then
        (if n \<noteq> 2 then bad
         else case strtoul 10 (av ! 1) of (secs, erange, end) \<Rightarrow>
           if erange \<or> (case end of None \<Rightarrow> av ! 1 \<noteq> [] | Some r \<Rightarrow> r \<noteq> []) then bad
           else (case sleep_loop os (ucast secs) (world rt) of
                   None \<Rightarrow> (Inl Hung, rt)
                 | Some w \<Rightarrow> (Inr 0, rt\<lparr>world := w\<rparr>)))
      else if av ! 0 = ''spawn'' \<or> av ! 0 = ''start'' then (if n < 2 then bad else ret (start_program os (tl av) rt))
      else if av ! 0 = ''wait'' \<or> av ! 0 = ''reap'' then (if n \<noteq> 1 then bad else (Inl Reaping, rt))
      else if av ! 0 = ''exec'' then (if n < 2 then bad else exec_program os (tl av) rt)
      else bad)"

text \<open>The loop of \<open>execute_script\<close>; \<open>ret\<close> is its variable.\<close>

primrec execute_commands ::
    "'w os \<Rightarrow> (string \<Rightarrow> 'w runtime \<Rightarrow> (stop + int) \<times> 'w runtime) \<Rightarrow> command list \<Rightarrow> int \<Rightarrow> 'w runtime \<Rightarrow> (stop + int) \<times> 'w runtime" where
  "execute_commands os inc [] ret rt = (Inr ret, rt)"
| "execute_commands os inc (cmd # cmds) ret rt =
     (case execute_command os inc cmd rt of
        (Inl s, rt) \<Rightarrow> (Inl s, rt)
      | (Inr r, rt) \<Rightarrow> execute_commands os inc cmds (if r < 0 then -1 else ret) rt)"

definition parse_file :: "'w os \<Rightarrow> string \<Rightarrow> 'w runtime \<Rightarrow> bool \<times> script \<times> 'w runtime" where
  "parse_file os path rt =
     (case os_read_file os path (world rt) of
        (None, w) \<Rightarrow> (False, script_init, rt\<lparr>world := w\<rparr>)
      | (Some src, w) \<Rightarrow> let (ok, s, mem) = parse_source src script_init (rt_mem rt) in (ok, s, rt\<lparr>world := w, rt_mem := mem\<rparr>))"

text \<open>Files include files: \<open>fuel\<close> bounds the nesting.  The code bounds it by \<open>include_depth\<close>, and ten levels of fuel are never used up.\<close>

primrec execute_include :: "nat \<Rightarrow> 'w os \<Rightarrow> string \<Rightarrow> 'w runtime \<Rightarrow> (stop + int) \<times> 'w runtime" where
  "execute_include 0 os path rt = (Inl NoFuel, rt)"
| "execute_include (Suc fuel) os path rt =
     (if include_depth rt \<ge> MAX_INCLUDE then (Inr (-1), rt)
      else case parse_file os path (rt\<lparr>include_depth := include_depth rt + 1\<rparr>) of
        (ok, s, rt) \<Rightarrow>
          (case (if ok then execute_commands os (execute_include fuel os) (commands s) 0 rt else (Inr (-1), rt)) of
             (Inl st, rt) \<Rightarrow> (Inl st, rt)
           | (Inr r, rt) \<Rightarrow> (Inr r, rt\<lparr>include_depth := include_depth rt - 1\<rparr>)))"

definition execute_script :: "'w os \<Rightarrow> script \<Rightarrow> 'w runtime \<Rightarrow> (stop + int) \<times> 'w runtime" where
  "execute_script os s rt = execute_commands os (execute_include 10 os) (commands s) 0 rt"

section \<open>The main program\<close>

definition env_enabled :: "'w os \<Rightarrow> string \<Rightarrow> 'w \<Rightarrow> bool" where
  "env_enabled os name w = (case os_getenv os name w of None \<Rightarrow> False | Some v \<Rightarrow> v \<in> {''1'', ''yes'', ''true'', ''on''})"

definition check_init_identity :: "'w os \<Rightarrow> 'w \<Rightarrow> bool" where
  "check_init_identity os w \<longleftrightarrow>
     \<not> (os_getpid os w \<noteq> 1 \<and> \<not> env_enabled os ''ALLOW_NOT_PID1'' w) \<and> \<not> (os_geteuid os w \<noteq> 0 \<and> \<not> env_enabled os ''ALLOW_NOT_ROOT'' w)"

definition check_init_script_path :: "'w os \<Rightarrow> string \<Rightarrow> 'w \<Rightarrow> bool" where
  "check_init_script_path os path w \<longleftrightarrow> os_is_regular os path w = Inr True \<and> os_readable os path w"

definition init_main :: "'w os \<Rightarrow> bool list \<Rightarrow> 'w \<Rightarrow> (stop + int) \<times> 'w" where
  "init_main os mem w =
     (let w = os_print os (''init: Welcome to lyrOS v1.0'' @ [CHR 0x0A]) w;
          path = ''/etc/initrc''; say = (\<lambda>s. rt_print os (''init: '' @ s @ '' script '' @ path @ [CHR 0x0A])) in
      if \<not> check_init_identity os w then (Inr 126, w)
      else if \<not> check_init_script_path os path w then (Inr 127, w)
      else case parse_file os path (say ''loading'' (runtime_init mem w)) of
        (ok, s, rt) \<Rightarrow>
          if \<not> ok then (Inr 127, world rt)
          else case execute_script os s (say ''executing'' rt) of
              (Inl st, rt) \<Rightarrow> (Inl st, world rt)
            | (Inr r, rt) \<Rightarrow> (if r < 0 then Inr 127 else Inl Reaping, world rt))"

section \<open>Environment variables as a map\<close>

text \<open>Every entry is a name without \<open>=\<close>, not empty, and a value behind \<open>=\<close>; no name has two entries.\<close>

definition var_name :: "string \<Rightarrow> string" where
  "var_name v = takeWhile (\<lambda>c. c \<noteq> CHR ''='') v"

definition env_ok :: "string list \<Rightarrow> bool" where
  "env_ok vs \<longleftrightarrow> length vs \<le> MAX_ENV \<and> (\<forall>v\<in>set vs. CHR ''='' \<in> set v \<and> var_name v \<noteq> []) \<and> distinct (map var_name vs)"

lemma var_is_split: "var_is name v \<Longrightarrow> v = name @ CHR ''='' # drop (length name + 1) v"
  by (auto simp: var_is_def) (metis append_take_drop_id Cons_nth_drop_Suc)

lemma no_eq_in_name: "CHR ''='' \<notin> set (var_name v)"
  by (auto simp: var_name_def dest: set_takeWhileD)

lemma var_is_name: "CHR ''='' \<notin> set name \<Longrightarrow> var_is name v \<longleftrightarrow> CHR ''='' \<in> set v \<and> var_name v = name"
proof
  assume n: "CHR ''='' \<notin> set name" and "var_is name v"
  then have v: "v = name @ CHR ''='' # drop (length name + 1) v" by (intro var_is_split)
  have "var_name (name @ CHR ''='' # r) = name" for r unfolding var_name_def using n by (subst takeWhile_append2) auto
  then show "CHR ''='' \<in> set v \<and> var_name v = name" by (subst (1 2) v) simp
next
  assume v: "CHR ''='' \<in> set v \<and> var_name v = name"
  then obtain a r where ar: "v = a @ CHR ''='' # r" "CHR ''='' \<notin> set a" using split_list_first by fastforce
  moreover have "takeWhile (\<lambda>c. c \<noteq> CHR ''='') (a @ CHR ''='' # r) = a" using ar(2) by (subst takeWhile_append2) auto
  ultimately have "v = name @ CHR ''='' # r" using v by (simp add: var_name_def)
  then show "var_is name v" by (simp add: var_is_def)
qed

lemma var_index_Some:
  assumes "CHR ''='' \<notin> set name" "var_index name vs = Some i"
  shows "i < length vs" "CHR ''='' \<in> set (vs ! i)" "var_name (vs ! i) = name"
  using assms by (induction vs arbitrary: i) (auto simp: var_is_name split: if_splits)

lemma var_index_None:
  assumes "CHR ''='' \<notin> set name"
  shows "var_index name vs = None \<longleftrightarrow> (\<forall>v\<in>set vs. CHR ''='' \<in> set v \<longrightarrow> var_name v \<noteq> name)"
  using assms by (induction vs) (auto simp: var_is_name)

lemma var_index_eq:
  assumes "env_ok vs" "CHR ''='' \<notin> set name" "i < length vs" "var_name (vs ! i) = name"
  shows "var_index name vs = Some i"
proof -
  have "vs ! i \<in> set vs" "CHR ''='' \<in> set (vs ! i)" using assms(1,3) by (auto simp: env_ok_def)
  then obtain j where j: "var_index name vs = Some j" using var_index_None [OF assms(2), of vs] assms(4) by blast
  then have "map var_name vs ! j = map var_name vs ! i" "j < length vs" using var_index_Some [OF assms(2) j] assms(3,4) by simp_all
  then show ?thesis using j assms(1,3) by (metis distinct_conv_nth env_ok_def length_map)
qed

lemma drop_value: "CHR ''='' \<in> set v \<Longrightarrow> v = var_name v @ CHR ''='' # drop (length (var_name v) + 1) v"
  by (rule var_is_split) (simp add: var_is_name [OF no_eq_in_name])

lemma env_ok_set:
  assumes "env_ok vs" "CHR ''='' \<in> set a" "var_name a \<noteq> []" "var_index (var_name a) vs = Some i"
  shows "env_ok (vs[i := a])"
proof -
  note n = no_eq_in_name [of a]
  note i = var_index_Some [OF n assms(4)]
  then have "map var_name (vs[i := a]) = map var_name vs" by (simp add: map_update list_update_same_conv)
  then show ?thesis using assms(1-3) by (auto simp: env_ok_def dest!: set_update_subset_insert [THEN subsetD])
qed

lemma env_ok_add:
  assumes "env_ok vs" "CHR ''='' \<in> set a" "var_name a \<noteq> []" "var_index (var_name a) vs = None" "length vs < MAX_ENV"
  shows "env_ok (vs @ [a])"
proof -
  note n = no_eq_in_name [of a]
  then show ?thesis using assms var_index_None [OF n, of vs] by (fastforce simp: env_ok_def)
qed

lemma env_ok_remove: "env_ok vs \<Longrightarrow> env_ok (take i vs @ drop (i + 1) vs)"
proof -
  assume ok: "env_ok vs"
  have "distinct (map var_name (take i vs @ drop (i + 1) vs))"
  proof (cases "i < length vs")
    case True
    then have "map var_name vs = map var_name (take i vs) @ var_name (vs ! i) # map var_name (drop (i + 1) vs)"
      by (metis Suc_eq_plus1 append_take_drop_id Cons_nth_drop_Suc list.simps(9) map_append)
    then show ?thesis using ok by (simp add: env_ok_def)
  qed (use ok in \<open>simp add: env_ok_def\<close>)
  then show ?thesis using ok set_take_subset [of i vs] set_drop_subset [of "i + 1" vs] by (auto simp: env_ok_def)
qed

lemma var_index_update:
  assumes "CHR ''='' \<notin> set name" "CHR ''='' \<notin> set n" "i < length vs" "var_name (vs ! i) = name" "var_name a = name" "CHR ''='' \<in> set a" "CHR ''='' \<in> set (vs ! i)"
  shows "var_index n (vs[i := a]) = var_index n vs"
  using assms
proof (induction vs arbitrary: i)
  case (Cons v vs)
  then show ?case by (cases i) (auto simp: var_is_name)
qed simp

lemma var_index_append: "var_index n (vs @ [a]) = (case var_index n vs of None \<Rightarrow> if var_is n a then Some (length vs) else None | Some i \<Rightarrow> Some i)"
  by (induction vs) (auto split: option.split)

lemma env_set_get:
  assumes "env_ok (rt_env rt)" "env_set a rt = (0, rt')" "CHR ''='' \<notin> set n"
  shows "env_ok (rt_env rt') \<and> env_get n rt' = (if n = var_name a then Some (drop (length n + 1) a) else env_get n rt)"
proof -
  let ?vs = "rt_env rt"
  obtain ok rt1 where m: "rt_alloc rt = (ok, rt1)" by fastforce
  have v: "rt_env rt1 = ?vs" using m by (auto simp: rt_alloc_def split: prod.splits)
  have a: "CHR ''='' \<in> set a" "var_name a \<noteq> []" using assms(2) by (auto simp: env_set_def var_name_def Let_def split: if_splits)
  show ?thesis
  proof (cases "var_index (var_name a) ?vs")
    case None
    then have rt': "rt_env rt' = ?vs @ [a]" "length ?vs < MAX_ENV"
      using assms(2) m v a by (auto simp: env_set_def var_name_def Let_def split: if_splits)
    have "env_ok (?vs @ [a])" by (rule env_ok_add [OF assms(1) a None rt'(2)])
    moreover have "env_get n rt' = (if n = var_name a then Some (drop (length n + 1) a) else env_get n rt)"
    proof (cases "var_index n ?vs")
      case None': None
      then show ?thesis using a by (simp add: env_get_def rt'(1) var_index_append var_is_name [OF assms(3)] eq_commute)
    next
      case (Some i)
      then have "i < length ?vs" "n \<noteq> var_name a" using var_index_Some [OF assms(3) Some] None by auto
      then show ?thesis using Some by (simp add: env_get_def rt'(1) var_index_append nth_append)
    qed
    ultimately show ?thesis using rt'(1) by simp
  next
    case (Some i)
    note i = var_index_Some [OF no_eq_in_name Some]
    have rt': "rt_env rt' = ?vs[i := a]" using assms(2) m v a Some by (auto simp: env_set_def var_name_def Let_def split: if_splits)
    have x: "var_index n (?vs[i := a]) = var_index n ?vs" by (rule var_index_update [OF no_eq_in_name assms(3) i(1,3) refl a(1) i(2)])
    have "env_get n rt' = (if n = var_name a then Some (drop (length n + 1) a) else env_get n rt)"
    proof (cases "n = var_name a")
      case True
      then show ?thesis using Some i(1) x by (simp add: env_get_def rt')
    next
      case False
      then have "var_index n ?vs \<noteq> Some i" using var_index_Some(3) [OF assms(3)] i(3) by metis
      then show ?thesis using False x by (cases "var_index n ?vs") (auto simp: env_get_def rt')
    qed
    then show ?thesis using env_ok_set [OF assms(1) a Some] rt' by simp
  qed
qed

section \<open>Every script comes to an end\<close>



definition same_rt :: "'w runtime \<Rightarrow> 'w runtime \<Rightarrow> bool" where
  "same_rt rt rt' \<longleftrightarrow> rt_env rt' = rt_env rt \<and> include_depth rt' = include_depth rt"

named_theorems same_rt_intros \<open>operations that keep variables and depth\<close>

lemma same_rt_refl [same_rt_intros]: "same_rt rt rt" "same_rt rt (rt\<lparr>world := w\<rparr>)" "same_rt rt (rt\<lparr>rt_mem := m\<rparr>)"
  by (simp_all add: same_rt_def)

























text \<open>A system in which the only file includes itself.\<close>

definition looping_os :: "unit os" where
  "looping_os =
     \<lparr>os_mkdir = \<lambda>_ _ w. (None, w), os_rmdir = \<lambda>_ w. (None, w), os_unlink = \<lambda>_ w. (None, w), os_create = \<lambda>_ _ w. (None, w),
      os_chmod = \<lambda>_ _ w. (None, w), os_chown = \<lambda>_ _ _ w. (None, w), os_chdir = \<lambda>_ w. (None, w), os_getcwd = \<lambda>_ _. Inr ''/'',
      os_mount = \<lambda>_ _ _ _ w. (None, w), os_fork = \<lambda>_ w. (Inr 2, w), os_waitpid = \<lambda>pid w. (Inr (pid, 0), w),
      os_execve = \<lambda>_ _ w. (None, w), os_sleep = \<lambda>_ w. (0, w), os_read_file = \<lambda>_ w. (Some ''include /a'', w),
      os_read_lines = \<lambda>_ w. (None, w), os_send_icmp = \<lambda>_ _ w. (None, w), os_print = \<lambda>_ w. w, os_getpid = \<lambda>_. 1,
      os_geteuid = \<lambda>_. 0, os_getenv = \<lambda>_ _. None, os_is_regular = \<lambda>_ _. Inr True, os_readable = \<lambda>_ _. True\<rparr>"



text \<open>The file that includes itself is read at most eight times; then the inclusion is refused, and with it all of them.\<close>

lemma looping_parse: "parse_file looping_os path rt = (True, \<lparr>commands = [\<lparr>argv = [''include'', ''/a''], cmd_line = 1\<rparr>], capacity = 16\<rparr>, rt)"
  if "rt_mem rt = []"
proof -
  have "parse_source ''include /a'' script_init [] = (True, \<lparr>commands = [\<lparr>argv = [''include'', ''/a''], cmd_line = 1\<rparr>], capacity = 16\<rparr>, [])"
    by code_simp
  then show ?thesis using that by (cases rt) (simp add: parse_file_def looping_os_def)
qed

lemma looping_refused:
  assumes "rt_mem rt = []" "include_depth rt \<le> MAX_INCLUDE" "MAX_INCLUDE < fuel + include_depth rt"
  shows "execute_include fuel looping_os path rt = (Inr (-1), rt)"
  using assms
proof (induction fuel arbitrary: path rt)
  case (Suc fuel)
  show ?case
  proof (cases "include_depth rt \<ge> MAX_INCLUDE")
    case False
    let ?rt = "rt\<lparr>include_depth := include_depth rt + 1\<rparr>"
    have "execute_include fuel looping_os ''/a'' ?rt = (Inr (-1), ?rt)" using Suc False by simp
    then show ?thesis using False looping_parse [of ?rt path] Suc.prems(1) by (simp add: execute_command_def)
  qed simp
qed simp

lemma env_unset_get:
  assumes "env_ok (rt_env rt)" "env_unset n rt = (0, rt')" "CHR ''='' \<notin> set m"
  shows "env_get m rt' = (if m = n then None else env_get m rt)"
proof -
  let ?vs = "rt_env rt"
  have n: "CHR ''='' \<notin> set n" using assms(2) by (auto simp: env_unset_def split: if_splits)
  show ?thesis
  proof (cases "var_index n ?vs")
    case None
    then have "rt' = rt" using assms(2) by (auto simp: env_unset_def split: if_splits)
    then show ?thesis using None by (simp add: env_get_def)
  next
    case (Some i)
    let ?ws = "take i ?vs @ drop (i + 1) ?vs"
    have rt': "rt_env rt' = ?ws" using assms(2) Some by (auto simp: env_unset_def split: if_splits)
    have ws: "env_ok ?ws" by (rule env_ok_remove [OF assms(1)])
    note i = var_index_Some [OF n Some]
    have nth: "?ws ! j = ?vs ! (if j < i then j else j + 1)" if "j < length ?ws" for j using that i(1) by (auto simp: nth_append min_def)
    show ?thesis
    proof (cases "var_index m ?vs")
      case None
      then have "var_index m ?ws = None" using var_index_None [OF assms(3)] set_take_subset [of i ?vs] set_drop_subset [of "i + 1" ?vs] by auto
      then show ?thesis using None by (simp add: env_get_def rt')
    next
      case (Some k)
      note k = var_index_Some [OF assms(3) Some]
      show ?thesis
      proof (cases "m = n")
        case True
        have "var_name (?ws ! j) \<noteq> n" if "j < length ?ws" for j
        proof
          assume "var_name (?ws ! j) = n"
          then have "var_index n ?vs = Some (if j < i then j else j + 1)"
            using var_index_eq [OF assms(1) n] nth [OF that] that i(1) by (auto split: if_splits)
          then show False using \<open>var_index n ?vs = Some i\<close> by (auto split: if_splits)
        qed
        then have "\<forall>v\<in>set ?ws. var_name v \<noteq> n" by (metis in_set_conv_nth)
        then have "var_index n ?ws = None" unfolding var_index_None [OF n] by blast
        then show ?thesis using True by (simp add: env_get_def rt')
      next
        case False
        then have ki: "k \<noteq> i" using k(3) i(3) by auto
        let ?j = "if k < i then k else k - 1"
        have j: "?j < length ?ws" "?ws ! ?j = ?vs ! k" using k(1) i(1) ki by (auto simp: nth_append min_def)
        then have "var_index m ?ws = Some ?j" using var_index_eq [OF ws assms(3) j(1)] k(3) by simp
        then show ?thesis using j(2) Some False by (simp add: env_get_def rt')
      qed
    qed
  qed
qed

end
