(* ===== verification/Shell.thy ===== *)
theory Shell
  imports Prelude "HOL-Library.Char_ord" "HOL-Library.List_Lexorder"
begin

text \<open>
  The shell, \<open>src/sh/src\<close>: splitting a line into commands (\<open>lexer.c\<close>), expansion of variables and of the prompt (\<open>expand.c\<close>), patterns of file
  names (\<open>util.c\<close>), and what \<open>exec.c\<close> does with the words before programs run.

  A C string is the list of its characters without the terminator.  The environment of the process is a function \<open>getenv\<close>; the
  file system is seen through \<open>entries\<close>, what \<open>opendir\<close> and \<open>readdir\<close> give for a path, and \<open>is_dir\<close>.  An allocation
  that fails ends the shell (\<open>sh_xmalloc\<close>), so allocations succeed here.
\<close>

section \<open>Names and paths\<close>

abbreviation (input) SH_NOEXPAND_BEGIN :: char where "SH_NOEXPAND_BEGIN \<equiv> CHR 0x01"
abbreviation (input) SH_NOEXPAND_END :: char where "SH_NOEXPAND_END \<equiv> CHR 0x02"
abbreviation (input) SH_NOGLOB_BEGIN :: char where "SH_NOGLOB_BEGIN \<equiv> CHR 0x03"
abbreviation (input) SH_NOGLOB_END :: char where "SH_NOGLOB_END \<equiv> CHR 0x04"

definition isspace :: "char \<Rightarrow> bool" where
  "isspace c \<longleftrightarrow> c = CHR 0x20 \<or> 9 \<le> (of_char c :: nat) \<and> (of_char c :: nat) \<le> 13"

definition isalpha :: "char \<Rightarrow> bool" where
  "isalpha c \<longleftrightarrow> (let n = (of_char c :: nat) in 65 \<le> n \<and> n \<le> 90 \<or> 97 \<le> n \<and> n \<le> 122)"

definition isalnum :: "char \<Rightarrow> bool" where
  "isalnum c \<longleftrightarrow> isalpha c \<or> 48 \<le> (of_char c :: nat) \<and> (of_char c :: nat) \<le> 57"

definition sh_is_name :: "string \<Rightarrow> bool" where
  "sh_is_name s = (case s of [] \<Rightarrow> False | c # r \<Rightarrow> (isalpha c \<or> c = CHR ''_'') \<and> (\<forall>d\<in>set r. isalnum d \<or> d = CHR ''_''))"

definition sh_is_assignment :: "string \<Rightarrow> bool" where
  "sh_is_assignment s \<longleftrightarrow> CHR ''='' \<in> set s \<and> s \<noteq> [] \<and> hd s \<noteq> CHR ''='' \<and> sh_is_name (takeWhile (\<lambda>c. c \<noteq> CHR ''='') s)"

definition sh_path_join :: "string \<Rightarrow> string \<Rightarrow> string" where
  "sh_path_join a b = a @ (if a \<noteq> [] \<and> last a \<noteq> CHR ''/'' then ''/'' else []) @ b"

text \<open>The loop over the directories of \<open>PATH\<close>; \<open>executable\<close> is \<open>access(path, X_OK) == 0\<close>.\<close>

function search_path :: "(string \<Rightarrow> bool) \<Rightarrow> string \<Rightarrow> string \<Rightarrow> string option" where
  "search_path executable name p =
     (let d = takeWhile (\<lambda>c. c \<noteq> CHR '':'') p;
          full = sh_path_join (if d = [] then ''.'' else d) name in
      if executable full then Some full
      else if CHR '':'' \<notin> set p then None
      else search_path executable name (drop (length d + 1) p))"
  by pat_completeness auto
termination by (relation "measure (\<lambda>(e, n, p). length p)") (auto intro!: diff_less dest: length_pos_if_in_set)

declare search_path.simps [simp del]

definition sh_find_in_path :: "(string \<Rightarrow> bool) \<Rightarrow> (string \<Rightarrow> string option) \<Rightarrow> string \<Rightarrow> string option" where
  "sh_find_in_path executable getenv name =
     (if name = [] then None
      else if CHR ''/'' \<in> set name then (if executable name then Some name else None)
      else search_path executable name
        (case getenv ''PATH'' of None \<Rightarrow> ''/usr/bin:/bin'' | Some p \<Rightarrow> if p = [] then ''/usr/bin:/bin'' else p))"

section \<open>Variables\<close>

text \<open>The loop of \<open>sh_expand_vars\<close>; \<open>pid\<close> is the number of the process in decimal.\<close>

function sh_expand_from :: "(string \<Rightarrow> string option) \<Rightarrow> string \<Rightarrow> bool \<Rightarrow> string \<Rightarrow> string" where
  "sh_expand_from getenv pid noexpand s =
     (case s of
        [] \<Rightarrow> []
      | c # r \<Rightarrow>
          if c = SH_NOEXPAND_BEGIN then sh_expand_from getenv pid True r
          else if c = SH_NOEXPAND_END then sh_expand_from getenv pid False r
          else if noexpand \<or> c \<noteq> CHR ''$'' then c # sh_expand_from getenv pid noexpand r
          else (case r of
              [] \<Rightarrow> ''$''
            | d # t \<Rightarrow>
                if d = CHR ''$'' then pid @ sh_expand_from getenv pid False t
                else if d = CHR ''?'' then (case getenv ''?'' of None \<Rightarrow> ''0'' | Some v \<Rightarrow> v) @ sh_expand_from getenv pid False t
                else if d = CHR 0x7B then
                  (let name = takeWhile (\<lambda>x. x \<noteq> CHR 0x7D) t in
                   (case getenv name of None \<Rightarrow> [] | Some v \<Rightarrow> v) @
                   (if CHR 0x7D \<in> set t then sh_expand_from getenv pid False (drop (length name + 1) t) else []))
                else if isalpha d \<or> d = CHR ''_'' then
                  (let name = takeWhile (\<lambda>x. isalnum x \<or> x = CHR ''_'') r in
                   (case getenv name of None \<Rightarrow> [] | Some v \<Rightarrow> v) @ sh_expand_from getenv pid False (drop (length name) r))
                else CHR ''$'' # d # sh_expand_from getenv pid False t))"
  by pat_completeness auto
termination by (relation "measure (\<lambda>(g, p, n, s). length s)") auto

declare sh_expand_from.simps [simp del]

definition sh_expand_vars :: "(string \<Rightarrow> string option) \<Rightarrow> string \<Rightarrow> string \<Rightarrow> string" where
  "sh_expand_vars getenv pid s = sh_expand_from getenv pid False s"

section \<open>The prompt\<close>

definition prompt_cwd :: "(string \<Rightarrow> string option) \<Rightarrow> string \<Rightarrow> string" where
  "prompt_cwd getenv cwd =
     (case getenv ''HOME'' of
        Some home \<Rightarrow>
          if home = [] then cwd
          else if cwd = home then ''~''
          else if take (length home) cwd = home \<and> take 1 (drop (length home) cwd) = ''/'' then ''~'' @ drop (length home) cwd
          else cwd
      | None \<Rightarrow> cwd)"

definition prompt_basename :: "(string \<Rightarrow> string option) \<Rightarrow> string \<Rightarrow> string" where
  "prompt_basename getenv cwd =
     (if getenv ''HOME'' = Some cwd then ''~''
      else let base = rev (takeWhile (\<lambda>c. c \<noteq> CHR ''/'') (rev cwd)) in
        if CHR ''/'' \<in> set cwd \<and> base \<noteq> [] then base else cwd)"

definition octal_value :: "char \<Rightarrow> nat option" where
  "octal_value c = (let n = (of_char c :: nat) in if n < 48 \<or> 55 < n then None else Some (n - 48))"

definition parse_octal_escape :: "string \<Rightarrow> nat \<times> nat" where
  "parse_octal_escape s =
     (let ds = takeWhile (\<lambda>c. octal_value c \<noteq> None) (take 3 s) in
      (foldl (\<lambda>v c. v * 8 + the (octal_value c)) 0 ds mod 256, length ds))"

record prompt_env =
  pe_getenv :: "string \<Rightarrow> string option"
  pe_pid :: string
  pe_cwd :: string
  pe_uid :: u32

text \<open>The loop of \<open>sh_expand_prompt\<close>.  An escape at the very end of the prompt adds nothing: the code steps back onto the escape
  character, and the loop steps from there onto the terminator.\<close>

function sh_prompt_from :: "prompt_env \<Rightarrow> string \<Rightarrow> string" where
  "sh_prompt_from e s =
     (case s of
        [] \<Rightarrow> []
      | c # r \<Rightarrow>
          if c = CHR ''$'' then sh_expand_vars (pe_getenv e) (pe_pid e) s
          else if c \<noteq> CHR 0x5C then c # sh_prompt_from e r
          else (case r of
              [] \<Rightarrow> []
            | d # t \<Rightarrow>
                let default = (\<lambda>name v. case pe_getenv e name of None \<Rightarrow> v | Some x \<Rightarrow> x) in
                if d = CHR ''['' \<or> d = CHR '']'' then sh_prompt_from e t
                else if d = CHR ''u'' then default ''USER'' ''user'' @ sh_prompt_from e t
                else if d = CHR ''h'' \<or> d = CHR ''H'' then default ''HOSTNAME'' ''lyr'' @ sh_prompt_from e t
                else if d = CHR ''w'' then prompt_cwd (pe_getenv e) (pe_cwd e) @ sh_prompt_from e t
                else if d = CHR ''W'' then prompt_basename (pe_getenv e) (pe_cwd e) @ sh_prompt_from e t
                else if d = CHR ''$'' then (if pe_uid e = 0 then ''#'' else ''$'') @ sh_prompt_from e t
                else if d = CHR ''n'' then CHR 0x0A # sh_prompt_from e t
                else if d = CHR ''r'' then CHR 0x0D # sh_prompt_from e t
                else if d = CHR ''t'' then CHR 0x09 # sh_prompt_from e t
                else if d = CHR ''a'' then CHR 0x07 # sh_prompt_from e t
                else if d = CHR ''e'' \<or> d = CHR ''E'' then CHR 0x1B # sh_prompt_from e t
                else if octal_value d \<noteq> None then
                  (let (v, used) = parse_octal_escape r in char_of v # sh_prompt_from e (drop (used - 1) t))
                else if d = CHR 0x5C then CHR 0x5C # sh_prompt_from e t
                else CHR 0x5C # d # sh_prompt_from e t))"
  by pat_completeness auto
termination by (relation "measure (\<lambda>(e, s). length s)") auto

declare sh_prompt_from.simps [simp del]

text \<open>The result is a C string: it ends at the first zero byte, which an octal escape can produce.\<close>

definition sh_expand_prompt :: "prompt_env \<Rightarrow> string option \<Rightarrow> string" where
  "sh_expand_prompt e ps1 =
     takeWhile (\<lambda>c. c \<noteq> CHR 0x00)
       (sh_prompt_from e (case ps1 of None \<Rightarrow> [CHR 0x5C, CHR ''u'', CHR ''@'', CHR 0x5C, CHR ''h'', CHR '':'', CHR 0x5C, CHR ''w'', CHR 0x5C, CHR ''$'', CHR '' ''] | Some p \<Rightarrow> p))"

section \<open>Splitting a line\<close>

record sh_lex =
  lex_out :: "string list list"
  lex_words :: "string list"
  lex_word :: "string option"
  lex_sq :: bool
  lex_dq :: bool
  lex_esc :: bool

definition sb_start_word :: "sh_lex \<Rightarrow> sh_lex" where
  "sb_start_word l = (case lex_word l of None \<Rightarrow> l\<lparr>lex_word := Some []\<rparr> | Some _ \<Rightarrow> l)"

definition sb_add :: "char \<Rightarrow> sh_lex \<Rightarrow> sh_lex" where
  "sb_add c l = l\<lparr>lex_word := map_option (\<lambda>w. w @ [c]) (lex_word l)\<rparr>"

definition finish_word :: "(string \<Rightarrow> string) \<Rightarrow> sh_lex \<Rightarrow> sh_lex" where
  "finish_word expand l =
     (case lex_word l of
        None \<Rightarrow> l
      | Some w \<Rightarrow> if w = [] then l\<lparr>lex_word := None\<rparr> else l\<lparr>lex_word := None, lex_words := lex_words l @ [expand w]\<rparr>)"

definition finish_command :: "sh_lex \<Rightarrow> sh_lex" where
  "finish_command l = (if lex_words l = [] then l else l\<lparr>lex_out := lex_out l @ [lex_words l], lex_words := []\<rparr>)"

definition escapes_in_quotes :: "string \<Rightarrow> bool" where
  "escapes_in_quotes r = (case r of [] \<Rightarrow> False | n # _ \<Rightarrow> n \<in> {CHR ''$'', CHR 0x60, CHR 0x22, CHR 0x5C, CHR 0x0A})"

text \<open>The loop of \<open>sh_parse_line\<close>.  The end of the list is the terminator, which is a character of its own for the loop: an escape before
  it is stored, everywhere else it ends the command.  \<open>sh_parse_plain\<close> is the part behind the test for comments.\<close>

definition sh_parse_plain :: "(string \<Rightarrow> string) \<Rightarrow> char \<Rightarrow> sh_lex \<Rightarrow> sh_lex" where
  "sh_parse_plain expand c l =
     (let bare = (\<not> lex_sq l \<and> \<not> lex_dq l) in
      if bare \<and> (c = CHR 0x0A \<or> c = CHR '';'') then finish_command (finish_word expand l)
      else if bare \<and> isspace c then finish_word expand l
      else if bare \<and> c = CHR ''|'' then (let l = finish_word expand l in l\<lparr>lex_words := lex_words l @ [''|'']\<rparr>)
      else sb_add c (sb_start_word l))"

function sh_parse_from :: "(string \<Rightarrow> string) \<Rightarrow> sh_lex \<Rightarrow> string \<Rightarrow> sh_lex" where
  "sh_parse_from expand l line =
     (case line of
        [] \<Rightarrow>
          if lex_esc l then (sb_add (CHR 0x00) (sb_start_word l))\<lparr>lex_esc := False\<rparr>
          else finish_command (finish_word expand l)
      | c # r \<Rightarrow>
          if lex_esc l then sh_parse_from expand ((sb_add c (sb_start_word l))\<lparr>lex_esc := False\<rparr>) r
          else if c = CHR 0x5C \<and> \<not> lex_sq l then
            (if lex_dq l \<and> \<not> escapes_in_quotes r then sh_parse_from expand (sb_add c (sb_start_word l)) r
             else sh_parse_from expand (l\<lparr>lex_esc := True\<rparr>) r)
          else if c = CHR 0x27 \<and> \<not> lex_dq l then
            (if \<not> lex_sq l
             then sh_parse_from expand ((sb_add SH_NOGLOB_BEGIN (sb_add SH_NOEXPAND_BEGIN (sb_start_word l)))\<lparr>lex_sq := True\<rparr>) r
             else sh_parse_from expand ((sb_add SH_NOEXPAND_END (sb_add SH_NOGLOB_END (sb_start_word l)))\<lparr>lex_sq := False\<rparr>) r)
          else if c = CHR 0x22 \<and> \<not> lex_sq l then
            (if \<not> lex_dq l
             then sh_parse_from expand ((sb_add SH_NOGLOB_BEGIN (sb_start_word l))\<lparr>lex_dq := True\<rparr>) r
             else sh_parse_from expand ((sb_add SH_NOGLOB_END (sb_start_word l))\<lparr>lex_dq := False\<rparr>) r)
          else if \<not> lex_sq l \<and> \<not> lex_dq l \<and> c = CHR ''#'' then
            (case dropWhile (\<lambda>x. x \<noteq> CHR 0x0A) r of
               [] \<Rightarrow> finish_command (finish_word expand l)
             | d # t \<Rightarrow> sh_parse_from expand (sh_parse_plain expand d l) t)
          else sh_parse_from expand (sh_parse_plain expand c l) r)"
  by pat_completeness auto
termination
proof (relation "measure (\<lambda>(x, l, s). length s)", goal_cases)
  case (9 expand l line c r d t)
  have "length (d # t) \<le> length r" using length_dropWhile_le [of "\<lambda>x. x \<noteq> CHR 0x0A" r] 9 by simp
  then show ?case using 9 by simp
qed auto

declare sh_parse_from.simps [simp del]

definition no_words :: sh_lex where
  "no_words = \<lparr>lex_out = [], lex_words = [], lex_word = None, lex_sq = False, lex_dq = False, lex_esc = False\<rparr>"

definition sh_parse_line :: "(string \<Rightarrow> string option) \<Rightarrow> string \<Rightarrow> string \<Rightarrow> string + string list list" where
  "sh_parse_line getenv pid line =
     (let l = sh_parse_from (sh_expand_vars getenv pid) no_words line in
      if lex_sq l \<or> lex_dq l \<or> lex_esc l then Inl ''unterminated quote or escape'' else Inr (lex_out l))"

section \<open>Patterns\<close>

text \<open>A compiled pattern: the characters, each with the flag that it was quoted.\<close>

type_synonym sh_pattern = "(char \<times> bool) list"

primrec compile_from :: "bool \<Rightarrow> string \<Rightarrow> sh_pattern" where
  "compile_from quoted [] = []"
| "compile_from quoted (c # r) =
     (if c = SH_NOGLOB_BEGIN then compile_from True r
      else if c = SH_NOGLOB_END then compile_from False r
      else if c = SH_NOEXPAND_BEGIN \<or> c = SH_NOEXPAND_END then compile_from quoted r
      else (c, quoted) # compile_from quoted r)"

definition sh_compile_pattern :: "string \<Rightarrow> sh_pattern" where
  "sh_compile_pattern s = compile_from False s"

definition sh_unquote_word :: "string \<Rightarrow> string" where
  "sh_unquote_word s = map fst (sh_compile_pattern s)"

definition sh_pattern_has_meta :: "sh_pattern \<Rightarrow> bool" where
  "sh_pattern_has_meta pat \<longleftrightarrow> (\<exists>(c, q)\<in>set pat. \<not> q \<and> c \<in> {CHR ''*'', CHR ''?'', CHR ''[''})"

definition sh_pattern_starts_dot :: "sh_pattern \<Rightarrow> bool" where
  "sh_pattern_starts_dot pat \<longleftrightarrow> (case pat of [] \<Rightarrow> False | (c, _) # _ \<Rightarrow> c = CHR ''.'')"

text \<open>The type \<open>char\<close> of the machine is signed.\<close>

definition char_le :: "char \<Rightarrow> char \<Rightarrow> bool" where
  "char_le a b = (let s = (\<lambda>c. let n = (of_char c :: int) in if n < 128 then n else n - 256) in s a \<le> s b)"

fun class_from :: "sh_pattern \<Rightarrow> char \<Rightarrow> bool \<Rightarrow> (bool \<times> sh_pattern) option" where
  "class_from [] ch matched = None"
| "class_from ((c, q) # (d, q1) # (e, q2) # p) ch matched =
     (if \<not> q \<and> c = CHR '']'' then Some (matched, (d, q1) # (e, q2) # p)
      else if \<not> q \<and> \<not> q1 \<and> \<not> q2 \<and> d = CHR ''-'' \<and> e \<noteq> CHR '']''
      then class_from p ch (matched \<or> char_le c ch \<and> char_le ch e)
      else class_from ((d, q1) # (e, q2) # p) ch (matched \<or> c = ch))"
| "class_from ((c, q) # p) ch matched =
     (if \<not> q \<and> c = CHR '']'' then Some (matched, p) else class_from p ch (matched \<or> c = ch))"

text \<open>\<open>sh_match_char_class\<close> on the pattern behind the bracket: \<open>None\<close> when it is not closed, else whether the character is in the class and
  the pattern behind it.\<close>

definition sh_match_char_class :: "sh_pattern \<Rightarrow> char \<Rightarrow> (bool \<times> sh_pattern) option" where
  "sh_match_char_class p ch =
     (let negate = (case p of [] \<Rightarrow> False | (c, q) # _ \<Rightarrow> \<not> q \<and> (c = CHR ''!'' \<or> c = CHR ''^'')) in
      map_option (apfst (\<lambda>m. if negate then \<not> m else m)) (class_from (if negate then tl p else p) ch False))"

lemma class_from_shorter: "class_from p ch m = Some (r, p') \<Longrightarrow> length p' < length p"
proof (induction p ch m rule: class_from.induct)
  case (2 c q d q1 e q2 p ch m)
  then show ?case by (auto split: if_splits)
qed (auto split: if_splits)

lemma char_class_no_longer: "sh_match_char_class p ch = Some (r, p') \<Longrightarrow> length p' < length p"
  by (auto simp: sh_match_char_class_def Let_def split: if_splits list.splits dest!: class_from_shorter)

abbreviation (input) is_star :: "char \<times> bool \<Rightarrow> bool" where "is_star x \<equiv> x = (CHR ''*'', False)"

function sh_match_pattern_impl :: "sh_pattern \<Rightarrow> string \<Rightarrow> bool" and match_some_suffix :: "sh_pattern \<Rightarrow> string \<Rightarrow> bool" where
  "sh_match_pattern_impl pat text =
     (case pat of
        [] \<Rightarrow> text = []
      | (pc, q) # p \<Rightarrow>
          if \<not> q \<and> pc = CHR ''*'' then
            (let p = dropWhile is_star p in if p = [] then True else match_some_suffix p text)
          else (case text of
              [] \<Rightarrow> False
            | t # ts \<Rightarrow>
                if \<not> q \<and> pc = CHR ''?'' then sh_match_pattern_impl p ts
                else if \<not> q \<and> pc = CHR ''['' then
                  (case sh_match_char_class p t of
                     None \<Rightarrow> pc = t \<and> sh_match_pattern_impl p ts
                   | Some (r, p') \<Rightarrow> r \<and> sh_match_pattern_impl p' ts)
                else pc = t \<and> sh_match_pattern_impl p ts))"
| "match_some_suffix p text =
     (sh_match_pattern_impl p text \<or> (case text of [] \<Rightarrow> False | _ # ts \<Rightarrow> match_some_suffix p ts))"
  by pat_completeness auto
termination
proof (relation "inv_image (less_than <*lex*> less_than <*lex*> less_than)
    (\<lambda>x. case x of Inl (p, t) \<Rightarrow> (length p, length t, 0 :: nat) | Inr (p, t) \<Rightarrow> (length p, length t, 1))", goal_cases)
  case (2 pat tx a p pc q pa)
  then show ?case using length_dropWhile_le [of is_star p] by (auto simp: less_Suc_eq_le)
next
  case (5 pat tx a p pc q t ts y r p')
  then show ?case using char_class_no_longer [of p t r p'] by auto
qed auto

declare sh_match_pattern_impl.simps [simp del] match_some_suffix.simps [simp del]

section \<open>File names\<close>

record file_view =
  entries :: "string \<Rightarrow> string list option"
  is_dir :: "string \<Rightarrow> bool"

primrec split_from :: "string \<Rightarrow> string \<Rightarrow> string list" where
  "split_from cur [] = [cur]"
| "split_from cur (c # r) = (if c = CHR ''/'' then cur # split_from [] r else split_from (cur @ [c]) r)"

definition sh_split_pattern_segments :: "string \<Rightarrow> string list" where
  "sh_split_pattern_segments pattern = split_from [] pattern"

text \<open>\<open>sh_join_display_path\<close> and \<open>sh_join_search_path\<close> are the same function.\<close>

definition sh_join_path :: "string \<Rightarrow> string \<Rightarrow> string" where
  "sh_join_path base name = (if base = [] then name else if base = ''/'' then sh_path_join ''/'' name else sh_path_join base name)"

primrec sh_expand_pattern_recursive :: "file_view \<Rightarrow> string list \<Rightarrow> string \<Rightarrow> string \<Rightarrow> string list" where
  "sh_expand_pattern_recursive fs [] search display = []"
| "sh_expand_pattern_recursive fs (seg # segs) search display =
     (let pat = sh_compile_pattern seg;
          next = (\<lambda>name.
            if segs = [] then [sh_join_path display name]
            else if is_dir fs (sh_join_path search name)
            then sh_expand_pattern_recursive fs segs (sh_join_path search name) (sh_join_path display name)
            else []) in
      if \<not> sh_pattern_has_meta pat then next (map fst pat)
      else case entries fs search of
          None \<Rightarrow> []
        | Some names \<Rightarrow>
            concat (map next (sort (filter (\<lambda>n.
              \<not> (\<not> sh_pattern_starts_dot pat \<and> take 1 n = ''.'') \<and> sh_match_pattern_impl pat n) names))))"

definition sh_expand_single_word :: "file_view \<Rightarrow> string \<Rightarrow> string list" where
  "sh_expand_single_word fs word =
     (let pat = sh_compile_pattern word; literal = map fst pat in
      if \<not> sh_pattern_has_meta pat then [literal]
      else let absolute = (take 1 literal = ''/'');
               matches = sh_expand_pattern_recursive fs (sh_split_pattern_segments literal)
                 (if absolute then ''/'' else ''.'') (if absolute then ''/'' else []) in
        if matches = [] then [literal] else matches)"

function sh_expand_globs :: "file_view \<Rightarrow> string list \<Rightarrow> string list" where
  "sh_expand_globs fs words =
     (let stage = takeWhile (\<lambda>w. w \<noteq> ''|'') words;
          assignments = takeWhile sh_is_assignment stage in
      map sh_unquote_word assignments @ concat (map (sh_expand_single_word fs) (drop (length assignments) stage)) @
      (if ''|'' \<in> set words then ''|'' # sh_expand_globs fs (drop (length stage + 1) words) else []))"
  by pat_completeness auto
termination by (relation "measure (\<lambda>(fs, ws). length ws)") (auto intro!: diff_less dest: length_pos_if_in_set)

declare sh_expand_globs.simps [simp del]

section \<open>Execution\<close>

text \<open>The state of the shell, with the environment of its process and a world for everything else.  The commands it runs are a parameter: the builtins,
  which may not know a command, programs in a child process, and the children of a pipeline.\<close>

record 'w sh_shell =
  interactive :: bool
  should_exit :: bool
  last_status :: int
  script_name :: "string option"
  history :: "string list"
  sh_env :: "string \<Rightarrow> string option"
  sh_pid :: string
  sh_files :: file_view
  sh_world :: 'w

record 'w sh_ops =
  sh_builtin_run :: "string list \<Rightarrow> 'w sh_shell \<Rightarrow> (int \<times> 'w sh_shell) option"
  run_external :: "string list \<Rightarrow> 'w sh_shell \<Rightarrow> int \<times> 'w sh_shell"
  run_stages :: "string list list \<Rightarrow> 'w sh_shell \<Rightarrow> int \<times> 'w sh_shell"

fun print_nat :: "nat \<Rightarrow> string" where
  "print_nat n = (if n < 10 then [char_of (48 + n)] else print_nat (n div 10) @ [char_of (48 + n mod 10)])"

declare print_nat.simps [simp del]

definition set_status_env :: "int \<Rightarrow> 'w sh_shell \<Rightarrow> 'w sh_shell" where
  "set_status_env status sh = sh\<lparr>sh_env := (sh_env sh)(''?'' \<mapsto> (if status < 0 then ''-'' else []) @ print_nat (nat \<bar>status\<bar>))\<rparr>"

text \<open>The assignments in front of a command, and the words behind them.\<close>

primrec apply_assignments :: "string list \<Rightarrow> (string \<Rightarrow> string option) \<Rightarrow> string list \<times> (string \<Rightarrow> string option)" where
  "apply_assignments [] env = ([], env)"
| "apply_assignments (w # ws) env =
     (if \<not> sh_is_assignment w then (w # ws, env)
      else let name = takeWhile (\<lambda>c. c \<noteq> CHR ''='') w in apply_assignments ws (env(name \<mapsto> drop (length name + 1) w)))"

text \<open>\<open>parse_pipeline\<close> fills an array of 64 bounds, two for each stage.  \<open>None\<close> is a write behind its end, \<open>Some None\<close> the error return.\<close>

primrec pipeline_from :: "string list \<Rightarrow> nat \<Rightarrow> nat \<Rightarrow> (nat \<times> nat) list \<Rightarrow> (nat \<times> nat) list option option" where
  "pipeline_from [] i start bounds =
     (if i = start then Some None
      else if length bounds * 2 + 1 \<ge> 64 then None
      else Some (Some (bounds @ [(start, i)])))"
| "pipeline_from (w # ws) i start bounds =
     (if w \<noteq> ''|'' then pipeline_from ws (i + 1) start bounds
      else if i = start then Some None
      else if length bounds * 2 + 1 \<ge> 64 then None
      else pipeline_from ws (i + 1) (i + 1) (bounds @ [(start, i)]))"

definition parse_pipeline :: "string list \<Rightarrow> (nat \<times> nat) list option option" where
  "parse_pipeline words = pipeline_from words 0 0 []"

definition run_pipeline :: "'w sh_ops \<Rightarrow> string list \<Rightarrow> 'w sh_shell \<Rightarrow> (int \<times> 'w sh_shell) option" where
  "run_pipeline ops words sh =
     (if words = [] then Some (0, sh)
      else if length words > 128 then Some (2, sh)
      else case parse_pipeline words of
        None \<Rightarrow> None
      | Some None \<Rightarrow> Some (2, sh)
      | Some (Some bounds) \<Rightarrow>
          if bounds = [] \<or> length bounds > 32 then Some (2, sh)
          else Some (run_stages ops (map (\<lambda>(a, b). drop a (take b words)) bounds) sh))"

definition sh_execute :: "'w sh_ops \<Rightarrow> string list \<Rightarrow> 'w sh_shell \<Rightarrow> (int \<times> 'w sh_shell) option" where
  "sh_execute ops cmd sh =
     (if cmd = [] then Some (0, sh)
      else let words = sh_expand_globs (sh_files sh) cmd;
               done = (\<lambda>(status, sh). (status, set_status_env status (sh\<lparr>last_status := status\<rparr>))) in
        if ''|'' \<in> set words then map_option done (run_pipeline ops words sh)
        else let (av, env) = apply_assignments words (sh_env sh); sh = sh\<lparr>sh_env := env\<rparr> in
          if av = [] then Some (0, set_status_env 0 sh)
          else Some (done (case sh_builtin_run ops av sh of Some r \<Rightarrow> r | None \<Rightarrow> run_external ops av sh)))"

primrec run_list :: "'w sh_ops \<Rightarrow> string list list \<Rightarrow> int \<Rightarrow> 'w sh_shell \<Rightarrow> (int \<times> 'w sh_shell) option" where
  "run_list ops [] status sh = Some (status, sh)"
| "run_list ops (c # cs) status sh =
     do {
       (status, sh) \<leftarrow> sh_execute ops c sh;
       if should_exit sh then Some (status, sh) else run_list ops cs status sh
     }"

definition sh_run_line :: "'w sh_ops \<Rightarrow> string \<Rightarrow> 'w sh_shell \<Rightarrow> (int \<times> 'w sh_shell) option" where
  "sh_run_line ops line sh =
     (case sh_parse_line (sh_env sh) (sh_pid sh) line of
        Inl err \<Rightarrow> Some (2, set_status_env 2 (sh\<lparr>last_status := 2\<rparr>))
      | Inr list \<Rightarrow> run_list ops list 0 sh)"

primrec run_lines :: "'w sh_ops \<Rightarrow> string list \<Rightarrow> int \<Rightarrow> 'w sh_shell \<Rightarrow> (int \<times> 'w sh_shell) option" where
  "run_lines ops [] status sh = Some (status, sh)"
| "run_lines ops (l # ls) status sh =
     (if should_exit sh then Some (status, sh)
      else do { (status, sh) \<leftarrow> sh_run_line ops l sh; run_lines ops ls status sh })"

text \<open>The lines of the file are an argument, \<open>None\<close> when it cannot be opened.\<close>

definition sh_run_file :: "'w sh_ops \<Rightarrow> string \<Rightarrow> string list option \<Rightarrow> 'w sh_shell \<Rightarrow> (int \<times> 'w sh_shell) option" where
  "sh_run_file ops path file sh =
     (case file of
        None \<Rightarrow> Some (1, sh)
      | Some ls \<Rightarrow>
          map_option (apsnd (\<lambda>s. s\<lparr>script_name := script_name sh, interactive := interactive sh\<rparr>))
            (run_lines ops ls 0 (sh\<lparr>interactive := False, script_name := Some path\<rparr>)))"

definition sh_history_add :: "string \<Rightarrow> 'w sh_shell \<Rightarrow> 'w sh_shell" where
  "sh_history_add line sh = (if line = [] then sh else sh\<lparr>history := history sh @ [line]\<rparr>)"

definition init_defaults :: "'w sh_shell \<Rightarrow> 'w sh_shell" where
  "init_defaults sh =
     (let default = (\<lambda>name v env. if env name = None then env(name \<mapsto> v) else env) in
      sh\<lparr>sh_env := (default ''HOME'' ''/root'' (default ''USER'' ''root''
        (default ''PS1'' [CHR 0x5C, CHR ''u'', CHR ''@'', CHR 0x5C, CHR ''h'', CHR '':'', CHR 0x5C, CHR ''w'', CHR '' '', CHR 0x5C, CHR ''$'', CHR '' '']
        (default ''PATH'' ''/usr/bin:/bin:/usr/sbin:/sbin'' (sh_env sh)))))(''?'' \<mapsto> ''0'')\<rparr>)"

section \<open>What a pattern matches\<close>










section \<open>Quoted words\<close>




definition bare :: "sh_lex \<Rightarrow> bool" where
  "bare l \<longleftrightarrow> \<not> lex_sq l \<and> \<not> lex_dq l \<and> \<not> lex_esc l"














text \<open>A word with a wildcard outside quotes is expanded as if none of it had been quoted: the expansion starts from the text without its marks.\<close>

lemma compile_unquoted: "compile_from False (map fst (compile_from q w)) = map (\<lambda>(c, _). (c, False)) (compile_from q w)"
  by (induction w arbitrary: q) auto

lemma sh_glob_quotes_lost:
  assumes "sh_pattern_has_meta (sh_compile_pattern w)"
  shows "sh_expand_single_word fs w = sh_expand_single_word fs (sh_unquote_word w)"
proof -
  have "sh_pattern_has_meta (sh_compile_pattern (sh_unquote_word w))"
    using assms unfolding sh_pattern_has_meta_def sh_compile_pattern_def sh_unquote_word_def compile_unquoted by (force split: prod.splits)
  moreover have "map fst (sh_compile_pattern (sh_unquote_word w)) = map fst (sh_compile_pattern w)"
    by (simp add: sh_compile_pattern_def sh_unquote_word_def compile_unquoted case_prod_unfold comp_def)
  ultimately show ?thesis using assms by (simp add: sh_expand_single_word_def)
qed

section \<open>Pipelines\<close>











end
